(* ===== verification/Smoltcp_Prelude.thy ===== *)
theory Smoltcp_Prelude
  imports Main "HOL-Library.Word" "HOL-Library.Monad_Syntax"
begin

text \<open>
  Shared vocabulary of the development: the machine integers of the Rust sources, the
  treatment of panics, and the two operations on slices that the storage code is built from.

  A Rust function that can panic (an \<open>assert!\<close>, an out-of-range slice, a checked
  subtraction) returns an \<open>option\<close> here: \<open>None\<close> is the panic and \<open>Some\<close> the normal return.
  Rust's own \<open>Option\<close> and \<open>Result\<close> values stay visible as \<open>option\<close> and as sums inside it.
  \<open>usize\<close> is \<^typ>\<open>nat\<close>: lengths and indices of slices, which never reach the
  width of the type; where the code truncates or wraps, words are used.
\<close>

type_synonym u8 = "8 word"
type_synonym u16 = "16 word"
type_synonym u32 = "32 word"
type_synonym u64 = "64 word"

named_theorems rb_defs \<open>definitions of the ring buffer's accessors\<close>
named_theorems panic_defs \<open>definitions of the operations that can panic\<close>

subsection \<open>Panics\<close>

definition rust_assert :: "bool \<Rightarrow> unit option" where
  "rust_assert b = (if b then Some () else None)"

definition checked_sub :: "nat \<Rightarrow> nat \<Rightarrow> nat option" where
  "checked_sub a b = (if b \<le> a then Some (a - b) else None)"

lemma rust_assert_Some [simp]: "rust_assert b = Some u \<longleftrightarrow> b"
  by (simp add: rust_assert_def)

lemma rust_assert_bind [simp]: "rust_assert b \<bind> f = (if b then f () else None)"
  by (simp add: rust_assert_def)

lemma checked_sub_bind [simp]: "checked_sub a b \<bind> f = (if b \<le> a then f (a - b) else None)"
  by (simp add: checked_sub_def)

subsection \<open>Slices\<close>

text \<open>
  \<open>sub_slice i n xs\<close> is the slice \<open>&xs[i..i + n]\<close>, and \<open>blit i xs ys\<close> the array \<open>ys\<close> after
  \<open>ys[i..i + xs.len()].copy_from_slice(xs)\<close>.
\<close>

definition sub_slice :: "nat \<Rightarrow> nat \<Rightarrow> 'a list \<Rightarrow> 'a list" where
  "sub_slice i n xs = take n (drop i xs)"

definition blit :: "nat \<Rightarrow> 'a list \<Rightarrow> 'a list \<Rightarrow> 'a list" where
  "blit i xs ys = take i ys @ xs @ drop (i + length xs) ys"

text \<open>\<open>&data[from..to]\<close>, which panics out of range.\<close>

definition slice_range :: "nat \<Rightarrow> nat \<Rightarrow> 'a list \<Rightarrow> 'a list option" where
  "slice_range from to data =
     (if from \<le> to \<and> to \<le> length data then Some (sub_slice from (to - from) data) else None)"

lemma length_sub_slice [simp]: "length (sub_slice i n xs) = min n (length xs - i)"
  by (simp add: sub_slice_def)

lemma nth_sub_slice [simp]: "j < n \<Longrightarrow> i + j < length xs \<Longrightarrow> sub_slice i n xs ! j = xs ! (i + j)"
  by (simp add: sub_slice_def)

lemma sub_slice_0 [simp]: "sub_slice i 0 xs = []"
  by (simp add: sub_slice_def)

lemma length_blit [simp]: "i + length xs \<le> length ys \<Longrightarrow> length (blit i xs ys) = length ys"
  by (simp add: blit_def)

lemma nth_blit:
  assumes "i + length xs \<le> length ys" and "j < length ys"
  shows "blit i xs ys ! j = (if i \<le> j \<and> j < i + length xs then xs ! (j - i) else ys ! j)"
  using assms by (auto simp: blit_def nth_append)

lemma blit_Nil [simp]: "blit i [] ys = ys"
  by (simp add: blit_def)

lemma blit_sub_slice [simp]:
  assumes "i + n \<le> length ys"
  shows "blit i (sub_slice i n ys) ys = ys"
proof -
  have "length (sub_slice i n ys) = n"
    using assms by simp
  then show ?thesis
    using assms by (simp add: blit_def sub_slice_def)
      (metis add.commute append_take_drop_id drop_drop)
qed

lemma take_blit_prefix: "length xs \<le> length ys \<Longrightarrow> take n (blit 0 xs ys) = take n (xs @ drop (length xs) ys)"
  by (simp add: blit_def)

lemma take_blit_behind: "l \<le> i \<Longrightarrow> i \<le> length ys \<Longrightarrow> take l (blit i xs ys) = take l ys"
  by (simp add: blit_def)

lemma drop_blit_behind:
  "i + length xs + l \<le> length ys \<Longrightarrow> drop l (blit (l + i) xs ys) = blit i xs (drop l ys)"
  by (simp add: blit_def drop_take add.commute add.left_commute)

lemma blit_append:
  assumes "i + length xs + length zs \<le> length ys"
  shows "blit (i + length xs) zs (blit i xs ys) = blit i (xs @ zs) ys"
  using assms by (simp add: blit_def add.commute add.left_commute)

lemma take_eq_min: "min (length xs) m = min (length xs) n \<Longrightarrow> take m xs = take n xs"
  by (auto simp: min_def split: if_splits)

lemma drop_take_append: "n \<le> m \<Longrightarrow> drop n (take m xs) @ drop m xs = drop n xs"
  by (simp add: drop_take) (metis append_take_drop_id drop_drop le_add_diff_inverse2)

subsection \<open>Indices modulo a capacity\<close>

lemma mod_add_once:
  assumes "a < (n::nat)" and "b \<le> n"
  shows "(a + b) mod n = (if a + b < n then a + b else a + b - n)"
  using assms by (simp add: mod_if)

lemma mod_offset_inj:
  assumes "(r + i) mod n = (r + j) mod n" and "i < n" and "j < (n::nat)"
  shows "i = j"
proof -
  have "(int r + int i) mod int n = (int r + int j) mod int n"
    using assms(1) by (metis of_nat_add of_nat_mod)
  then have "int i mod int n = int j mod int n"
    by (metis add_diff_cancel_left' mod_diff_left_eq)
  then show ?thesis
    using assms(2,3) by simp
qed


lemma rotate_le: "n \<le> length xs \<Longrightarrow> rotate n xs = drop n xs @ take n xs"
  by (cases "n = length xs") (simp_all add: rotate_drop_take)

end
