(* ===== verification/Storage_Interfaces.thy ===== *)
theory Storage_Interfaces
  imports Smoltcp_Prelude
begin

text \<open>
  The contracts of the storage layer, as locales: a bounded byte queue (what \<open>send_slice\<close> and
  \<open>recv_slice\<close> use), a queue whose free area can be filled out of order (what the receive path
  of a TCP socket uses), and a tracker of the offsets that have arrived. The locale
  \<open>reassembly\<close> puts the last two together the way \<open>Socket::process\<close> does and shows that the
  stream is delivered in order whatever the order of arrival.
\<close>

section \<open>A bounded queue of elements\<close>

datatype 'a q_op = Enqueue_slice "'a list" | Dequeue_slice "'a list"

text \<open>A script of operations; the result is what was accepted, what was handed out, the queue.\<close>

fun q_run :: "('a list \<Rightarrow> 'q \<Rightarrow> (nat \<times> 'q) option) \<Rightarrow> ('a list \<Rightarrow> 'q \<Rightarrow> (nat \<times> 'a list \<times> 'q) option) \<Rightarrow>
    'a q_op list \<Rightarrow> 'q \<Rightarrow> ('a list \<times> 'a list \<times> 'q) option" where
  "q_run enq deq [] q = Some ([], [], q)"
| "q_run enq deq (Enqueue_slice xs # ops) q =
     do { (n, q) \<leftarrow> enq xs q; (acc, out, q) \<leftarrow> q_run enq deq ops q; Some (take n xs @ acc, out, q) }"
| "q_run enq deq (Dequeue_slice buf # ops) q =
     do { (n, buf, q) \<leftarrow> deq buf q; (acc, out, q) \<leftarrow> q_run enq deq ops q; Some (acc, take n buf @ out, q) }"

locale byte_queue =
  fixes invar :: "'q \<Rightarrow> bool" and contents :: "'q \<Rightarrow> 'a list" and capacity :: "'q \<Rightarrow> nat"
    and enq :: "'a list \<Rightarrow> 'q \<Rightarrow> (nat \<times> 'q) option"
    and deq :: "'a list \<Rightarrow> 'q \<Rightarrow> (nat \<times> 'a list \<times> 'q) option"
  assumes bounded: "invar q \<Longrightarrow> length (contents q) \<le> capacity q"
    and enq_law: "invar q \<Longrightarrow> \<exists>q'. enq xs q = Some (min (capacity q - length (contents q)) (length xs), q')
        \<and> invar q' \<and> capacity q' = capacity q
        \<and> contents q' = contents q @ take (capacity q - length (contents q)) xs"
    and deq_law: "invar q \<Longrightarrow> \<exists>q'. deq buf q = Some (min (length (contents q)) (length buf),
          take (length buf) (contents q) @ drop (length (contents q)) buf, q')
        \<and> invar q' \<and> capacity q' = capacity q \<and> contents q' = drop (length buf) (contents q)"
begin

lemma q_run_stream:
  "invar q \<Longrightarrow> \<exists>acc out q'. q_run enq deq ops q = Some (acc, out, q') \<and> invar q'
     \<and> capacity q' = capacity q \<and> contents q @ acc = out @ contents q'"
proof (induction ops arbitrary: q)
  case (Cons op ops)
  show ?case
  proof (cases op)
    case (Enqueue_slice xs)
    let ?n = "min (capacity q - length (contents q)) (length xs)"
    obtain q1 where q1: "enq xs q = Some (?n, q1)" "invar q1" "capacity q1 = capacity q"
      "contents q1 = contents q @ take (capacity q - length (contents q)) xs"
      using enq_law [OF Cons.prems] by blast
    moreover have "take ?n xs = take (capacity q - length (contents q)) xs"
      by (rule take_eq_min) simp
    ultimately show ?thesis
      using Cons.IH [OF q1(2)] Enqueue_slice by auto
  next
    case (Dequeue_slice buf)
    obtain q1 where q1: "deq buf q = Some (min (length (contents q)) (length buf),
          take (length buf) (contents q) @ drop (length (contents q)) buf, q1)"
      "invar q1" "capacity q1 = capacity q" "contents q1 = drop (length buf) (contents q)"
      using deq_law [OF Cons.prems] by blast
    moreover obtain acc out q2 where q2: "q_run enq deq ops q1 = Some (acc, out, q2)" "invar q2"
      "capacity q2 = capacity q1" "contents q1 @ acc = out @ contents q2"
      using Cons.IH [OF q1(2)] by blast
    ultimately show ?thesis
      using Dequeue_slice by (auto simp: min_def) (metis append.assoc append_take_drop_id)+
  qed
qed simp

lemma enq_deq_roundtrip:
  assumes "invar q" and "length xs \<le> capacity q - length (contents q)" and "contents q = []"
    and "length buf = length xs"
  shows "\<exists>q1 q2. enq xs q = Some (length xs, q1) \<and> deq buf q1 = Some (length xs, xs, q2) \<and> contents q2 = []"
proof -
  obtain q1 where q1: "enq xs q = Some (length xs, q1)" "invar q1" "contents q1 = xs"
    using enq_law [OF assms(1), of xs] assms(2,3) by auto
  then show ?thesis
    using deq_law [OF q1(2), of buf] assms(4) by auto
qed

end

section \<open>A queue that is filled out of order\<close>

locale reorder_store = byte_queue invar contents capacity enq deq
  for invar :: "'q \<Rightarrow> bool" and contents :: "'q \<Rightarrow> 'a list" and capacity and enq and deq +
  fixes free :: "'q \<Rightarrow> 'a list"
    and put :: "nat \<Rightarrow> 'a list \<Rightarrow> 'q \<Rightarrow> nat \<times> 'q"
    and commit :: "nat \<Rightarrow> 'q \<Rightarrow> 'q option"
  assumes size_free: "invar q \<Longrightarrow> length (contents q) + length (free q) = capacity q"
    and put_law: "invar q \<Longrightarrow> off + length xs \<le> length (free q) \<Longrightarrow>
      \<exists>q'. put off xs q = (length xs, q') \<and> invar q' \<and> capacity q' = capacity q
         \<and> contents q' = contents q \<and> free q' = blit off xs (free q)"
    and commit_law: "invar q \<Longrightarrow> n \<le> length (free q) \<Longrightarrow>
      \<exists>q'. commit n q = Some q' \<and> invar q' \<and> capacity q' = capacity q
         \<and> contents q' = contents q @ take n (free q) \<and> free q' = drop n (free q)"
    and deq_free: "invar q \<Longrightarrow> deq buf q = Some (n, buf', q') \<Longrightarrow>
      free q' = free q @ take (length buf) (contents q)"

section \<open>A tracker of the offsets that have arrived\<close>

text \<open>
  \<open>front_run P n\<close>: the offsets below \<open>n\<close> are in \<open>P\<close>, and \<open>n\<close> is not: \<open>n\<close> is the length of the
  contiguous run at the front of \<open>P\<close>.
\<close>

definition front_run :: "nat set \<Rightarrow> nat \<Rightarrow> bool" where
  "front_run P n \<longleftrightarrow> {0 ..< n} \<subseteq> P \<and> n \<notin> P"

definition shift_down :: "nat \<Rightarrow> nat set \<Rightarrow> nat set" where
  "shift_down n P = {x. n + x \<in> P}"

lemma front_run_unique: "front_run P m \<Longrightarrow> front_run P n \<Longrightarrow> m = n"
  by (metis atLeastLessThan_iff front_run_def le0 linorder_neqE_nat subsetD)

locale offset_tracker =
  fixes t_inv :: "'t \<Rightarrow> bool" and present :: "'t \<Rightarrow> nat set"
    and add_front :: "nat \<Rightarrow> nat \<Rightarrow> 't \<Rightarrow> (('e + nat) \<times> 't) option"
  assumes add_law: "t_inv t \<Longrightarrow>
      (\<exists>e. add_front off n t = Some (Inl e, t) \<and> 0 < off)
    \<or> (\<exists>m t'. add_front off n t = Some (Inr m, t') \<and> t_inv t'
         \<and> front_run (present t \<union> {off ..< off + n}) m
         \<and> present t' = shift_down m (present t \<union> {off ..< off + n}))"

section \<open>Reassembly of a stream\<close>

text \<open>
  What \<open>Socket::process\<close> does with a payload that lies within the receive window at \<open>off\<close>:
  track it, store it, and enqueue what has become contiguous.
\<close>

definition reassemble ::
  "(nat \<Rightarrow> nat \<Rightarrow> 't \<Rightarrow> (('e + nat) \<times> 't) option) \<Rightarrow> (nat \<Rightarrow> 'a list \<Rightarrow> 'q \<Rightarrow> nat \<times> 'q) \<Rightarrow>
   (nat \<Rightarrow> 'q \<Rightarrow> 'q option) \<Rightarrow> nat \<Rightarrow> 'a list \<Rightarrow> 't \<Rightarrow> 'q \<Rightarrow> (('e + nat) \<times> 't \<times> 'q) option" where
  "reassemble add_front put commit payload_offset payload assembler rx_buffer =
     do { (res, assembler) \<leftarrow> add_front payload_offset (length payload) assembler;
          case res of
            Inl e \<Rightarrow> Some (Inl e, assembler, rx_buffer)
          | Inr contig_len \<Rightarrow>
              do { let (len_written, rx_buffer) = put payload_offset payload rx_buffer;
                   rust_assert (len_written = length payload);
                   rx_buffer \<leftarrow> (if contig_len \<noteq> 0 then commit contig_len rx_buffer else Some rx_buffer);
                   Some (Inr contig_len, assembler, rx_buffer) } }"

datatype 'a rx_op = Arrive nat "'a list" | Read "'a list"

text \<open>
  A history of a receiver that has taken \<open>rcvd\<close> elements of the stream so far: segments arrive at
  absolute positions, those outside of the window are ignored; the application reads.
\<close>

fun rx_run :: "(nat \<Rightarrow> nat \<Rightarrow> 't \<Rightarrow> (('e + nat) \<times> 't) option) \<Rightarrow> (nat \<Rightarrow> 'a list \<Rightarrow> 'q \<Rightarrow> nat \<times> 'q) \<Rightarrow>
    (nat \<Rightarrow> 'q \<Rightarrow> 'q option) \<Rightarrow> ('a list \<Rightarrow> 'q \<Rightarrow> (nat \<times> 'a list \<times> 'q) option) \<Rightarrow> ('q \<Rightarrow> nat) \<Rightarrow>
    'a rx_op list \<Rightarrow> nat \<Rightarrow> 't \<Rightarrow> 'q \<Rightarrow> ('a list \<times> nat \<times> 't \<times> 'q) option" where
  "rx_run add_front put commit deq window [] rcvd t q = Some ([], rcvd, t, q)"
| "rx_run add_front put commit deq window (Arrive pos data # ops) rcvd t q =
     (if rcvd \<le> pos \<and> pos + length data \<le> rcvd + window q
      then do { (res, t, q) \<leftarrow> reassemble add_front put commit (pos - rcvd) data t q;
                rx_run add_front put commit deq window ops
                  (rcvd + (case res of Inl _ \<Rightarrow> 0 | Inr m \<Rightarrow> m)) t q }
      else rx_run add_front put commit deq window ops rcvd t q)"
| "rx_run add_front put commit deq window (Read buf # ops) rcvd t q =
     do { (n, buf, q) \<leftarrow> deq buf q;
          (out, rcvd, t, q) \<leftarrow> rx_run add_front put commit deq window ops rcvd t q;
          Some (take n buf @ out, rcvd, t, q) }"

locale reassembly =
  reorder_store invar contents capacity enq deq free put commit +
  offset_tracker t_inv present add_front
  for invar :: "'q \<Rightarrow> bool" and contents :: "'q \<Rightarrow> 'a list" and capacity and enq and deq and free
    and put and commit
    and t_inv :: "'t \<Rightarrow> bool" and present :: "'t \<Rightarrow> nat set"
    and add_front :: "nat \<Rightarrow> nat \<Rightarrow> 't \<Rightarrow> (('e + nat) \<times> 't) option"
begin

definition coherent :: "(nat \<Rightarrow> 'a) \<Rightarrow> 't \<Rightarrow> 'q \<Rightarrow> bool" where
  "coherent s t q \<longleftrightarrow> invar q \<and> t_inv t \<and> (\<forall>i\<in>present t. i < length (free q) \<and> free q ! i = s i)"

lemma reassemble_coherent:
  assumes c: "coherent s t q" and fits: "off + length data \<le> length (free q)"
    and data: "\<forall>j<length data. data ! j = s (off + j)"
  obtains (err) e where "reassemble add_front put commit off data t q = Some (Inl e, t, q)" and "0 < off"
  | (ok) m t' q' where "reassemble add_front put commit off data t q = Some (Inr m, t', q')"
      and "coherent (\<lambda>i. s (m + i)) t' q'" and "contents q' = contents q @ map s [0..<m]"
      and "capacity q' = capacity q" and "front_run (present t \<union> {off ..< off + length data}) m"
proof -
  have invs: "invar q" "t_inv t" using c by (auto simp: coherent_def)
  obtain q1 where q1: "put off data q = (length data, q1)" "invar q1" "capacity q1 = capacity q"
    "contents q1 = contents q" "free q1 = blit off data (free q)"
    using put_law [OF invs(1) fits] by auto
  define P where "P = present t \<union> {off ..< off + length data}"
  have P: "i < length (free q1) \<and> free q1 ! i = s i" if "i \<in> P" for i
    using that c fits data by (auto simp: P_def q1(5) nth_blit coherent_def)
  consider e where "add_front off (length data) t = Some (Inl e, t)" "0 < off"
    | m t' where "add_front off (length data) t = Some (Inr m, t')" "t_inv t'" "front_run P m" "present t' = shift_down m P"
    using add_law [OF invs(2), of off "length data"] by (auto simp: P_def)
  then show thesis
  proof cases
    case 1
    then show thesis using err by (simp add: reassemble_def)
  next
    case 2
    have "{0 ..< m} \<subseteq> P" using 2(3) by (simp add: front_run_def)
    then have prefix: "\<forall>i<m. i < length (free q1) \<and> free q1 ! i = s i" using P by auto
    then have m: "m \<le> length (free q1)" by (metis gr_implies_not0 lessI less_imp_le_nat linorder_not_le order_less_le_trans not_less_eq)
    obtain q2 where q2: "commit m q1 = Some q2" "invar q2" "capacity q2 = capacity q1"
      "contents q2 = contents q1 @ take m (free q1)" "free q2 = drop m (free q1)"
      using commit_law [OF q1(2) m] by blast
    have take: "take m (free q1) = map s [0..<m]"
      using prefix m by (intro nth_equalityI) auto
    define q' where "q' = (if m \<noteq> 0 then q2 else q1)"
    have call: "reassemble add_front put commit off data t q = Some (Inr m, t', q')"
      using 2(1) q1(1) q2(1) by (simp add: reassemble_def q'_def)
    have q': "invar q'" "contents q' = contents q @ map s [0..<m]" "free q' = drop m (free q1)"
      "capacity q' = capacity q"
      using q1 q2 take by (auto simp: q'_def)
    have "coherent (\<lambda>i. s (m + i)) t' q'"
      unfolding coherent_def using q' 2(2,4) P m by (auto simp: shift_down_def less_diff_conv add.commute)
    then show thesis using ok call q' 2(3) by (simp add: P_def)
  qed
qed

lemma coherent_read:
  assumes "coherent s t q"
  shows "\<exists>n buf' q'. deq buf q = Some (n, buf', q') \<and> coherent s t q'
     \<and> capacity q' = capacity q \<and> take n buf' @ contents q' = contents q"
proof -
  have inv: "invar q" using assms by (simp add: coherent_def)
  obtain q' where q': "deq buf q = Some (min (length (contents q)) (length buf),
          take (length buf) (contents q) @ drop (length (contents q)) buf, q')"
    "invar q'" "capacity q' = capacity q" "contents q' = drop (length buf) (contents q)"
    using deq_law [OF inv] by blast
  have "coherent s t q'"
    using assms q'(2) deq_free [OF inv q'(1)] by (auto simp: coherent_def nth_append)
  then show ?thesis using q' by (auto simp: min_def)
qed

lemma rx_run_delivers:
  assumes "coherent (\<lambda>i. s (rcvd + i)) t q"
    and "\<forall>pos data. Arrive pos data \<in> set ops \<longrightarrow> (\<forall>j<length data. data ! j = s (pos + j))"
  shows "\<exists>out rcvd' t' q'.
       rx_run add_front put commit deq (\<lambda>q. length (free q)) ops rcvd t q = Some (out, rcvd', t', q')
     \<and> rcvd \<le> rcvd' \<and> coherent (\<lambda>i. s (rcvd' + i)) t' q'
     \<and> contents q @ map s [rcvd..<rcvd'] = out @ contents q'"
  using assms
proof (induction ops arbitrary: rcvd t q)
  case (Cons op ops)
  have later: "\<forall>pos data. Arrive pos data \<in> set ops \<longrightarrow> (\<forall>j<length data. data ! j = s (pos + j))"
    using Cons.prems(2) by simp
  show ?case
  proof (cases op)
    case (Arrive pos data)
    show ?thesis
    proof (cases "rcvd \<le> pos \<and> pos + length data \<le> rcvd + length (free q)")
      case True
      then have fits: "(pos - rcvd) + length data \<le> length (free q)" by linarith
      have data: "\<forall>j<length data. data ! j = s (rcvd + ((pos - rcvd) + j))"
        using Cons.prems(2) Arrive True by simp
      show ?thesis
      proof (rule reassemble_coherent [OF Cons.prems(1) fits data])
        fix e
        assume "reassemble add_front put commit (pos - rcvd) data t q = Some (Inl e, t, q)"
        then show ?thesis using Cons.IH [OF Cons.prems(1) later] True Arrive by simp
      next
        fix m t' q'
        assume step: "reassemble add_front put commit (pos - rcvd) data t q = Some (Inr m, t', q')"
          and c: "coherent (\<lambda>i. s (rcvd + (m + i))) t' q'"
          and cont: "contents q' = contents q @ map (\<lambda>i. s (rcvd + i)) [0..<m]"
        obtain out rcvd' t2 q2 where IH:
          "rx_run add_front put commit deq (\<lambda>q. length (free q)) ops (rcvd + m) t' q' = Some (out, rcvd', t2, q2)"
          "rcvd + m \<le> rcvd'" "coherent (\<lambda>i. s (rcvd' + i)) t2 q2"
          "contents q' @ map s [rcvd + m..<rcvd'] = out @ contents q2"
          using Cons.IH [of "rcvd + m" t' q'] c later by (auto simp: add.assoc)
        have "map (\<lambda>i. s (rcvd + i)) [0..<m] = map s [rcvd..<rcvd + m]"
          by (rule nth_equalityI) auto
        moreover have "[rcvd..<rcvd'] = [rcvd..<rcvd + m] @ [rcvd + m..<rcvd']"
          using IH(2) by (metis le_add1 le_add_diff_inverse upt_add_eq_append)
        ultimately show ?thesis
          using IH step cont True Arrive by auto
      qed
    next
      case False
      then show ?thesis using Cons.IH [OF Cons.prems(1) later] Arrive by (auto simp del: not_le)
    qed
  next
    case (Read buf)
    obtain n buf' q' where r: "deq buf q = Some (n, buf', q')" "coherent (\<lambda>i. s (rcvd + i)) t q'"
      "take n buf' @ contents q' = contents q"
      using coherent_read [OF Cons.prems(1)] by blast
    obtain out rcvd' t2 q2 where
      "rx_run add_front put commit deq (\<lambda>q. length (free q)) ops rcvd t q' = Some (out, rcvd', t2, q2)"
      "rcvd \<le> rcvd'" "coherent (\<lambda>i. s (rcvd' + i)) t2 q2"
      "contents q' @ map s [rcvd..<rcvd'] = out @ contents q2"
      using Cons.IH [OF r(2) later] by blast
    then show ?thesis
      using r Read by (auto simp: r(3) [symmetric])
  qed
qed simp

end

section \<open>A queue of datagrams\<close>

text \<open>
  What the datagram sockets ask of a packet buffer: a datagram, with its header, is accepted whole or refused,
  and the datagrams come out whole, in order, once.
\<close>

datatype ('h, 'a) d_op = Put 'h "'a list" | Take

fun d_run :: "('h \<Rightarrow> 'a list \<Rightarrow> 'q \<Rightarrow> (bool \<times> 'q) option) \<Rightarrow> ('q \<Rightarrow> (('h \<times> 'a list) option \<times> 'q) option) \<Rightarrow>
    ('h, 'a) d_op list \<Rightarrow> 'q \<Rightarrow> (('h \<times> 'a list) list \<times> ('h \<times> 'a list) list \<times> 'q) option" where
  "d_run put get [] q = Some ([], [], q)"
| "d_run put get (Put h data # ops) q =
     do { (ok, q) \<leftarrow> put h data q; (acc, out, q) \<leftarrow> d_run put get ops q;
          Some ((if ok then [(h, data)] else []) @ acc, out, q) }"
| "d_run put get (Take # ops) q =
     do { (p, q) \<leftarrow> get q; (acc, out, q) \<leftarrow> d_run put get ops q;
          Some (acc, (case p of Some p \<Rightarrow> [p] | None \<Rightarrow> []) @ out, q) }"

locale datagram_queue =
  fixes d_invar :: "'q \<Rightarrow> bool" and packets :: "'q \<Rightarrow> ('h \<times> 'a list) list"
    and put :: "'h \<Rightarrow> 'a list \<Rightarrow> 'q \<Rightarrow> (bool \<times> 'q) option"
    and get :: "'q \<Rightarrow> (('h \<times> 'a list) option \<times> 'q) option"
  assumes put_law: "d_invar q \<Longrightarrow> \<exists>ok q'. put h data q = Some (ok, q') \<and> d_invar q'
        \<and> packets q' = packets q @ (if ok then [(h, data)] else [])"
    and get_law: "d_invar q \<Longrightarrow> \<exists>q'. get q = Some (case packets q of [] \<Rightarrow> None | p # _ \<Rightarrow> Some p, q')
        \<and> d_invar q' \<and> packets q' = tl (packets q)"
begin

lemma d_run_fifo:
  "d_invar q \<Longrightarrow> \<exists>acc out q'. d_run put get ops q = Some (acc, out, q') \<and> d_invar q'
     \<and> packets q @ acc = out @ packets q'"
proof (induction ops arbitrary: q)
  case (Cons op ops)
  show ?case
  proof (cases op)
    case (Put h data)
    obtain ok q1 where q1: "put h data q = Some (ok, q1)" "d_invar q1"
      "packets q1 = packets q @ (if ok then [(h, data)] else [])"
      using put_law [OF Cons.prems] by blast
    with Cons.IH [OF q1(2)] Put show ?thesis by auto
  next
    case Take
    obtain q1 where q1: "get q = Some (case packets q of [] \<Rightarrow> None | p # _ \<Rightarrow> Some p, q1)" "d_invar q1"
      "packets q1 = tl (packets q)"
      using get_law [OF Cons.prems] by blast
    with Cons.IH [OF q1(2)] Take show ?thesis by (cases "packets q") auto
  qed
qed simp

end

end
