(* ===== verification/Ring_Buffer.thy ===== *)
theory Ring_Buffer
  imports Storage_Interfaces
begin

text \<open>
  The ring buffer of \<^verbatim>\<open>src/storage/ring_buffer.rs\<close>: its three fields, the discrete, the
  continuous and the random access interface, each operation with the branches of the code.
  A reference into the storage is the index (or the range of indices) it points to. A closure
  \<open>FnOnce(&mut [T]) -> (usize, R)\<close> is a function from the slice to the slice it leaves behind, the
  size and the result; \<open>keeps_length\<close> says that it cannot resize the slice.

  The buffer is specified by the list of its allocated elements (\<open>rb_contents\<close>) and by the list
  of its free slots in the order in which they will be used (\<open>rb_free\<close>).
\<close>

section \<open>Model\<close>

record 'a ring_buffer =
  rb_storage :: "'a list"
  rb_read_at :: nat
  rb_length :: nat

datatype full_error = Full
datatype empty_error = Empty

definition rb_new :: "'a list \<Rightarrow> 'a ring_buffer" where
  "rb_new storage = \<lparr>rb_storage = storage, rb_read_at = 0, rb_length = 0\<rparr>"

definition rb_clear :: "'a ring_buffer \<Rightarrow> 'a ring_buffer" where
  "rb_clear rb = rb\<lparr>rb_read_at := 0, rb_length := 0\<rparr>"

definition rb_capacity :: "'a ring_buffer \<Rightarrow> nat" where
  "rb_capacity rb = length (rb_storage rb)"

definition rb_reset :: "('a \<Rightarrow> 'a) \<Rightarrow> 'a ring_buffer \<Rightarrow> 'a ring_buffer" where
  "rb_reset elem_reset rb =
     (let rb = rb_clear rb in rb\<lparr>rb_storage := map elem_reset (rb_storage rb)\<rparr>)"

definition rb_len :: "'a ring_buffer \<Rightarrow> nat" where
  "rb_len rb = rb_length rb"

definition rb_window :: "'a ring_buffer \<Rightarrow> nat" where
  "rb_window rb = rb_capacity rb - rb_len rb"

definition rb_get_idx :: "'a ring_buffer \<Rightarrow> nat \<Rightarrow> nat" where
  "rb_get_idx rb idx =
     (let len = rb_capacity rb in if len > 0 then (rb_read_at rb + idx) mod len else 0)"

definition rb_get_idx_unchecked :: "'a ring_buffer \<Rightarrow> nat \<Rightarrow> nat" where
  "rb_get_idx_unchecked rb idx = (rb_read_at rb + idx) mod rb_capacity rb"

definition rb_contiguous_window :: "'a ring_buffer \<Rightarrow> nat" where
  "rb_contiguous_window rb = min (rb_window rb) (rb_capacity rb - rb_get_idx rb (rb_length rb))"

definition rb_is_empty :: "'a ring_buffer \<Rightarrow> bool" where
  "rb_is_empty rb \<longleftrightarrow> rb_len rb = 0"

definition rb_is_full :: "'a ring_buffer \<Rightarrow> bool" where
  "rb_is_full rb \<longleftrightarrow> rb_window rb = 0"

subsection \<open>The discrete interface\<close>

definition rb_enqueue_one_with ::
  "('a \<Rightarrow> 'a \<times> ('e + 'r)) \<Rightarrow> 'a ring_buffer \<Rightarrow> (full_error + ('e + 'r)) \<times> 'a ring_buffer" where
  "rb_enqueue_one_with f rb =
     (if rb_is_full rb then (Inl Full, rb)
      else let index = rb_get_idx_unchecked rb (rb_length rb);
               (elem, res) = f (rb_storage rb ! index);
               rb = rb\<lparr>rb_storage := (rb_storage rb)[index := elem]\<rparr>
           in case res of
                Inr _ \<Rightarrow> (Inr res, rb\<lparr>rb_length := rb_length rb + 1\<rparr>)
              | Inl _ \<Rightarrow> (Inr res, rb))"

text \<open>\<open>enqueue_one()\<close> returns a reference to the new element, here its index in the storage.\<close>

definition rb_enqueue_one :: "'a ring_buffer \<Rightarrow> (full_error + nat) \<times> 'a ring_buffer" where
  "rb_enqueue_one rb =
     (if rb_is_full rb then (Inl Full, rb)
      else (Inr (rb_get_idx_unchecked rb (rb_length rb)), rb\<lparr>rb_length := rb_length rb + 1\<rparr>))"

definition rb_dequeue_one_with ::
  "('a \<Rightarrow> 'a \<times> ('e + 'r)) \<Rightarrow> 'a ring_buffer \<Rightarrow> (empty_error + ('e + 'r)) \<times> 'a ring_buffer" where
  "rb_dequeue_one_with f rb =
     (if rb_is_empty rb then (Inl Empty, rb)
      else let next_at = rb_get_idx_unchecked rb 1;
               (elem, res) = f (rb_storage rb ! rb_read_at rb);
               rb = rb\<lparr>rb_storage := (rb_storage rb)[rb_read_at rb := elem]\<rparr>
           in case res of
                Inr _ \<Rightarrow> (Inr res, rb\<lparr>rb_length := rb_length rb - 1, rb_read_at := next_at\<rparr>)
              | Inl _ \<Rightarrow> (Inr res, rb))"

definition rb_dequeue_one :: "'a ring_buffer \<Rightarrow> (empty_error + nat) \<times> 'a ring_buffer" where
  "rb_dequeue_one rb =
     (if rb_is_empty rb then (Inl Empty, rb)
      else (Inr (rb_read_at rb),
            rb\<lparr>rb_length := rb_length rb - 1, rb_read_at := rb_get_idx_unchecked rb 1\<rparr>))"

subsection \<open>The continuous interface\<close>

definition rb_enqueue_many_with ::
  "('a list \<Rightarrow> 'a list \<times> nat \<times> 'r) \<Rightarrow> 'a ring_buffer \<Rightarrow> ((nat \<times> 'r) \<times> 'a ring_buffer) option" where
  "rb_enqueue_many_with f rb =
     (let rb = (if rb_length rb = 0 then rb\<lparr>rb_read_at := 0\<rparr> else rb);
          write_at = rb_get_idx rb (rb_length rb);
          max_size = rb_contiguous_window rb;
          (buf, size, result) = f (sub_slice write_at max_size (rb_storage rb));
          rb = rb\<lparr>rb_storage := blit write_at buf (rb_storage rb)\<rparr>
      in do { rust_assert (size \<le> max_size);
              Some ((size, result), rb\<lparr>rb_length := rb_length rb + size\<rparr>) })"

text \<open>
  The references that \<open>enqueue_many\<close> and \<open>dequeue_many\<close> return are ranges of the storage,
  given by their first index and their length.
\<close>

definition rb_enqueue_many :: "nat \<Rightarrow> 'a ring_buffer \<Rightarrow> ((nat \<times> nat) \<times> 'a ring_buffer) option" where
  "rb_enqueue_many req_size rb =
     (let at = rb_get_idx (if rb_length rb = 0 then rb\<lparr>rb_read_at := 0\<rparr> else rb) (rb_length rb)
      in do { ((n, _), rb) \<leftarrow>
                rb_enqueue_many_with (\<lambda>buf. (buf, min req_size (length buf), ())) rb;
              Some ((at, n), rb) })"

definition rb_enqueue_slice :: "'a list \<Rightarrow> 'a ring_buffer \<Rightarrow> (nat \<times> 'a ring_buffer) option" where
  "rb_enqueue_slice data rb =
     do { ((size_1, data), rb) \<leftarrow> rb_enqueue_many_with
            (\<lambda>buf. let size = min (length buf) (length data)
                   in (blit 0 (take size data) buf, size, drop size data)) rb;
          ((size_2, _), rb) \<leftarrow> rb_enqueue_many_with
            (\<lambda>buf. let size = min (length buf) (length data)
                   in (blit 0 (take size data) buf, size, ())) rb;
          Some (size_1 + size_2, rb) }"

definition rb_dequeue_many_with ::
  "('a list \<Rightarrow> 'a list \<times> nat \<times> 'r) \<Rightarrow> 'a ring_buffer \<Rightarrow> ((nat \<times> 'r) \<times> 'a ring_buffer) option" where
  "rb_dequeue_many_with f rb =
     (let capacity = rb_capacity rb;
          max_size = min (rb_len rb) (capacity - rb_read_at rb);
          (buf, size, result) = f (sub_slice (rb_read_at rb) max_size (rb_storage rb));
          rb = rb\<lparr>rb_storage := blit (rb_read_at rb) buf (rb_storage rb)\<rparr>
      in do { rust_assert (size \<le> max_size);
              let read_at = (if capacity > 0 then (rb_read_at rb + size) mod capacity else 0);
              Some ((size, result), rb\<lparr>rb_read_at := read_at, rb_length := rb_length rb - size\<rparr>) })"

definition rb_dequeue_many :: "nat \<Rightarrow> 'a ring_buffer \<Rightarrow> ((nat \<times> nat) \<times> 'a ring_buffer) option" where
  "rb_dequeue_many req_size rb =
     (let at = rb_read_at rb
      in do { ((n, _), rb) \<leftarrow>
                rb_dequeue_many_with (\<lambda>buf. (buf, min req_size (length buf), ())) rb;
              Some ((at, n), rb) })"

text \<open>
  \<open>dequeue_slice(data)\<close> fills the caller's slice; the model returns the amount, the slice
  after the call and the buffer.
\<close>

definition rb_dequeue_slice :: "'a list \<Rightarrow> 'a ring_buffer \<Rightarrow> (nat \<times> 'a list \<times> 'a ring_buffer) option" where
  "rb_dequeue_slice data rb =
     do { ((size_1, (done_1, data)), rb) \<leftarrow> rb_dequeue_many_with
            (\<lambda>buf. let size = min (length buf) (length data)
                   in (buf, size, (take size buf, drop size data))) rb;
          ((size_2, (done_2, data)), rb) \<leftarrow> rb_dequeue_many_with
            (\<lambda>buf. let size = min (length buf) (length data)
                   in (buf, size, (take size buf, drop size data))) rb;
          Some (size_1 + size_2, done_1 @ done_2 @ data, rb) }"

subsection \<open>The random access interface\<close>

definition rb_get_unallocated :: "'a ring_buffer \<Rightarrow> nat \<Rightarrow> nat \<Rightarrow> nat \<times> nat" where
  "rb_get_unallocated rb offset req_size =
     (let start_at = rb_get_idx rb (rb_length rb + offset)
      in if offset > rb_window rb then (0, 0)
         else let clamped_window = rb_window rb - offset;
                  size = (if req_size > clamped_window then clamped_window else req_size);
                  until_end = rb_capacity rb - start_at;
                  size = (if size > until_end then until_end else size)
              in (start_at, size))"

definition rb_write_unallocated :: "nat \<Rightarrow> 'a list \<Rightarrow> 'a ring_buffer \<Rightarrow> nat \<times> 'a ring_buffer" where
  "rb_write_unallocated offset data rb =
     (let (at_1, size_1) = rb_get_unallocated rb offset (length data);
          rb = rb\<lparr>rb_storage := blit at_1 (take size_1 data) (rb_storage rb)\<rparr>;
          offset = offset + size_1;
          data = drop size_1 data;
          (at_2, size_2) = rb_get_unallocated rb offset (length data);
          rb = rb\<lparr>rb_storage := blit at_2 (take size_2 data) (rb_storage rb)\<rparr>
      in (size_1 + size_2, rb))"

definition rb_enqueue_unallocated :: "nat \<Rightarrow> 'a ring_buffer \<Rightarrow> 'a ring_buffer option" where
  "rb_enqueue_unallocated count rb =
     do { rust_assert (count \<le> rb_window rb);
          Some (rb\<lparr>rb_length := rb_length rb + count\<rparr>) }"

definition rb_get_allocated :: "'a ring_buffer \<Rightarrow> nat \<Rightarrow> nat \<Rightarrow> 'a list" where
  "rb_get_allocated rb offset req_size =
     (let start_at = rb_get_idx rb offset
      in if offset > rb_length rb then []
         else let clamped_length = rb_length rb - offset;
                  size = (if req_size > clamped_length then clamped_length else req_size);
                  until_end = rb_capacity rb - start_at;
                  size = (if size > until_end then until_end else size)
              in sub_slice start_at size (rb_storage rb))"

definition rb_read_allocated :: "nat \<Rightarrow> 'a list \<Rightarrow> 'a ring_buffer \<Rightarrow> nat \<times> 'a list" where
  "rb_read_allocated offset data rb =
     (let slice_1 = rb_get_allocated rb offset (length data);
          offset = offset + length slice_1;
          data = drop (length slice_1) data;
          slice_2 = rb_get_allocated rb offset (length data);
          data = drop (length slice_2) data
      in (length slice_1 + length slice_2, slice_1 @ slice_2 @ data))"

definition rb_dequeue_allocated :: "nat \<Rightarrow> 'a ring_buffer \<Rightarrow> 'a ring_buffer option" where
  "rb_dequeue_allocated count rb =
     do { rust_assert (count \<le> rb_len rb);
          let rb' = rb\<lparr>rb_length := rb_length rb - count\<rparr>;
          Some (rb'\<lparr>rb_read_at := rb_get_idx rb' count\<rparr>) }"


section \<open>Specification: the allocated elements and the free slots\<close>

definition rb_inv :: "'a ring_buffer \<Rightarrow> bool" where
  "rb_inv rb \<longleftrightarrow> rb_length rb \<le> rb_capacity rb \<and>
     (if rb_capacity rb = 0 then rb_read_at rb = 0 else rb_read_at rb < rb_capacity rb)"

definition rb_view :: "'a ring_buffer \<Rightarrow> 'a list" where
  "rb_view rb = rotate (rb_read_at rb) (rb_storage rb)"

definition rb_contents :: "'a ring_buffer \<Rightarrow> 'a list" where
  "rb_contents rb = take (rb_length rb) (rb_view rb)"

definition rb_free :: "'a ring_buffer \<Rightarrow> 'a list" where
  "rb_free rb = drop (rb_length rb) (rb_view rb)"

definition keeps_length :: "('a list \<Rightarrow> 'a list \<times> nat \<times> 'r) \<Rightarrow> bool" where
  "keeps_length f \<longleftrightarrow> (\<forall>buf. length (fst (f buf)) = length buf)"

lemmas [rb_defs] = rb_len_def rb_window_def rb_get_idx_def
  rb_get_idx_unchecked_def rb_contiguous_window_def rb_is_empty_def rb_is_full_def

section \<open>Facts about the view\<close>

lemma length_rb_storage [simp]: "length (rb_storage rb) = rb_capacity rb"
  by (simp add: rb_capacity_def)

lemma rb_capacity_updates [simp]:
  "rb_capacity (rb\<lparr>rb_length := n\<rparr>) = rb_capacity rb"
  "rb_capacity (rb\<lparr>rb_read_at := r\<rparr>) = rb_capacity rb"
  "rb_capacity (rb\<lparr>rb_storage := xs\<rparr>) = length xs"
  by (simp_all add: rb_capacity_def del: length_rb_storage)

lemma rb_contents_free: "rb_contents rb @ rb_free rb = rb_view rb"
  by (simp add: rb_contents_def rb_free_def)

lemma length_rb_view [simp]: "length (rb_view rb) = rb_capacity rb"
  by (simp add: rb_view_def)

lemma length_rb_contents [simp]: "rb_inv rb \<Longrightarrow> length (rb_contents rb) = rb_length rb"
  by (simp add: rb_contents_def rb_inv_def)

lemma rb_length_window: "rb_inv rb \<Longrightarrow> rb_length rb + rb_window rb = rb_capacity rb"
  by (simp add: rb_inv_def rb_window_def rb_len_def)

lemma length_rb_free [simp]: "length (rb_free rb) = rb_window rb"
  by (simp add: rb_free_def rb_defs)

lemma nth_rb_view:
  "j < rb_capacity rb \<Longrightarrow> rb_view rb ! j = rb_storage rb ! ((rb_read_at rb + j) mod rb_capacity rb)"
  by (simp add: rb_view_def nth_rotate)

lemma rb_view_blit:
  assumes "rb_inv rb" and "off + length xs \<le> rb_capacity rb"
    and "at = rb_get_idx rb off" and "at + length xs \<le> rb_capacity rb"
  shows "rb_view (rb\<lparr>rb_storage := blit at xs (rb_storage rb)\<rparr>) = blit off xs (rb_view rb)"
proof (cases "xs = []")
  case True
  then show ?thesis by simp
next
  case False
  let ?rb = "rb\<lparr>rb_storage := blit at xs (rb_storage rb)\<rparr>"
  have n: "0 < length xs" using False by simp
  have cap: "rb_capacity ?rb = rb_capacity rb"
    using assms(4) by simp
  show ?thesis
  proof (rule nth_equalityI)
    show "length (rb_view ?rb) = length (blit off xs (rb_view rb))"
      using assms(2) cap by simp
  next
    fix j assume "j < length (rb_view ?rb)"
    then have j: "j < rb_capacity rb" using cap by simp
    let ?p = "(rb_read_at rb + j) mod rb_capacity rb"
    have p: "?p < rb_capacity rb" using j by simp
    have r: "rb_read_at rb < rb_capacity rb"
      using assms(1) j by (simp add: rb_inv_def split: if_splits)
    have at: "at = (rb_read_at rb + off) mod rb_capacity rb"
      using assms(3) j by (simp add: rb_get_idx_def)
    have "rb_view ?rb ! j = blit at xs (rb_storage rb) ! ?p"
      using j cap by (simp add: nth_rb_view)
    also have "\<dots> = (if at \<le> ?p \<and> ?p < at + length xs then xs ! (?p - at) else rb_storage rb ! ?p)"
      using assms(4) p by (simp add: nth_blit)
    also have "\<dots> = (if off \<le> j \<and> j < off + length xs then xs ! (j - off) else rb_view rb ! j)"
      using r j n assms(2,4) unfolding at
      by (auto simp: mod_add_once nth_rb_view split: if_splits)
    also have "\<dots> = blit off xs (rb_view rb) ! j"
      using assms(2) j by (simp add: nth_blit)
    finally show "rb_view ?rb ! j = blit off xs (rb_view rb) ! j" .
  qed
qed

lemma rb_view_advance:
  assumes "rb_inv rb" and "n \<le> rb_capacity rb"
  shows "rb_view (rb\<lparr>rb_read_at := (rb_read_at rb + n) mod rb_capacity rb\<rparr>)
           = drop n (rb_view rb) @ take n (rb_view rb)"
proof -
  have "rotate ((rb_read_at rb + n) mod rb_capacity rb) (rb_storage rb)
      = rotate (n + rb_read_at rb) (rb_storage rb)"
    by (metis add.commute length_rb_storage rotate_conv_mod)
  also have "\<dots> = rotate n (rb_view rb)"
    by (simp add: rb_view_def rotate_rotate)
  also have "\<dots> = drop n (rb_view rb) @ take n (rb_view rb)"
    using assms(2) by (simp add: rotate_le)
  finally show ?thesis by (simp add: rb_view_def)
qed

lemma rb_view_length_update [simp]: "rb_view (rb\<lparr>rb_length := n\<rparr>) = rb_view rb"
  by (simp add: rb_view_def)

section \<open>The continuous interface\<close>

text \<open>\<open>enqueue_many_with\<close> first moves the read position of an empty ring to the start.\<close>

definition rb_norm :: "'a ring_buffer \<Rightarrow> 'a ring_buffer" where
  "rb_norm rb = (if rb_length rb = 0 then rb\<lparr>rb_read_at := 0\<rparr> else rb)"

lemma rb_norm_simps [simp]:
  "rb_capacity (rb_norm rb) = rb_capacity rb"
  "rb_length (rb_norm rb) = rb_length rb"
  "rb_storage (rb_norm rb) = rb_storage rb"
  "rb_window (rb_norm rb) = rb_window rb"
  "rb_contents (rb_norm rb) = rb_contents rb"
  "rb_inv rb \<Longrightarrow> rb_inv (rb_norm rb)"
  by (auto simp: rb_norm_def rb_defs rb_contents_def rb_inv_def)

lemma rb_contiguous_window_le:
  assumes "rb_inv rb"
  shows "rb_length rb + rb_contiguous_window rb \<le> rb_capacity rb"
    and "rb_get_idx rb (rb_length rb) + rb_contiguous_window rb \<le> rb_capacity rb"
proof -
  have "rb_get_idx rb (rb_length rb) \<le> rb_capacity rb"
    by (simp add: rb_get_idx_def Let_def)
  moreover have "rb_length rb \<le> rb_capacity rb"
    using assms by (simp add: rb_inv_def)
  ultimately show "rb_length rb + rb_contiguous_window rb \<le> rb_capacity rb"
    and "rb_get_idx rb (rb_length rb) + rb_contiguous_window rb \<le> rb_capacity rb"
    by (simp_all add: rb_contiguous_window_def rb_window_def rb_len_def)
qed

lemma rb_contiguous_slice:
  assumes "rb_inv rb" and "n \<le> rb_contiguous_window rb"
  shows "sub_slice (rb_get_idx rb (rb_length rb)) n (rb_storage rb) = take n (rb_free rb)"
proof (rule nth_equalityI)
  show "length (sub_slice (rb_get_idx rb (rb_length rb)) n (rb_storage rb)) = length (take n (rb_free rb))"
    using assms rb_contiguous_window_le [OF assms(1)] by (simp add: rb_window_def rb_len_def)
next
  fix j assume "j < length (sub_slice (rb_get_idx rb (rb_length rb)) n (rb_storage rb))"
  then have j: "j < n" by simp
  have le: "rb_length rb + j < rb_capacity rb" "rb_get_idx rb (rb_length rb) + j < rb_capacity rb"
    using j assms rb_contiguous_window_le [OF assms(1)] by linarith+
  have r: "rb_read_at rb < rb_capacity rb"
    using assms(1) le by (simp add: rb_inv_def split: if_splits)
  have idx: "rb_get_idx rb (rb_length rb) + j = (rb_read_at rb + (rb_length rb + j)) mod rb_capacity rb"
    using le r by (auto simp: rb_get_idx_def Let_def mod_add_once split: if_splits)
  show "sub_slice (rb_get_idx rb (rb_length rb)) n (rb_storage rb) ! j = take n (rb_free rb) ! j"
    using j le idx by (simp add: rb_free_def nth_rb_view)
qed

lemma rb_enqueue_many_with_eq:
  assumes "f (take (rb_contiguous_window (rb_norm rb)) (rb_free (rb_norm rb))) = (buf, n, res)"
    and "rb_inv rb" and "n \<le> rb_contiguous_window (rb_norm rb)"
  shows "rb_enqueue_many_with f rb = Some ((n, res), (rb_norm rb)
           \<lparr>rb_storage := blit (rb_get_idx (rb_norm rb) (rb_length rb)) buf (rb_storage rb),
            rb_length := rb_length rb + n\<rparr>)"
proof -
  have "sub_slice (rb_get_idx (rb_norm rb) (rb_length rb)) (rb_contiguous_window (rb_norm rb)) (rb_storage rb)
      = take (rb_contiguous_window (rb_norm rb)) (rb_free (rb_norm rb))"
    using rb_contiguous_slice [of "rb_norm rb"] assms(2) by simp
  then show ?thesis
    using assms by (simp add: rb_enqueue_many_with_def rb_norm_def [symmetric] Let_def)
qed

lemma rb_enqueue_many_with_panics:
  assumes "f (take (rb_contiguous_window (rb_norm rb)) (rb_free (rb_norm rb))) = (buf, n, res)"
    and "rb_inv rb" and "rb_contiguous_window (rb_norm rb) < n"
  shows "rb_enqueue_many_with f rb = None"
proof -
  have "sub_slice (rb_get_idx (rb_norm rb) (rb_length rb)) (rb_contiguous_window (rb_norm rb)) (rb_storage rb)
      = take (rb_contiguous_window (rb_norm rb)) (rb_free (rb_norm rb))"
    using rb_contiguous_slice [of "rb_norm rb"] assms(2) by simp
  then show ?thesis
    using assms by (simp add: rb_enqueue_many_with_def rb_norm_def [symmetric] Let_def)
qed

lemma rb_enqueue_at_end:
  fixes rb :: "'a ring_buffer"
  defines "rb' n buf \<equiv> (rb_norm rb)
           \<lparr>rb_storage := blit (rb_get_idx (rb_norm rb) (rb_length rb)) buf (rb_storage rb),
            rb_length := rb_length rb + n\<rparr>"
  assumes inv: "rb_inv rb" and len: "length buf = rb_contiguous_window (rb_norm rb)"
    and n: "n \<le> rb_contiguous_window (rb_norm rb)"
  shows "rb_inv (rb' n buf)" and "rb_capacity (rb' n buf) = rb_capacity rb"
    and "rb_contents (rb' n buf) = rb_contents rb @ take n buf"
    and "rb_free (rb' n buf) = drop n buf @ drop (length buf) (rb_free (rb_norm rb))"
proof -
  let ?rb = "rb_norm rb"
  have inv': "rb_inv ?rb" using inv by simp
  have le: "rb_length ?rb + length buf \<le> rb_capacity ?rb"
    and at: "rb_get_idx ?rb (rb_length ?rb) + length buf \<le> rb_capacity ?rb"
    using rb_contiguous_window_le [OF inv'] len by simp_all
  show cap: "rb_capacity (rb' n buf) = rb_capacity rb"
    using at by (simp add: rb'_def)
  show "rb_inv (rb' n buf)"
    using inv' n le len at by (auto simp: rb_inv_def rb'_def split: if_splits)
  have view: "rb_view (rb' n buf) = blit (rb_length rb) buf (rb_view ?rb)"
  proof -
    have "rb_view (?rb\<lparr>rb_storage := blit (rb_get_idx ?rb (rb_length rb)) buf (rb_storage ?rb)\<rparr>)
        = blit (rb_length rb) buf (rb_view ?rb)"
      by (rule rb_view_blit [OF inv']) (use le at in simp_all)
    then show ?thesis by (simp add: rb'_def rb_view_def)
  qed
  have "rb_length (rb' n buf) = rb_length rb + n" by (simp add: rb'_def)
  moreover have "rb_contents rb = take (rb_length rb) (rb_view ?rb)"
    by (metis rb_contents_def rb_norm_simps(2,5))
  ultimately show "rb_contents (rb' n buf) = rb_contents rb @ take n buf"
    and "rb_free (rb' n buf) = drop n buf @ drop (length buf) (rb_free ?rb)"
    using le len n by (simp_all add: rb_contents_def rb_free_def view blit_def add.commute)
qed


text \<open>The window that is left after the contiguous part has been filled is contiguous.\<close>

lemma rb_contiguous_window_refill:
  assumes "rb_inv rb" and "length st = rb_capacity rb"
  shows "rb_contiguous_window (rb_norm ((rb_norm rb)
           \<lparr>rb_storage := st, rb_length := rb_length rb + rb_contiguous_window (rb_norm rb)\<rparr>))
         = rb_window rb - rb_contiguous_window (rb_norm rb)"
proof (cases "rb_capacity rb = 0")
  case True
  then show ?thesis using assms(2) by (simp add: rb_contiguous_window_def rb_window_def)
next
  case False
  let ?n = "rb_norm rb"
  have r: "rb_read_at ?n < rb_capacity rb" and l: "rb_length rb \<le> rb_capacity rb"
    using assms False by (auto simp: rb_inv_def rb_norm_def)
  have cw: "rb_contiguous_window ?n = (if rb_read_at ?n + rb_length rb < rb_capacity rb
      then rb_capacity rb - (rb_read_at ?n + rb_length rb) else rb_capacity rb - rb_length rb)"
    using False r l by (auto simp: rb_defs Let_def mod_add_once min_def)
  show ?thesis
  proof (cases "rb_read_at ?n + rb_length rb < rb_capacity rb")
    case True
    then have "rb_length rb + rb_contiguous_window ?n = rb_capacity rb - rb_read_at ?n"
      using cw by simp
    then show ?thesis
      using True r l cw assms(2) by (simp add: rb_defs Let_def rb_norm_def [of "rb_norm rb \<lparr> rb_storage := st, rb_length := k \<rparr>" for k])
  next
    case False
    then have "rb_contiguous_window ?n = rb_window rb"
      using cw by (simp add: rb_window_def rb_len_def)
    moreover have "rb_length rb + rb_window rb = rb_capacity rb"
      using l by (simp add: rb_window_def rb_len_def)
    ultimately show ?thesis
      using assms(2) by (simp add: rb_contiguous_window_def) (simp add: rb_window_def rb_len_def)
  qed
qed

text \<open>The copying closure of \<open>enqueue_slice\<close>.\<close>

lemma rb_enqueue_many_with_copy:
  fixes rb :: "'a ring_buffer" and data :: "'a list"
  defines "n \<equiv> min (rb_contiguous_window (rb_norm rb)) (length data)"
  assumes inv: "rb_inv rb"
  obtains st where
    "rb_enqueue_many_with (\<lambda>buf. let size = min (length buf) (length data)
        in (blit 0 (take size data) buf, size, g size)) rb
      = Some ((n, g n), (rb_norm rb)\<lparr>rb_storage := st, rb_length := rb_length rb + n\<rparr>)"
    and "length st = rb_capacity rb"
    and "rb_inv ((rb_norm rb)\<lparr>rb_storage := st, rb_length := rb_length rb + n\<rparr>)"
    and "rb_contents ((rb_norm rb)\<lparr>rb_storage := st, rb_length := rb_length rb + n\<rparr>)
           = rb_contents rb @ take n data"
proof -
  let ?m = "rb_contiguous_window (rb_norm rb)"
  let ?free = "take ?m (rb_free (rb_norm rb))"
  let ?buf = "blit 0 (take n data) ?free"
  let ?st = "blit (rb_get_idx (rb_norm rb) (rb_length rb)) ?buf (rb_storage rb)"
  have m: "?m \<le> rb_window rb"
    by (simp add: rb_contiguous_window_def)
  then have lf: "length ?free = ?m" by simp
  have len: "length ?buf = ?m"
    using lf n_def by simp
  have take: "take n ?buf = take n data"
    using n_def lf by (simp add: take_blit_prefix)
  let ?f = "\<lambda>buf. let size = min (length buf) (length data)
        in (blit 0 (take size data) buf, size, g size)"
  have "?f ?free = (?buf, n, g n)"
    using lf by (simp add: n_def Let_def)
  then have "rb_enqueue_many_with ?f rb
      = Some ((n, g n), (rb_norm rb)\<lparr>rb_storage := ?st, rb_length := rb_length rb + n\<rparr>)"
    using inv by (rule rb_enqueue_many_with_eq) (simp add: n_def)
  moreover have "n \<le> ?m" by (simp add: n_def)
  note end_facts = rb_enqueue_at_end [OF inv len this]
  moreover have "length ?st = rb_capacity rb"
    using end_facts(2) by simp
  ultimately show ?thesis
    using that take by metis
qed

lemma rb_enqueue_slice_spec:
  assumes "rb_inv rb"
  shows "\<exists>rb'. rb_enqueue_slice data rb = Some (min (rb_window rb) (length data), rb')
     \<and> rb_inv rb' \<and> rb_capacity rb' = rb_capacity rb
     \<and> rb_contents rb' = rb_contents rb @ take (rb_window rb) data"
proof -
  let ?n = "rb_norm rb"
  let ?n1 = "min (rb_contiguous_window ?n) (length data)"
  let ?data = "drop ?n1 data"
  obtain st1 where
    call1: "rb_enqueue_many_with (\<lambda>buf. let size = min (length buf) (length data)
        in (blit 0 (take size data) buf, size, drop size data)) rb
      = Some ((?n1, ?data), ?n\<lparr>rb_storage := st1, rb_length := rb_length rb + ?n1\<rparr>)"
    and st1: "length st1 = rb_capacity rb"
    and inv1: "rb_inv (?n\<lparr>rb_storage := st1, rb_length := rb_length rb + ?n1\<rparr>)"
    and cont1: "rb_contents (?n\<lparr>rb_storage := st1, rb_length := rb_length rb + ?n1\<rparr>)
           = rb_contents rb @ take ?n1 data"
    by (rule rb_enqueue_many_with_copy [OF assms, where data = data and g = "\<lambda>size. drop size data"])
  let ?rb1 = "?n\<lparr>rb_storage := st1, rb_length := rb_length rb + ?n1\<rparr>"
  let ?n2 = "min (rb_contiguous_window (rb_norm ?rb1)) (length ?data)"
  obtain st2 where
    call2: "rb_enqueue_many_with (\<lambda>buf. let size = min (length buf) (length ?data)
        in (blit 0 (take size ?data) buf, size, ())) ?rb1
      = Some ((?n2, ()), (rb_norm ?rb1)\<lparr>rb_storage := st2, rb_length := rb_length ?rb1 + ?n2\<rparr>)"
    and st2: "length st2 = rb_capacity ?rb1"
    and inv2: "rb_inv ((rb_norm ?rb1)\<lparr>rb_storage := st2, rb_length := rb_length ?rb1 + ?n2\<rparr>)"
    and cont2: "rb_contents ((rb_norm ?rb1)\<lparr>rb_storage := st2, rb_length := rb_length ?rb1 + ?n2\<rparr>)
           = rb_contents ?rb1 @ take ?n2 ?data"
    by (rule rb_enqueue_many_with_copy [OF inv1, where data = ?data and g = "\<lambda>_. ()"])
  let ?rb2 = "(rb_norm ?rb1)\<lparr>rb_storage := st2, rb_length := rb_length ?rb1 + ?n2\<rparr>"
  have cw: "rb_contiguous_window ?n \<le> rb_window rb"
    by (simp add: rb_contiguous_window_def)
  have total: "?n1 + ?n2 = min (rb_window rb) (length data)"
  proof (cases "length data \<le> rb_contiguous_window ?n")
    case True
    then show ?thesis using cw by simp
  next
    case False
    then have n1: "?n1 = rb_contiguous_window ?n" by simp
    show ?thesis
      using rb_contiguous_window_refill [OF assms st1] cw False unfolding n1 by simp
  qed
  have call: "rb_enqueue_slice data rb = Some (?n1 + ?n2, ?rb2)"
    unfolding rb_enqueue_slice_def call1 bind.bind_lunit prod.case call2 by simp
  have "take ?n1 data @ take ?n2 ?data = take (?n1 + ?n2) data"
    by (simp add: take_add)
  also have "\<dots> = take (rb_window rb) data"
    unfolding total by (simp add: min_def)
  finally have "rb_contents ?rb2 = rb_contents rb @ take (rb_window rb) data"
    using cont1 cont2 by (simp del: take_append)
  moreover have "rb_capacity ?rb2 = rb_capacity rb"
    using st1 st2 by simp
  ultimately show ?thesis
    using call inv2 total by auto
qed


lemma rb_dequeue_slice_area:
  assumes "rb_inv rb" and "n \<le> min (rb_length rb) (rb_capacity rb - rb_read_at rb)"
  shows "sub_slice (rb_read_at rb) n (rb_storage rb) = take n (rb_contents rb)"
proof (rule nth_equalityI)
  show "length (sub_slice (rb_read_at rb) n (rb_storage rb)) = length (take n (rb_contents rb))"
    using assms by simp
next
  fix j assume "j < length (sub_slice (rb_read_at rb) n (rb_storage rb))"
  then have j: "j < n" by simp
  have "rb_read_at rb + j < rb_capacity rb"
    using j assms(2) by linarith
  then show "sub_slice (rb_read_at rb) n (rb_storage rb) ! j = take n (rb_contents rb) ! j"
    using assms j by (simp add: rb_contents_def nth_rb_view)
qed

lemma rb_dequeue_many_with_eq:
  fixes rb :: "'a ring_buffer"
  defines "m \<equiv> min (rb_length rb) (rb_capacity rb - rb_read_at rb)"
  assumes "f (take m (rb_contents rb)) = (buf, n, res)" and "rb_inv rb" and "n \<le> m" and "length buf = m"
  shows "rb_dequeue_many_with f rb = Some ((n, res), rb
           \<lparr>rb_storage := blit (rb_read_at rb) buf (rb_storage rb),
            rb_read_at := rb_get_idx rb n, rb_length := rb_length rb - n\<rparr>)"
proof -
  have "sub_slice (rb_read_at rb) m (rb_storage rb) = take m (rb_contents rb)"
    using assms(3) by (rule rb_dequeue_slice_area) (simp add: m_def)
  then show ?thesis
    using assms by (simp add: rb_dequeue_many_with_def Let_def rb_get_idx_def m_def rb_len_def)
qed

lemma rb_dequeue_at_front:
  fixes rb :: "'a ring_buffer"
  defines "m \<equiv> min (rb_length rb) (rb_capacity rb - rb_read_at rb)"
  defines "rb' n buf \<equiv> rb\<lparr>rb_storage := blit (rb_read_at rb) buf (rb_storage rb),
            rb_read_at := rb_get_idx rb n, rb_length := rb_length rb - n\<rparr>"
  assumes inv: "rb_inv rb" and len: "length buf = m" and n: "n \<le> m"
  shows "rb_inv (rb' n buf)" and "rb_capacity (rb' n buf) = rb_capacity rb"
    and "rb_contents (rb' n buf) = drop n buf @ drop m (rb_contents rb)"
    and "rb_free (rb' n buf) = rb_free rb @ take n buf"
proof -
  have at: "rb_read_at rb + length buf \<le> rb_capacity rb" "length buf \<le> rb_capacity rb"
    using inv len by (auto simp: m_def rb_inv_def split: if_splits)
  have nl: "n \<le> rb_length rb" and mc: "m \<le> rb_length rb" and lc: "rb_length rb \<le> rb_capacity rb"
    using n inv by (auto simp: m_def rb_inv_def)
  show cap: "rb_capacity (rb' n buf) = rb_capacity rb"
    using at by (simp add: rb'_def)
  show "rb_inv (rb' n buf)"
    using inv at nl by (auto simp: rb_inv_def rb'_def rb_get_idx_def Let_def split: if_splits)
  let ?rb1 = "rb\<lparr>rb_storage := blit (rb_read_at rb) buf (rb_storage rb)\<rparr>"
  have idx0: "rb_read_at rb = rb_get_idx rb 0"
    using inv by (auto simp: rb_inv_def rb_get_idx_def Let_def split: if_splits)
  have view1: "rb_view ?rb1 = blit 0 buf (rb_view rb)"
    by (rule rb_view_blit [OF inv]) (use idx0 at in simp_all)
  have inv1: "rb_inv ?rb1" using inv at by (simp add: rb_inv_def)
  have view2: "rb_view (rb' n buf) = drop n (rb_view ?rb1) @ take n (rb_view ?rb1)"
  proof (cases "rb_capacity rb = 0")
    case True
    then have "rb_storage rb = []" by (metis length_0_conv length_rb_storage)
    then show ?thesis
      using at True by (simp add: rb_view_def rb'_def)
  next
    case False
    have "n \<le> rb_capacity ?rb1" using nl lc at by simp
    then have "rb_view (?rb1\<lparr>rb_read_at := (rb_read_at ?rb1 + n) mod rb_capacity ?rb1\<rparr>)
        = drop n (rb_view ?rb1) @ take n (rb_view ?rb1)"
      by (rule rb_view_advance [OF inv1])
    moreover have "(rb_read_at ?rb1 + n) mod rb_capacity ?rb1 = rb_get_idx rb n"
      using False at by (simp add: rb_get_idx_def)
    ultimately show ?thesis
      by (simp add: rb'_def rb_view_def)
  qed
  have view: "rb_view (rb' n buf) = drop n buf @ drop m (rb_view rb) @ take n buf"
    using n len unfolding view2 view1 by (simp add: blit_def)
  have l': "rb_length (rb' n buf) = rb_length rb - n" by (simp add: rb'_def)
  show "rb_contents (rb' n buf) = drop n buf @ drop m (rb_contents rb)"
    and "rb_free (rb' n buf) = rb_free rb @ take n buf"
    using n len nl mc lc
    by (simp_all add: rb_contents_def rb_free_def l' view drop_take)
qed


text \<open>A closure that only reads the slice and asks for at most \<open>k\<close> elements.\<close>

lemma rb_dequeue_many_with_read:
  fixes rb :: "'a ring_buffer"
  defines "m \<equiv> min (rb_length rb) (rb_capacity rb - rb_read_at rb)"
  assumes inv: "rb_inv rb" and f: "\<And>buf. f buf = (buf, min (length buf) k, g buf (min (length buf) k))"
  obtains rb' where
    "rb_dequeue_many_with f rb = Some ((min m k, g (take m (rb_contents rb)) (min m k)), rb')"
    and "rb_inv rb'" and "rb_capacity rb' = rb_capacity rb"
    and "rb_contents rb' = drop (min m k) (rb_contents rb)"
    and "rb_free rb' = rb_free rb @ take (min m k) (rb_contents rb)"
    and "rb_read_at rb' = rb_get_idx rb (min m k)"
proof -
  let ?buf = "take m (rb_contents rb)"
  let ?rb' = "rb\<lparr>rb_storage := blit (rb_read_at rb) ?buf (rb_storage rb),
            rb_read_at := rb_get_idx rb (min m k), rb_length := rb_length rb - min m k\<rparr>"
  have len: "length ?buf = m"
    using inv by (simp add: m_def)
  have eq: "f ?buf = (?buf, min m k, g ?buf (min m k))"
    using f [of ?buf] len by simp
  have n: "min m k \<le> m" by simp
  note facts = rb_dequeue_at_front [OF inv len [unfolded m_def] n [unfolded m_def], folded m_def]
  have "rb_contents ?rb' = drop (min m k) (rb_contents rb)"
    using facts(3) drop_take_append [of "min m k" m "rb_contents rb"] by simp
  moreover have "rb_free ?rb' = rb_free rb @ take (min m k) (rb_contents rb)"
    using facts(4) by simp
  moreover have "rb_dequeue_many_with f rb = Some ((min m k, g ?buf (min m k)), ?rb')"
    using rb_dequeue_many_with_eq [where rb = rb and f = f, folded m_def, OF eq inv n len] .
  ultimately show ?thesis
    using that facts(1,2) by simp
qed


lemma rb_contiguous_length_refill:
  assumes "rb_inv rb" and "m = min (rb_length rb) (rb_capacity rb - rb_read_at rb)"
    and "rb_capacity rb' = rb_capacity rb" and "rb_read_at rb' = rb_get_idx rb m"
    and "rb_length rb' = rb_length rb - m"
  shows "min (rb_length rb') (rb_capacity rb' - rb_read_at rb') = rb_length rb - m"
proof (cases "rb_capacity rb - rb_read_at rb < rb_length rb")
  case True
  then have "rb_read_at rb < rb_capacity rb" and m: "m = rb_capacity rb - rb_read_at rb"
    using assms(1,2) by (auto simp: rb_inv_def split: if_splits)
  then have "rb_get_idx rb m = 0"
    by (simp add: rb_get_idx_def)
  moreover have "rb_length rb \<le> rb_capacity rb"
    using assms(1) by (simp add: rb_inv_def)
  ultimately show ?thesis
    using assms(3-5) m by simp
next
  case False
  then show ?thesis using assms(2,5) by simp
qed

lemma rb_dequeue_many_with_fill:
  assumes "rb_inv rb"
  obtains m rb' where "m \<le> rb_length rb" and "m \<le> length data"
    and "m = min (min (rb_length rb) (rb_capacity rb - rb_read_at rb)) (length data)"
    and "rb_dequeue_many_with (\<lambda>buf. let size = min (length buf) (length data)
           in (buf, size, (take size buf, drop size data))) rb
         = Some ((m, take m (rb_contents rb), drop m data), rb')"
    and "rb_inv rb'" and "rb_capacity rb' = rb_capacity rb"
    and "rb_contents rb' = drop m (rb_contents rb)"
    and "rb_free rb' = rb_free rb @ take m (rb_contents rb)"
    and "rb_read_at rb' = rb_get_idx rb m" and "rb_length rb' = rb_length rb - m"
proof -
  define f where "f = (\<lambda>buf::'a list. let size = min (length buf) (length data)
           in (buf, size, (take size buf, drop size data)))"
  define m1 where "m1 = min (rb_length rb) (rb_capacity rb - rb_read_at rb)"
  define m where "m = min m1 (length data)"
  have f: "\<And>buf. f buf = (buf, min (length buf) (length data),
      (\<lambda>buf n. (take n buf, drop n data)) buf (min (length buf) (length data)))"
    by (simp add: f_def Let_def)
  obtain rb' where
    call: "rb_dequeue_many_with f rb
         = Some ((m, (\<lambda>buf n. (take n buf, drop n data)) (take m1 (rb_contents rb)) m), rb')"
    and inv: "rb_inv rb'" and cap: "rb_capacity rb' = rb_capacity rb"
    and cont: "rb_contents rb' = drop m (rb_contents rb)"
    and free: "rb_free rb' = rb_free rb @ take m (rb_contents rb)"
    and read: "rb_read_at rb' = rb_get_idx rb m"
    by (rule rb_dequeue_many_with_read [where rb = rb and f = f and k = "length data"
          and g = "\<lambda>buf n. (take n buf, drop n data)", OF assms f, folded m1_def, folded m_def])
  have "take m (take m1 (rb_contents rb)) = take m (rb_contents rb)"
    by (simp add: m_def)
  then have call': "rb_dequeue_many_with f rb = Some ((m, take m (rb_contents rb), drop m data), rb')"
    using call by simp
  have len: "rb_length rb' = rb_length rb - m"
    using arg_cong [OF cont, of length] inv assms by simp
  show thesis
    by (rule that [OF _ _ m_def [unfolded m1_def] call' [unfolded f_def] inv cap cont free read len])
      (simp_all add: m_def m1_def)
qed

lemma rb_dequeue_slice_spec:
  assumes inv: "rb_inv rb"
  shows "\<exists>rb'. rb_dequeue_slice data rb
       = Some (min (rb_length rb) (length data),
               take (length data) (rb_contents rb) @ drop (rb_length rb) data, rb')
     \<and> rb_inv rb' \<and> rb_capacity rb' = rb_capacity rb
     \<and> rb_contents rb' = drop (length data) (rb_contents rb)
     \<and> rb_free rb' = rb_free rb @ take (length data) (rb_contents rb)"
proof -
  obtain m rb1 where m: "m \<le> rb_length rb" "m \<le> length data"
    "m = min (min (rb_length rb) (rb_capacity rb - rb_read_at rb)) (length data)"
    and call1: "rb_dequeue_many_with (\<lambda>buf. let size = min (length buf) (length data)
           in (buf, size, (take size buf, drop size data))) rb
         = Some ((m, take m (rb_contents rb), drop m data), rb1)"
    and rb1: "rb_inv rb1" "rb_capacity rb1 = rb_capacity rb"
      "rb_contents rb1 = drop m (rb_contents rb)" "rb_free rb1 = rb_free rb @ take m (rb_contents rb)"
      "rb_read_at rb1 = rb_get_idx rb m" "rb_length rb1 = rb_length rb - m"
    by (rule rb_dequeue_many_with_fill [OF inv, of data])
  obtain n rb2 where n: "n \<le> rb_length rb1" "n \<le> length (drop m data)"
    "n = min (min (rb_length rb1) (rb_capacity rb1 - rb_read_at rb1)) (length (drop m data))"
    and call2: "rb_dequeue_many_with (\<lambda>buf. let size = min (length buf) (length (drop m data))
           in (buf, size, (take size buf, drop size (drop m data)))) rb1
         = Some ((n, take n (rb_contents rb1), drop n (drop m data)), rb2)"
    and rb2: "rb_inv rb2" "rb_capacity rb2 = rb_capacity rb1"
      "rb_contents rb2 = drop n (rb_contents rb1)" "rb_free rb2 = rb_free rb1 @ take n (rb_contents rb1)"
    by (rule rb_dequeue_many_with_fill [OF rb1(1), of "drop m data"])
  have total: "m + n = min (rb_length rb) (length data)"
  proof (cases "m = min (rb_length rb) (rb_capacity rb - rb_read_at rb)")
    case True
    then have "n = min (rb_length rb - m) (length data - m)"
      using rb_contiguous_length_refill [OF inv True rb1(2,5,6)] n(3) by simp
    then show ?thesis using m(1,2) by linarith
  next
    case False
    then have "m = length data" using m(3) by linarith
    then show ?thesis using m(1) n(2) by simp
  qed
  have "rb_dequeue_slice data rb
      = Some (m + n, take (m + n) (rb_contents rb) @ drop (m + n) data, rb2)"
    unfolding rb_dequeue_slice_def call1 bind.bind_lunit prod.case call2
    using rb1(3) by (simp add: take_add add.commute)
  moreover have "rb_contents rb2 = drop (m + n) (rb_contents rb)"
    using rb2(3) rb1(3) by (simp add: add.commute)
  moreover have "rb_free rb2 = rb_free rb @ take (m + n) (rb_contents rb)"
    using rb2(4) rb1(3,4) by (simp add: take_add)
  moreover have "take (m + n) (rb_contents rb) = take (length data) (rb_contents rb)"
    and "drop (m + n) (rb_contents rb) = drop (length data) (rb_contents rb)"
    and "drop (m + n) data = drop (rb_length rb) data"
    using inv unfolding total by (auto simp: min_def)
  ultimately show ?thesis
    using rb1(2) rb2(1,2) total by auto
qed

section \<open>The random access interface\<close>

text \<open>
  Both \<open>get_unallocated\<close> and \<open>get_allocated\<close> clip a range \<open>off, off + n\<close> of the view at the end
  of the storage. \<open>until_end\<close> is the length that is left there; after the clipped part the
  range continues at index 0, so that two steps always cover it.
\<close>

definition until_end :: "'a ring_buffer \<Rightarrow> nat \<Rightarrow> nat" where
  "until_end rb off = rb_capacity rb - rb_get_idx rb off"

lemma rb_get_idx_bound: "rb_get_idx rb off + min n (until_end rb off) \<le> rb_capacity rb"
proof -
  have "rb_get_idx rb off \<le> rb_capacity rb"
    by (simp add: rb_get_idx_def Let_def)
  then show ?thesis by (simp add: until_end_def)
qed

lemma until_end_wrap:
  assumes "rb_inv rb" and "off + n \<le> rb_capacity rb" and "until_end rb off < n"
  shows "n - until_end rb off \<le> until_end rb (off + until_end rb off)"
proof -
  have r: "rb_read_at rb < rb_capacity rb"
    using assms by (auto simp: rb_inv_def split: if_splits)
  moreover have o: "off < rb_capacity rb" using assms(2,3) by linarith
  ultimately have "rb_get_idx rb (off + until_end rb off) = 0"
    by (auto simp: until_end_def rb_get_idx_def mod_add_once)
  then show ?thesis
    using assms(2) by (simp add: until_end_def)
qed

lemma sub_slice_view:
  assumes inv: "rb_inv rb" and "off + n \<le> rb_capacity rb" and "n \<le> until_end rb off"
  shows "sub_slice (rb_get_idx rb off) n (rb_storage rb) = take n (drop off (rb_view rb))"
proof (rule nth_equalityI)
  have le: "rb_get_idx rb off + n \<le> rb_capacity rb"
    using rb_get_idx_bound [of rb off n] assms(3) by simp
  then show "length (sub_slice (rb_get_idx rb off) n (rb_storage rb))
      = length (take n (drop off (rb_view rb)))"
    using assms(2) by simp
  fix j assume "j < length (sub_slice (rb_get_idx rb off) n (rb_storage rb))"
  then have j: "j < n" by simp
  then have r: "rb_read_at rb < rb_capacity rb"
    using inv assms(2) by (simp add: rb_inv_def split: if_splits)
  have "rb_get_idx rb off + j = (rb_read_at rb + (off + j)) mod rb_capacity rb"
    using j le r assms(2) by (auto simp: rb_get_idx_def Let_def mod_add_once split: if_splits)
  then show "sub_slice (rb_get_idx rb off) n (rb_storage rb) ! j = take n (drop off (rb_view rb)) ! j"
    using j le assms(2) by (simp add: nth_rb_view)
qed

lemma rb_get_allocated_eq:
  assumes "rb_inv rb"
  shows "rb_get_allocated rb off n
           = take (min n (until_end rb off)) (drop off (rb_contents rb))"
proof (cases "off \<le> rb_length rb")
  case True
  have cap: "rb_length rb \<le> rb_capacity rb" using assms by (simp add: rb_inv_def)
  let ?k = "min (min n (rb_length rb - off)) (until_end rb off)"
  have "rb_get_allocated rb off n = sub_slice (rb_get_idx rb off) ?k (rb_storage rb)"
    using True by (auto simp: rb_get_allocated_def Let_def until_end_def min_def)
  also have "\<dots> = take ?k (drop off (rb_view rb))"
    using assms cap True by (intro sub_slice_view) auto
  also have "\<dots> = take (min n (until_end rb off)) (drop off (rb_contents rb))"
    using True by (simp add: rb_contents_def drop_take min.commute min.left_commute)
  finally show ?thesis .
next
  case False
  then show ?thesis using assms by (simp add: rb_get_allocated_def)
qed

lemma rb_read_allocated_spec:
  assumes inv: "rb_inv rb"
  shows "rb_read_allocated off data rb
     = (min (rb_length rb - off) (length data),
        take (length data) (drop off (rb_contents rb)) @ drop (rb_length rb - off) data)"
proof -
  let ?c = "drop off (rb_contents rb)" and ?u = "until_end rb off"
  define l where "l = rb_length rb - off"
  have lc: "length ?c = l" using inv by (simp add: l_def)
  define s1 where "s1 = rb_get_allocated rb off (length data)"
  have s1: "s1 = take (min (length data) ?u) ?c"
    using rb_get_allocated_eq [OF inv] by (simp add: s1_def)
  define k where "k = length s1"
  have k: "k = min l (min (length data) ?u)" using s1 lc by (simp add: k_def)
  define s2 where "s2 = rb_get_allocated rb (off + k) (length data - k)"
  have s2: "s2 = take (min (length data - k) (until_end rb (off + k))) (drop k ?c)"
    using rb_get_allocated_eq [OF inv] by (simp add: s2_def add.commute)
  have "s2 = take (length data - k) (drop k ?c)"
  proof (cases "?u < min l (length data)")
    case True
    then have "k = ?u" using k by simp
    moreover have "off + min l (length data) \<le> rb_capacity rb"
      using inv True unfolding l_def rb_inv_def by linarith
    ultimately have "min l (length data) - k \<le> until_end rb (off + k)"
      using until_end_wrap [OF inv] True by simp
    then have "min (l - k) (min (length data - k) (until_end rb (off + k))) = min (l - k) (length data - k)"
      by linarith
    moreover have "length (drop k ?c) = l - k" using lc by (simp only: length_drop)
    ultimately show ?thesis
      unfolding s2 by (intro take_eq_min) (simp only:)
  next
    case False
    then have "length data - k = 0 \<or> length (drop k ?c) = 0" using k lc by auto
    then show ?thesis using s2 by auto
  qed
  moreover have "s1 = take k ?c"
    unfolding s1 using k lc by (intro take_eq_min) simp
  moreover have "k + (length data - k) = length data" using k by simp
  ultimately have s12: "s1 @ s2 = take (length data) ?c"
    using take_add [of k "length data - k" ?c] by simp
  have len: "length s1 + length s2 = min l (length data)"
    using arg_cong [OF s12, of length] lc by simp
  have "rb_read_allocated off data rb
      = (length s1 + length s2, (s1 @ s2) @ drop (length s1 + length s2) data)"
    unfolding rb_read_allocated_def Let_def length_drop s1_def [symmetric] k_def [symmetric]
      s2_def [symmetric] by (simp add: add.commute)
  moreover have "drop (min l (length data)) data = drop l data"
    by (simp add: min_def)
  ultimately show ?thesis
    unfolding s12 len l_def by simp
qed

lemma rb_get_unallocated_eq:
  assumes "off \<le> rb_window rb"
  shows "rb_get_unallocated rb off n
     = (rb_get_idx rb (rb_length rb + off),
        min (min n (rb_window rb - off)) (until_end rb (rb_length rb + off)))"
  using assms by (auto simp: rb_get_unallocated_def Let_def until_end_def min_def)

lemma rb_write_chunk:
  assumes inv: "rb_inv rb" and "off + length xs \<le> rb_window rb"
    and "length xs \<le> until_end rb (rb_length rb + off)"
  defines "rb' \<equiv> rb\<lparr>rb_storage := blit (rb_get_idx rb (rb_length rb + off)) xs (rb_storage rb)\<rparr>"
  shows "rb_inv rb'" and "rb_capacity rb' = rb_capacity rb" and "rb_length rb' = rb_length rb"
    and "rb_contents rb' = rb_contents rb" and "rb_free rb' = blit off xs (rb_free rb)"
proof -
  have fits: "rb_length rb + off + length xs \<le> rb_capacity rb"
    using rb_length_window [OF inv] assms(2) by linarith
  have at: "rb_get_idx rb (rb_length rb + off) + length xs \<le> rb_capacity rb"
    using rb_get_idx_bound [of rb "rb_length rb + off" "length xs"] assms(3) by simp
  show cap: "rb_capacity rb' = rb_capacity rb" and len: "rb_length rb' = rb_length rb"
    using at by (simp_all add: rb'_def)
  show "rb_inv rb'"
    using inv at by (simp add: rb_inv_def rb'_def)
  have view: "rb_view rb' = blit (rb_length rb + off) xs (rb_view rb)"
    unfolding rb'_def by (rule rb_view_blit [OF inv fits refl at])
  show "rb_contents rb' = rb_contents rb"
    using fits by (simp add: rb_contents_def view len take_blit_behind)
  show "rb_free rb' = blit off xs (rb_free rb)"
    using fits by (simp add: rb_free_def view len drop_blit_behind)
qed

lemma rb_write_unallocated_spec:
  assumes inv: "rb_inv rb"
  shows "\<exists>rb'. rb_write_unallocated off data rb = (min (length data) (rb_window rb - off), rb')
     \<and> rb_inv rb' \<and> rb_capacity rb' = rb_capacity rb \<and> rb_length rb' = rb_length rb
     \<and> rb_contents rb' = rb_contents rb
     \<and> rb_free rb' = blit off (take (rb_window rb - off) data) (rb_free rb)"
proof (cases "off \<le> rb_window rb")
  case True
  let ?w = "rb_window rb - off"
  define m where "m = min (min (length data) ?w) (until_end rb (rb_length rb + off))"
  define rb1 where "rb1 = rb\<lparr>rb_storage :=
    blit (rb_get_idx rb (rb_length rb + off)) (take m data) (rb_storage rb)\<rparr>"
  have m: "m \<le> length data" "m \<le> ?w" "m \<le> until_end rb (rb_length rb + off)"
    by (simp_all add: m_def)
  have lm: "length (take m data) = m" using m(1) by simp
  note rb1 = rb_write_chunk [OF inv, of off "take m data", folded rb1_def, unfolded lm]
  have fit1: "off + m \<le> rb_window rb" using True m(2) by simp
  note rb1 = rb1 [OF fit1 m(3)]
  have read: "rb_read_at rb1 = rb_read_at rb" by (simp add: rb1_def)
  have w1: "rb_window rb1 = rb_window rb" "until_end rb1 = until_end rb"
    "rb_get_idx rb1 = rb_get_idx rb"
    using rb1(2,3) read by (simp_all add: rb_defs until_end_def fun_eq_iff Let_def)
  define n where "n = min (min (length data - m) (rb_window rb - (off + m))) (until_end rb (rb_length rb + (off + m)))"
  define rb2 where "rb2 = rb1\<lparr>rb_storage :=
    blit (rb_get_idx rb (rb_length rb + (off + m))) (take n (drop m data)) (rb_storage rb1)\<rparr>"
  have ln: "length (take n (drop m data)) = n" by (simp add: n_def)
  note rb2 = rb_write_chunk [OF rb1(1), of "off + m" "take n (drop m data)", unfolded rb1(3) w1,
      folded rb2_def, unfolded ln]
  have fit2: "off + m + n \<le> rb_window rb" and until2: "n \<le> until_end rb (rb_length rb + (off + m))"
    using fit1 by (simp_all add: n_def)
  note rb2 = rb2 [OF fit2 until2]
  have total: "m + n = min (length data) ?w"
  proof (cases "m = until_end rb (rb_length rb + off) \<and> m < min (length data) ?w")
    case c: True
    have "rb_length rb + off + min (length data) ?w \<le> rb_capacity rb"
      using True rb_length_window [OF inv] by linarith
    then have "min (length data) ?w - m \<le> until_end rb (rb_length rb + off + m)"
      using c until_end_wrap [OF inv] by metis
    then have "n = min (length data) ?w - m"
      unfolding n_def by (simp add: add.assoc)
    then show ?thesis using c by simp
  next
    case False
    then have "m = min (length data) ?w" unfolding m_def by linarith
    moreover have "n \<le> length data - m" "n \<le> rb_window rb - (off + m)"
      by (simp_all add: n_def)
    ultimately show ?thesis by linarith
  qed
  have "rb_write_unallocated off data rb = (m + n, rb2)"
    unfolding rb_write_unallocated_def Let_def rb_get_unallocated_eq [OF True] m_def [symmetric]
      prod.case rb1_def [symmetric] length_drop
      rb_get_unallocated_eq [of "off + m" rb1 "length data - m", unfolded w1, OF fit1]
      rb1(3) n_def [symmetric]
    by (simp add: rb2_def)
  moreover have "rb_free rb2 = blit off (take ?w data) (rb_free rb)"
  proof -
    have "rb_free rb2 = blit (off + length (take m data)) (take n (drop m data)) (blit off (take m data) (rb_free rb))"
      using rb2(5) rb1(5) lm by simp
    also have "\<dots> = blit off (take m data @ take n (drop m data)) (rb_free rb)"
      by (rule blit_append) (use fit2 lm ln in simp)
    also have "take m data @ take n (drop m data) = take (m + n) data"
      by (simp only: take_add)
    also have "\<dots> = take ?w data"
      unfolding total by (rule take_eq_min) simp
    finally show ?thesis .
  qed
  ultimately show ?thesis
    using total rb2(1-4) rb1(2-4) by simp
next
  case False
  then show ?thesis using inv by (simp add: rb_write_unallocated_def rb_get_unallocated_def Let_def)
qed

lemma rb_enqueue_unallocated_spec:
  assumes inv: "rb_inv rb" and n: "n \<le> rb_window rb"
  shows "\<exists>rb'. rb_enqueue_unallocated n rb = Some rb' \<and> rb_inv rb'
     \<and> rb_capacity rb' = rb_capacity rb
     \<and> rb_contents rb' = rb_contents rb @ take n (rb_free rb) \<and> rb_free rb' = drop n (rb_free rb)"
proof -
  have "rb_length rb + n \<le> rb_capacity rb" using rb_length_window [OF inv] n by linarith
  then have "rb_inv (rb\<lparr>rb_length := rb_length rb + n\<rparr>)"
    using inv by (simp add: rb_inv_def)
  moreover have "rb_contents (rb\<lparr>rb_length := rb_length rb + n\<rparr>) = rb_contents rb @ take n (rb_free rb)"
    by (simp add: rb_contents_def rb_free_def take_add)
  moreover have "rb_free (rb\<lparr>rb_length := rb_length rb + n\<rparr>) = drop n (rb_free rb)"
    by (simp add: rb_free_def add.commute)
  ultimately show ?thesis
    using n by (simp add: rb_enqueue_unallocated_def)
qed

lemma rb_enqueue_unallocated_panics:
  "rb_window rb < n \<Longrightarrow> rb_enqueue_unallocated n rb = None"
  by (simp add: rb_enqueue_unallocated_def)

lemma rb_dequeue_allocated_spec:
  assumes inv: "rb_inv rb" and n: "n \<le> rb_length rb"
  shows "\<exists>rb'. rb_dequeue_allocated n rb = Some rb' \<and> rb_inv rb'
     \<and> rb_capacity rb' = rb_capacity rb
     \<and> rb_contents rb' = drop n (rb_contents rb) \<and> rb_free rb' = rb_free rb @ take n (rb_contents rb)"
proof -
  define rb' where "rb' = rb\<lparr>rb_length := rb_length rb - n, rb_read_at := rb_get_idx rb n\<rparr>"
  have nc: "n \<le> rb_capacity rb" using inv n by (simp add: rb_inv_def)
  have call: "rb_dequeue_allocated n rb = Some rb'"
    using n by (simp add: rb_dequeue_allocated_def rb'_def rb_len_def rb_get_idx_def Let_def)
  have inv': "rb_inv rb'"
    using inv by (auto simp: rb'_def rb_inv_def rb_get_idx_def)
  have view: "rb_view rb' = drop n (rb_view rb) @ take n (rb_view rb)"
  proof (cases "rb_capacity rb = 0")
    case True
    then have "rb_storage rb = []" by (metis length_0_conv length_rb_storage)
    then show ?thesis by (simp add: rb_view_def rb'_def)
  next
    case False
    then show ?thesis
      using rb_view_advance [OF inv nc] by (simp add: rb'_def rb_get_idx_def rb_view_def)
  qed
  have len: "rb_length rb' = rb_length rb - n" by (simp add: rb'_def)
  have lc: "rb_length rb \<le> rb_capacity rb" using inv by (simp add: rb_inv_def)
  have "rb_contents rb' = drop n (rb_contents rb)"
    using lc n by (simp add: rb_contents_def view len drop_take)
  moreover have "rb_free rb' = rb_free rb @ take n (rb_contents rb)"
    using lc n by (simp add: rb_free_def rb_contents_def view len min_def)
  ultimately show ?thesis using call inv' by (simp add: rb'_def)
qed

lemma rb_dequeue_allocated_panics:
  "rb_length rb < n \<Longrightarrow> rb_dequeue_allocated n rb = None"
  by (simp add: rb_dequeue_allocated_def rb_len_def)

section \<open>The discrete interface\<close>

text \<open>
  \<open>enqueue_one\<close> hands out a reference to the slot that becomes the last element, so the
  caller's write through it (\<open>rb_poke\<close>) decides what was enqueued.
\<close>

definition rb_poke :: "nat \<Rightarrow> 'a \<Rightarrow> 'a ring_buffer \<Rightarrow> 'a ring_buffer" where
  "rb_poke i x rb = rb\<lparr>rb_storage := (rb_storage rb)[i := x]\<rparr>"

lemma list_update_blit: "i < length xs \<Longrightarrow> xs[i := x] = blit i [x] xs"
  by (simp add: blit_def upd_conv_take_nth_drop)

lemma rb_is_full_iff: "rb_inv rb \<Longrightarrow> rb_is_full rb \<longleftrightarrow> rb_length rb = rb_capacity rb"
  by (auto simp: rb_is_full_def rb_window_def rb_len_def rb_inv_def)

lemma rb_enqueue_one_full: "rb_is_full rb \<Longrightarrow> rb_enqueue_one rb = (Inl Full, rb)"
  by (simp add: rb_enqueue_one_def)

lemma rb_enqueue_one_spec:
  assumes inv: "rb_inv rb" and room: "\<not> rb_is_full rb"
  shows "\<exists>i rb'. rb_enqueue_one rb = (Inr i, rb') \<and> i < rb_capacity rb
     \<and> rb_inv (rb_poke i x rb') \<and> rb_capacity (rb_poke i x rb') = rb_capacity rb
     \<and> rb_contents (rb_poke i x rb') = rb_contents rb @ [x]
     \<and> rb_free (rb_poke i x rb') = tl (rb_free rb)"
proof -
  let ?i = "rb_get_idx rb (rb_length rb + 0)"
  have lc: "rb_length rb < rb_capacity rb"
    using inv room rb_is_full_iff [OF inv] by (auto simp: rb_inv_def)
  have i: "rb_get_idx_unchecked rb (rb_length rb) = ?i" "?i < rb_capacity rb"
    using lc by (simp_all add: rb_get_idx_def rb_get_idx_unchecked_def Let_def)
  define rb1 where "rb1 = rb\<lparr>rb_storage := blit ?i [x] (rb_storage rb)\<rparr>"
  have fits: "0 + length [x] \<le> rb_window rb" "length [x] \<le> until_end rb (rb_length rb + 0)"
    using lc i(2) by (simp_all add: rb_window_def rb_len_def until_end_def)
  note rb1 = rb_write_chunk [OF inv fits, folded rb1_def]
  have w: "1 \<le> rb_window rb1"
    using lc rb1(2,3) by (simp add: rb_window_def rb_len_def)
  have free: "rb_free rb \<noteq> []" using fits(1) by (metis length_rb_free list.size(3) not_one_le_zero add_0 length_Cons One_nat_def)
  have "rb_poke ?i x (rb\<lparr>rb_length := rb_length rb + 1\<rparr>) = rb1\<lparr>rb_length := rb_length rb1 + 1\<rparr>"
    using i(2) by (simp add: rb_poke_def rb1_def list_update_blit)
  then have "rb_enqueue_unallocated 1 rb1 = Some (rb_poke ?i x (rb\<lparr>rb_length := rb_length rb + 1\<rparr>))"
    using w by (simp add: rb_enqueue_unallocated_def)
  moreover have "take 1 (rb_free rb1) = [x]" "drop 1 (rb_free rb1) = tl (rb_free rb)"
    using free rb1(5) by (simp_all add: blit_def drop_Suc)
  ultimately show ?thesis
    using rb_enqueue_unallocated_spec [OF rb1(1) w] rb1(2,4) room i
    by (auto simp: rb_enqueue_one_def)
qed

lemma rb_dequeue_one_empty: "rb_is_empty rb \<Longrightarrow> rb_dequeue_one rb = (Inl Empty, rb)"
  by (simp add: rb_dequeue_one_def)

lemma rb_dequeue_one_spec:
  assumes inv: "rb_inv rb" and ne: "\<not> rb_is_empty rb"
  shows "\<exists>i rb'. rb_dequeue_one rb = (Inr i, rb') \<and> i < rb_capacity rb
     \<and> rb_storage rb' ! i = hd (rb_contents rb)
     \<and> rb_inv rb' \<and> rb_capacity rb' = rb_capacity rb
     \<and> rb_contents rb' = tl (rb_contents rb) \<and> rb_free rb' = rb_free rb @ [hd (rb_contents rb)]"
proof -
  have l: "1 \<le> rb_length rb" and lc: "rb_length rb \<le> rb_capacity rb"
    using inv ne by (auto simp: rb_is_empty_def rb_len_def rb_inv_def)
  then have c: "rb_contents rb \<noteq> []" using inv by (metis length_rb_contents list.size(3) not_one_le_zero)
  have r: "rb_read_at rb < rb_capacity rb" using inv l lc by (simp add: rb_inv_def split: if_splits)
  have "hd (rb_contents rb) = rb_view rb ! 0"
    using c l lc by (simp add: hd_conv_nth rb_contents_def)
  then have hd: "rb_storage rb ! rb_read_at rb = hd (rb_contents rb)"
    using r l lc by (simp add: nth_rb_view)
  define rb' where "rb' = rb\<lparr>rb_length := rb_length rb - 1, rb_read_at := rb_get_idx_unchecked rb 1\<rparr>"
  have "rb_dequeue_allocated 1 rb = Some rb'"
    using l lc by (simp add: rb_dequeue_allocated_def rb_len_def rb'_def rb_get_idx_def rb_get_idx_unchecked_def)
  moreover have "take 1 (rb_contents rb) = [hd (rb_contents rb)]"
    using c by (cases "rb_contents rb") simp_all
  ultimately have "rb_inv rb' \<and> rb_capacity rb' = rb_capacity rb
     \<and> rb_contents rb' = tl (rb_contents rb) \<and> rb_free rb' = rb_free rb @ [hd (rb_contents rb)]"
    using rb_dequeue_allocated_spec [OF inv l] by (simp add: drop_Suc)
  moreover have "rb_dequeue_one rb = (Inr (rb_read_at rb), rb')"
    using ne by (simp add: rb_dequeue_one_def rb'_def)
  moreover have "rb_storage rb' = rb_storage rb" by (simp add: rb'_def)
  ultimately show ?thesis using hd r by auto
qed

section \<open>The contracts\<close>

interpretation rb_queue: byte_queue rb_inv rb_contents rb_capacity rb_enqueue_slice rb_dequeue_slice
proof
  fix q :: "'a ring_buffer" and xs
  assume inv: "rb_inv q"
  show "length (rb_contents q) \<le> rb_capacity q"
    using inv by (simp add: rb_inv_def)
  have "rb_window q = rb_capacity q - length (rb_contents q)"
    using inv by (simp add: rb_window_def rb_len_def)
  then show "\<exists>q'. rb_enqueue_slice xs q = Some (min (rb_capacity q - length (rb_contents q)) (length xs), q')
        \<and> rb_inv q' \<and> rb_capacity q' = rb_capacity q
        \<and> rb_contents q' = rb_contents q @ take (rb_capacity q - length (rb_contents q)) xs"
    using rb_enqueue_slice_spec [OF inv, of xs] by simp
  show "\<exists>q'. rb_dequeue_slice xs q = Some (min (length (rb_contents q)) (length xs),
          take (length xs) (rb_contents q) @ drop (length (rb_contents q)) xs, q')
        \<and> rb_inv q' \<and> rb_capacity q' = rb_capacity q \<and> rb_contents q' = drop (length xs) (rb_contents q)"
    using rb_dequeue_slice_spec [OF inv, of xs] inv by auto
qed

interpretation rb_store: reorder_store rb_inv rb_contents rb_capacity rb_enqueue_slice rb_dequeue_slice
  rb_free rb_write_unallocated rb_enqueue_unallocated
proof
  fix q :: "'a ring_buffer" and n off xs buf' q'
  assume inv: "rb_inv q"
  show "length (rb_contents q) + length (rb_free q) = rb_capacity q"
    using rb_length_window [OF inv] inv by simp
  show "\<exists>q'. rb_write_unallocated off xs q = (length xs, q') \<and> rb_inv q' \<and> rb_capacity q' = rb_capacity q
         \<and> rb_contents q' = rb_contents q \<and> rb_free q' = blit off xs (rb_free q)"
    if "off + length xs \<le> length (rb_free q)"
    using rb_write_unallocated_spec [OF inv, of off xs] that by auto
  show "\<exists>q'. rb_enqueue_unallocated n q = Some q' \<and> rb_inv q' \<and> rb_capacity q' = rb_capacity q
         \<and> rb_contents q' = rb_contents q @ take n (rb_free q) \<and> rb_free q' = drop n (rb_free q)"
    if "n \<le> length (rb_free q)"
    using rb_enqueue_unallocated_spec [OF inv] that by simp
  show "rb_free q' = rb_free q @ take (length xs) (rb_contents q)"
    if "rb_dequeue_slice xs q = Some (n, buf', q')"
    using rb_dequeue_slice_spec [OF inv, of xs] that by auto
qed

section \<open>Properties\<close>

text \<open>C21. Whatever sequence of \<open>enqueue_slice\<close> and \<open>dequeue_slice\<close> calls is made on a well-formed
  ring buffer, none panics, the buffer stays well-formed, and the elements handed out followed
  by those still stored are exactly the elements stored before followed by those accepted, in
  order.\<close>

theorem rb_stream_fifo:
  assumes "rb_inv rb"
  shows "\<exists>acc out rb'. q_run rb_enqueue_slice rb_dequeue_slice ops rb = Some (acc, out, rb')
     \<and> rb_inv rb' \<and> rb_capacity rb' = rb_capacity rb \<and> rb_contents rb @ acc = out @ rb_contents rb'"
  using rb_queue.q_run_stream [OF assms] .

theorem rb_stream_fifo_witness:
  "\<exists>acc out rb'. q_run rb_enqueue_slice rb_dequeue_slice
       [Enqueue_slice [5, 6], Dequeue_slice [0], Enqueue_slice [7, 8]]
       \<lparr>rb_storage = [2, 9, 9, 1], rb_read_at = 3, rb_length = 2\<rparr> = Some (acc, out, rb')
     \<and> rb_inv rb' \<and> [1::nat, 2] @ acc = out @ rb_contents rb'"
proof -
  let ?rb = "\<lparr>rb_storage = [2, 9, 9, 1::nat], rb_read_at = 3, rb_length = 2\<rparr>"
  have inv: "rb_inv ?rb" by code_simp
  have contents: "rb_contents ?rb = [1, 2]" by code_simp
  show ?thesis
    using rb_stream_fifo [OF inv, of "[Enqueue_slice [5, 6], Dequeue_slice [0], Enqueue_slice [7, 8]]"]
    unfolding contents by blast
qed

text \<open>\<open>enqueue_slice(data)\<close> takes as much of the data as there is room for, even across the
  end of the storage, appends exactly that to the contents, and returns its length.\<close>

theorem enqueue_slice_appends:
  assumes "rb_inv rb"
  shows "\<exists>rb'. rb_enqueue_slice data rb = Some (min (rb_window rb) (length data), rb')
     \<and> rb_inv rb' \<and> rb_capacity rb' = rb_capacity rb
     \<and> rb_contents rb' = rb_contents rb @ take (rb_window rb) data"
  using rb_enqueue_slice_spec [OF assms] .

theorem enqueue_slice_appends_witness:
  "\<exists>rb'. rb_enqueue_slice [5, 6, 7] \<lparr>rb_storage = [2, 9, 9, 1::nat], rb_read_at = 3, rb_length = 2\<rparr>
       = Some (2, rb') \<and> rb_inv rb' \<and> rb_contents rb' = [1, 2, 5, 6]"
proof -
  let ?rb = "\<lparr>rb_storage = [2, 9, 9, 1::nat], rb_read_at = 3, rb_length = 2\<rparr>"
  have inv: "rb_inv ?rb" by code_simp
  have facts: "rb_contents ?rb = [1, 2]" "rb_window ?rb = 2" by code_simp+
  show ?thesis
    using enqueue_slice_appends [OF inv, of "[5, 6, 7]"] unfolding facts by (auto simp: numeral_2_eq_2)
qed

text \<open>\<open>dequeue_slice(data)\<close> fills the front of the caller's slice with the oldest elements, in
  order and across the end of the storage, leaves the rest of the slice alone, and removes
  exactly what it returned.\<close>

theorem dequeue_slice_removes:
  assumes "rb_inv rb"
  shows "\<exists>rb'. rb_dequeue_slice data rb
       = Some (min (rb_length rb) (length data),
               take (length data) (rb_contents rb) @ drop (rb_length rb) data, rb')
     \<and> rb_inv rb' \<and> rb_capacity rb' = rb_capacity rb
     \<and> rb_contents rb' = drop (length data) (rb_contents rb)"
  using rb_dequeue_slice_spec [OF assms] by blast

theorem dequeue_slice_removes_witness:
  "\<exists>rb'. rb_dequeue_slice [0, 0, 0] \<lparr>rb_storage = [2, 9, 9, 1::nat], rb_read_at = 3, rb_length = 2\<rparr>
       = Some (2, [1, 2, 0], rb') \<and> rb_inv rb' \<and> rb_contents rb' = []"
proof -
  let ?rb = "\<lparr>rb_storage = [2, 9, 9, 1::nat], rb_read_at = 3, rb_length = 2\<rparr>"
  have inv: "rb_inv ?rb" by code_simp
  have facts: "rb_contents ?rb = [1, 2]" by code_simp
  show ?thesis
    using dequeue_slice_removes [OF inv, of "[0, 0, 0]"] unfolding facts by (auto simp: numeral_2_eq_2)
qed

text \<open>C22. \<open>write_unallocated(offset, data)\<close> stores the data behind the contents at the offset,
  clipped to the window, and changes nothing else; a later \<open>enqueue_unallocated(n)\<close> for no more
  than the window turns the first \<open>n\<close> free slots into contents.\<close>

theorem write_then_enqueue_unallocated:
  assumes "rb_inv rb" and "n \<le> rb_window rb"
  shows "\<exists>rb1 rb2. rb_write_unallocated off data rb = (min (length data) (rb_window rb - off), rb1)
     \<and> rb_contents rb1 = rb_contents rb \<and> rb_enqueue_unallocated n rb1 = Some rb2 \<and> rb_inv rb2
     \<and> rb_contents rb2 = rb_contents rb @ take n (blit off (take (rb_window rb - off) data) (rb_free rb))"
proof -
  obtain rb1 where rb1: "rb_write_unallocated off data rb = (min (length data) (rb_window rb - off), rb1)"
    "rb_inv rb1" "rb_capacity rb1 = rb_capacity rb" "rb_length rb1 = rb_length rb"
    "rb_contents rb1 = rb_contents rb"
    "rb_free rb1 = blit off (take (rb_window rb - off) data) (rb_free rb)"
    using rb_write_unallocated_spec [OF assms(1)] by blast
  then have "n \<le> rb_window rb1"
    using assms(2) by (simp add: rb_window_def rb_len_def)
  then show ?thesis
    using rb_enqueue_unallocated_spec [OF rb1(2), of n] rb1 by auto
qed

theorem write_then_enqueue_unallocated_witness:
  "\<exists>rb1 rb2. rb_write_unallocated 1 [6] \<lparr>rb_storage = [2, 9, 9, 1::nat], rb_read_at = 3, rb_length = 2\<rparr> = (1, rb1)
     \<and> rb_contents rb1 = [1, 2] \<and> rb_enqueue_unallocated 2 rb1 = Some rb2 \<and> rb_inv rb2
     \<and> rb_contents rb2 = [1, 2, 9, 6]"
proof -
  let ?rb = "\<lparr>rb_storage = [2, 9, 9, 1::nat], rb_read_at = 3, rb_length = 2\<rparr>"
  have inv: "rb_inv ?rb" by code_simp
  have facts: "rb_contents ?rb = [1, 2]" "rb_window ?rb = 2" "rb_free ?rb = [9, 9]" by code_simp+
  show ?thesis
    using write_then_enqueue_unallocated [OF inv, of 2 1 "[6]"] unfolding facts by (simp add: blit_def)
qed

text \<open>\<open>read_allocated(offset, data)\<close> copies the elements from the offset on, in order and
  across the end of the storage, as far as both the contents and the slice reach.\<close>

theorem read_allocated_copies:
  assumes "rb_inv rb"
  shows "rb_read_allocated off data rb
     = (min (rb_length rb - off) (length data),
        take (length data) (drop off (rb_contents rb)) @ drop (rb_length rb - off) data)"
  using rb_read_allocated_spec [OF assms] .

theorem read_allocated_copies_witness:
  "rb_read_allocated 1 [0, 0] \<lparr>rb_storage = [2, 9, 9, 1::nat], rb_read_at = 3, rb_length = 2\<rparr> = (1, [2, 0])"
proof -
  let ?rb = "\<lparr>rb_storage = [2, 9, 9, 1::nat], rb_read_at = 3, rb_length = 2\<rparr>"
  have inv: "rb_inv ?rb" by code_simp
  have facts: "rb_contents ?rb = [1, 2]" by code_simp
  show ?thesis
    using read_allocated_copies [OF inv, of 1 "[0, 0]"] unfolding facts by simp
qed

end
