(* ===== verification/Assembler.thy ===== *)
theory Assembler
  imports Storage_Interfaces
begin

text \<open>
  The reassembly tracker of \<^verbatim>\<open>src/storage/assembler.rs\<close>: an array of \<open>Contig\<close>s (a hole
  followed by data), with the array loops of the code as recursion over the index. The length of
  the array is \<open>ASSEMBLER_MAX_SEGMENT_COUNT\<close>, an argument of \<open>asm_new\<close>. Subtractions that
  would underflow and failed \<open>debug_assert!\<close>s are the value \<open>None\<close>.

  An assembler is specified by the set of offsets it holds (\<open>asm_present\<close>).
\<close>

section \<open>Model\<close>

datatype too_many_holes_error = TooManyHolesError

record contig =
  hole_size :: nat
  data_size :: nat

definition hole_and_data :: "nat \<Rightarrow> nat \<Rightarrow> contig" where
  "hole_and_data hole data = \<lparr>hole_size = hole, data_size = data\<rparr>"

definition contig_empty :: contig where
  "contig_empty = \<lparr>hole_size = 0, data_size = 0\<rparr>"

definition has_hole :: "contig \<Rightarrow> bool" where
  "has_hole c \<longleftrightarrow> hole_size c \<noteq> 0"

definition has_data :: "contig \<Rightarrow> bool" where
  "has_data c \<longleftrightarrow> data_size c \<noteq> 0"

definition total_size :: "contig \<Rightarrow> nat" where
  "total_size c = hole_size c + data_size c"

definition shrink_hole_by :: "nat \<Rightarrow> contig \<Rightarrow> contig option" where
  "shrink_hole_by n c = do { h \<leftarrow> checked_sub (hole_size c) n; Some (c\<lparr>hole_size := h\<rparr>) }"

definition shrink_hole_to :: "nat \<Rightarrow> contig \<Rightarrow> contig option" where
  "shrink_hole_to n c =
     do { rust_assert (hole_size c \<ge> n);
          let total = total_size c;
          d \<leftarrow> checked_sub total n;
          Some (c\<lparr>hole_size := n, data_size := d\<rparr>) }"

record assembler =
  contigs :: "contig list"

definition asm_new :: "nat \<Rightarrow> assembler" where
  "asm_new max_segment_count = \<lparr>contigs = replicate max_segment_count contig_empty\<rparr>"

definition asm_clear :: "assembler \<Rightarrow> assembler" where
  "asm_clear a = a\<lparr>contigs := replicate (length (contigs a)) contig_empty\<rparr>"

definition asm_front :: "assembler \<Rightarrow> contig" where
  "asm_front a = contigs a ! 0"

definition asm_peek_front :: "assembler \<Rightarrow> nat" where
  "asm_peek_front a = (let front = asm_front a in if has_hole front then 0 else data_size front)"

definition asm_back :: "assembler \<Rightarrow> contig" where
  "asm_back a = contigs a ! (length (contigs a) - 1)"

definition asm_is_empty :: "assembler \<Rightarrow> bool" where
  "asm_is_empty a \<longleftrightarrow> \<not> has_data (asm_front a)"

text \<open>The loop of \<open>remove_contig_at\<close>, which returns early at the first unused contig.\<close>

function remove_contig_loop :: "nat \<Rightarrow> contig list \<Rightarrow> contig list" where
  "remove_contig_loop i cs =
     (if i < length cs - 1
      then if \<not> has_data (cs ! i) then cs
           else remove_contig_loop (i + 1) (cs[i := cs ! (i + 1)])
      else cs[length cs - 1 := contig_empty])"
  by pat_completeness auto
termination by (relation "measure (\<lambda>(i, cs). length cs - i)") auto

declare remove_contig_loop.simps [simp del]

definition remove_contig_at :: "nat \<Rightarrow> assembler \<Rightarrow> assembler option" where
  "remove_contig_at at a =
     do { rust_assert (has_data (contigs a ! at));
          Some (a\<lparr>contigs := remove_contig_loop at (contigs a)\<rparr>) }"

text \<open>\<open>add_contig_at\<close> returns a pointer to the contig at the index it was given.\<close>

definition add_contig_at :: "nat \<Rightarrow> assembler \<Rightarrow> (too_many_holes_error + nat) \<times> assembler" where
  "add_contig_at at a =
     (if has_data (asm_back a) then (Inl TooManyHolesError, a)
      else let cs = contigs a;
               cs = foldl (\<lambda>cs i. cs[i := cs ! (i - 1)]) cs (rev [at + 1..<length cs]);
               cs = cs[at := contig_empty]
           in (Inr at, a\<lparr>contigs := cs\<rparr>))"

text \<open>The first loop of \<open>add\<close>: the index of the contig that contains the start of the range.\<close>

datatype contig_search = No_Space | Unused nat nat | Within nat nat

function find_contig :: "contig list \<Rightarrow> nat \<Rightarrow> nat \<Rightarrow> contig_search" where
  "find_contig cs i offset =
     (if i \<ge> length cs then No_Space
      else let contig = cs ! i
           in if \<not> has_data contig then Unused i offset
              else if offset \<le> total_size contig then Within i offset
              else find_contig cs (i + 1) (offset - total_size contig))"
  by pat_completeness auto
termination by (relation "measure (\<lambda>(cs, i, offset). length cs - i)") auto

declare find_contig.simps [simp del]

text \<open>The coalescing loop of \<open>add\<close>.\<close>

function coalesce :: "nat \<Rightarrow> nat \<Rightarrow> contig list \<Rightarrow> nat \<Rightarrow> contig list \<times> nat" where
  "coalesce i range_end cs j =
     (if j < length cs \<and> has_data (cs ! j)
         \<and> range_end \<ge> total_size (cs ! i) + hole_size (cs ! j)
      then coalesce i range_end
             (cs[i := (cs ! i)\<lparr>data_size := data_size (cs ! i) + total_size (cs ! j)\<rparr>]) (j + 1)
      else (cs, j))"
  by pat_completeness auto
termination by (relation "measure (\<lambda>(i, e, cs, j). length cs - j)") auto

declare coalesce.simps [simp del]

text \<open>The loop of \<open>add\<close> that moves the contigs behind the coalesced ones to the left.\<close>

function shift_contigs :: "nat \<Rightarrow> contig list \<Rightarrow> nat \<Rightarrow> contig list" where
  "shift_contigs shift cs x =
     (if x < length cs
      then if \<not> has_data (cs ! x) then cs
           else shift_contigs shift
                  (cs[x := (if x + shift < length cs then cs ! (x + shift) else contig_empty)]) (x + 1)
      else cs)"
  by pat_completeness auto
termination by (relation "measure (\<lambda>(s, cs, x). length cs - x)") auto

declare shift_contigs.simps [simp del]

text \<open>The part of \<open>add\<close> after the hole of the contig has been shrunk.\<close>

definition add_tail :: "nat \<Rightarrow> nat \<Rightarrow> contig list \<Rightarrow> contig list option" where
  "add_tail i range_end cs =
     do { let (cs, j) = coalesce i range_end cs (i + 1);
          let shift = j - i - 1;
          let cs = (if shift \<noteq> 0 then shift_contigs shift cs (i + 1) else cs);
          if range_end > total_size (cs ! i)
          then do { let left = range_end - total_size (cs ! i);
                    let cs = cs[i := (cs ! i)\<lparr>data_size := data_size (cs ! i) + left\<rparr>];
                    if i + 1 < length cs \<and> has_data (cs ! (i + 1))
                    then do { h \<leftarrow> checked_sub (hole_size (cs ! (i + 1))) left;
                              Some (cs[i + 1 := (cs ! (i + 1))\<lparr>hole_size := h\<rparr>]) }
                    else Some cs }
          else Some cs }"

definition asm_add ::
  "nat \<Rightarrow> nat \<Rightarrow> assembler \<Rightarrow> ((too_many_holes_error + unit) \<times> assembler) option" where
  "asm_add offset req_size a =
     (if req_size = 0 then Some (Inr (), a)
      else case find_contig (contigs a) 0 offset of
        No_Space \<Rightarrow> Some (Inl TooManyHolesError, a)
      | Unused i offset \<Rightarrow>
          Some (Inr (), a\<lparr>contigs := (contigs a)[i := hole_and_data offset req_size]\<rparr>)
      | Within i offset \<Rightarrow>
          let contig = contigs a ! i
          in if offset < hole_size contig
             then if offset + req_size < hole_size contig
                  then (case add_contig_at i a of
                          (Inl e, a) \<Rightarrow> Some (Inl e, a)
                        | (Inr i, a) \<Rightarrow>
                            do { let cs = (contigs a)[i := hole_and_data offset req_size];
                                 c \<leftarrow> shrink_hole_by (offset + req_size) (cs ! (i + 1));
                                 Some (Inr (), a\<lparr>contigs := cs[i + 1 := c]\<rparr>) })
                  else do { c \<leftarrow> shrink_hole_to offset contig;
                            cs \<leftarrow> add_tail i (offset + req_size) ((contigs a)[i := c]);
                            Some (Inr (), a\<lparr>contigs := cs\<rparr>) }
             else do { cs \<leftarrow> add_tail i (offset + req_size) (contigs a);
                       Some (Inr (), a\<lparr>contigs := cs\<rparr>) })"

definition asm_remove_front :: "assembler \<Rightarrow> (nat \<times> assembler) option" where
  "asm_remove_front a =
     (let front = asm_front a
      in if has_hole front \<or> \<not> has_data front then Some (0, a)
         else do { a \<leftarrow> remove_contig_at 0 a;
                   rust_assert (data_size front > 0);
                   Some (data_size front, a) })"

definition asm_add_then_remove_front ::
  "nat \<Rightarrow> nat \<Rightarrow> assembler \<Rightarrow> ((too_many_holes_error + nat) \<times> assembler) option" where
  "asm_add_then_remove_front offset req_size a =
     (if offset = 0 \<and> req_size < hole_size (contigs a ! 0)
      then let c = contigs a ! 0
           in Some (Inr req_size,
                    a\<lparr>contigs := (contigs a)[0 := c\<lparr>hole_size := hole_size c - req_size\<rparr>]\<rparr>)
      else do { (res, a) \<leftarrow> asm_add offset req_size a;
                case res of
                  Inl e \<Rightarrow> Some (Inl e, a)
                | Inr _ \<Rightarrow> do { (n, a) \<leftarrow> asm_remove_front a; Some (Inr n, a) } })"

subsection \<open>The iterator over the data ranges\<close>

record assembler_iter =
  ai_assembler :: assembler
  ai_offset :: nat
  ai_index :: nat
  ai_left :: nat
  ai_right :: nat

definition asm_iter_data :: "assembler \<Rightarrow> nat \<Rightarrow> assembler_iter" where
  "asm_iter_data a first_offset =
     \<lparr>ai_assembler = a, ai_offset = first_offset, ai_index = 0, ai_left = 0, ai_right = 0\<rparr>"

function asm_iter_next :: "assembler_iter \<Rightarrow> (nat \<times> nat) option \<times> assembler_iter" where
  "asm_iter_next it =
     (if ai_index it < length (contigs (ai_assembler it))
      then let contig = contigs (ai_assembler it) ! ai_index it;
               left = ai_left it + hole_size contig;
               right = left + data_size contig;
               it = it\<lparr>ai_left := left, ai_right := right\<rparr>
           in if left < right
              then (Some (left + ai_offset it, right + ai_offset it),
                    it\<lparr>ai_left := right, ai_index := ai_index it + 1\<rparr>)
              else asm_iter_next (it\<lparr>ai_index := ai_index it + 1\<rparr>)
      else (None, it))"
  by pat_completeness auto
termination
  by (relation "measure (\<lambda>it. length (contigs (ai_assembler it)) - ai_index it)") auto

declare asm_iter_next.simps [simp del]

section \<open>Specification: the set of offsets that are present\<close>

primrec contig_ranges :: "nat \<Rightarrow> contig list \<Rightarrow> nat set" where
  "contig_ranges base [] = {}"
| "contig_ranges base (c # cs) =
     {base + hole_size c ..< base + total_size c} \<union> contig_ranges (base + total_size c) cs"

definition asm_present :: "assembler \<Rightarrow> nat set" where
  "asm_present a = contig_ranges 0 (contigs a)"

text \<open>
  The invariant that the comment in the code states: the contigs with data are a prefix of the
  array, the others are empty, and only the first of them may have no hole.
\<close>

definition wf_used :: "contig list \<Rightarrow> bool" where
  "wf_used us \<longleftrightarrow> list_all has_data us \<and> list_all has_hole (tl us)"

definition asm_used :: "assembler \<Rightarrow> contig list" where
  "asm_used a = takeWhile has_data (contigs a)"

definition asm_inv :: "assembler \<Rightarrow> bool" where
  "asm_inv a \<longleftrightarrow> contigs a \<noteq> [] \<and> wf_used (asm_used a) \<and>
     list_all (\<lambda>c. c = contig_empty) (dropWhile has_data (contigs a))"

lemma contig_empty_simps [simp]:
  "\<not> has_data contig_empty" "\<not> has_hole contig_empty" "total_size contig_empty = 0"
  "hole_size contig_empty = 0" "data_size contig_empty = 0"
  by (simp_all add: contig_empty_def has_data_def has_hole_def total_size_def)

lemma hole_and_data_simps [simp]:
  "hole_size (hole_and_data h d) = h" "data_size (hole_and_data h d) = d"
  "total_size (hole_and_data h d) = h + d" "has_data (hole_and_data h d) \<longleftrightarrow> d \<noteq> 0"
  "has_hole (hole_and_data h d) \<longleftrightarrow> h \<noteq> 0"
  by (simp_all add: hole_and_data_def has_data_def has_hole_def total_size_def)

lemma contig_ranges_append:
  "contig_ranges b (xs @ ys) = contig_ranges b xs \<union> contig_ranges (b + sum_list (map total_size xs)) ys"
  by (induction xs arbitrary: b) (simp_all add: Un_assoc add.assoc)

lemma contig_ranges_empties [simp]: "contig_ranges b (replicate k contig_empty) = {}"
  by (induction k arbitrary: b) simp_all

lemma asm_inv_rep:
  "asm_inv a \<longleftrightarrow> (\<exists>us k. contigs a = us @ replicate k contig_empty \<and> wf_used us \<and> us @ replicate k contig_empty \<noteq> [])"
proof
  assume inv: "asm_inv a"
  let ?rest = "dropWhile has_data (contigs a)"
  have "?rest = replicate (length ?rest) contig_empty"
    using inv by (intro replicate_eqI) (auto simp: asm_inv_def list_all_iff)
  then have "contigs a = asm_used a @ replicate (length ?rest) contig_empty"
    by (metis asm_used_def takeWhile_dropWhile_id)
  then show "\<exists>us k. contigs a = us @ replicate k contig_empty \<and> wf_used us \<and> us @ replicate k contig_empty \<noteq> []"
    using inv unfolding asm_inv_def by metis
next
  assume "\<exists>us k. contigs a = us @ replicate k contig_empty \<and> wf_used us \<and> us @ replicate k contig_empty \<noteq> []"
  then obtain us k where rep: "contigs a = us @ replicate k contig_empty" "wf_used us" "contigs a \<noteq> []"
    by auto
  have all: "\<forall>c\<in>set us. has_data c" using rep(2) by (simp add: wf_used_def list_all_iff)
  then have "takeWhile has_data (contigs a) = us"
    unfolding rep(1) by (cases k) (simp_all add: takeWhile_append2)
  moreover have "dropWhile has_data (contigs a) = replicate k contig_empty"
    unfolding rep(1) using all by (cases k) (simp_all add: dropWhile_append2)
  ultimately show "asm_inv a"
    using rep by (simp add: asm_inv_def asm_used_def list_all_iff)
qed

lemma asm_invI:
  "contigs a = us @ replicate k contig_empty \<Longrightarrow> wf_used us \<Longrightarrow> contigs a \<noteq> [] \<Longrightarrow> asm_inv a"
  unfolding asm_inv_rep by metis

lemma asm_used_rep:
  assumes "contigs a = us @ replicate k contig_empty" and "wf_used us"
  shows "asm_used a = us"
  using assms unfolding asm_used_def wf_used_def list_all_iff
  by (cases k) (simp_all add: takeWhile_append2)

lemma asm_present_rep:
  assumes "contigs a = us @ replicate k contig_empty"
  shows "asm_present a = contig_ranges 0 us"
  by (simp add: asm_present_def assms contig_ranges_append)

subsection \<open>The operations on the list of used contigs\<close>

fun list_merge :: "nat \<Rightarrow> contig \<Rightarrow> contig list \<Rightarrow> contig \<times> contig list" where
  "list_merge e c [] = (c, [])"
| "list_merge e c (u # us) =
     (if total_size c + hole_size u \<le> e
      then list_merge e (c\<lparr>data_size := data_size c + total_size u\<rparr>) us else (c, u # us))"

fun list_extend :: "nat \<Rightarrow> contig \<Rightarrow> contig list \<Rightarrow> contig list" where
  "list_extend e c us =
     (if total_size c < e
      then c\<lparr>data_size := data_size c + (e - total_size c)\<rparr> #
           (case us of [] \<Rightarrow> [] | u # us \<Rightarrow> u\<lparr>hole_size := hole_size u - (e - total_size c)\<rparr> # us)
      else c # us)"

definition list_join :: "nat \<Rightarrow> contig \<Rightarrow> contig list \<Rightarrow> contig list" where
  "list_join e c us = (case list_merge e c us of (c, us) \<Rightarrow> list_extend e c us)"

text \<open>\<open>k\<close> is the number of contigs that are not in use.\<close>

fun list_add :: "nat \<Rightarrow> nat \<Rightarrow> nat \<Rightarrow> contig list \<Rightarrow> contig list option" where
  "list_add k off n [] = (if k = 0 then None else Some [hole_and_data off n])"
| "list_add k off n (c # us) =
     (if off \<le> total_size c
      then if off < hole_size c
           then if off + n < hole_size c
                then if k = 0 then None
                     else Some (hole_and_data off n # c\<lparr>hole_size := hole_size c - (off + n)\<rparr> # us)
                else Some (list_join (off + n) (hole_and_data off (total_size c - off)) us)
           else Some (list_join (off + n) c us)
      else map_option ((#) c) (list_add k (off - total_size c) n us))"

declare list_extend.simps [simp del]

lemma contig_update_simps [simp]:
  "total_size (c\<lparr>data_size := d\<rparr>) = hole_size c + d"
  "total_size (c\<lparr>hole_size := h\<rparr>) = h + data_size c"
  "has_data (c\<lparr>data_size := d\<rparr>) \<longleftrightarrow> d \<noteq> 0" "has_data (c\<lparr>hole_size := h\<rparr>) \<longleftrightarrow> has_data c"
  "has_hole (c\<lparr>data_size := d\<rparr>) \<longleftrightarrow> has_hole c" "has_hole (c\<lparr>hole_size := h\<rparr>) \<longleftrightarrow> h \<noteq> 0"
  by (simp_all add: total_size_def has_data_def has_hole_def)

lemma hole_le_total [simp]: "hole_size c \<le> total_size c"
  by (simp add: total_size_def)

lemma list_merge_ranges:
  "list_merge e c us = (c', us') \<Longrightarrow>
     contig_ranges b (c' # us') \<union> {b + hole_size c ..< b + e}
       = contig_ranges b (c # us) \<union> {b + hole_size c ..< b + e}"
proof (induction e c us rule: list_merge.induct)
  case (2 e c u us)
  show ?case
  proof (cases "total_size c + hole_size u \<le> e")
    case True
    let ?c = "c\<lparr>data_size := data_size c + total_size u\<rparr>"
    have tot: "hole_size c + (data_size c + total_size u) = total_size c + total_size u"
      by (simp add: total_size_def)
    have R: "contig_ranges b (?c # us) = {b + hole_size c ..< b + (total_size c + total_size u)}
        \<union> contig_ranges (b + (total_size c + total_size u)) us"
      unfolding contig_ranges.simps contig_update_simps tot by simp
    have IH: "contig_ranges b (c' # us') \<union> {b + hole_size c ..< b + e}
       = contig_ranges b (?c # us) \<union> {b + hole_size c ..< b + e}"
      using 2 True by simp
    have "{b + hole_size c ..< b + (total_size c + total_size u)} \<union> {b + hole_size c ..< b + e}
      = {b + hole_size c ..< b + total_size c} \<union> {b + total_size c + hole_size u ..< b + total_size c + total_size u}
         \<union> {b + hole_size c ..< b + e}"
      using True by (auto simp: total_size_def)
    moreover have "contig_ranges b (c # u # us) = {b + hole_size c ..< b + total_size c}
        \<union> {b + total_size c + hole_size u ..< b + total_size c + total_size u}
        \<union> contig_ranges (b + (total_size c + total_size u)) us"
      by (simp add: add.assoc Un_assoc)
    ultimately show ?thesis
      unfolding IH R by blast
  next
    case False
    then show ?thesis using 2 by simp
  qed
qed simp

lemma list_merge_shape:
  "list_merge e c us = (c', us') \<Longrightarrow>
     hole_size c' = hole_size c \<and> data_size c \<le> data_size c'
     \<and> (\<exists>k \<le> length us. us' = drop k us)
     \<and> (us' = [] \<or> e < total_size c' + hole_size (hd us'))"
proof (induction e c us rule: list_merge.induct)
  case (2 e c u us)
  show ?case
  proof (cases "total_size c + hole_size u \<le> e")
    case True
    then obtain k where "k \<le> length us" "us' = drop k us"
      using 2 by auto
    then have "Suc k \<le> length (u # us) \<and> us' = drop (Suc k) (u # us)" by simp
    then show ?thesis using 2 True by (auto simp del: drop_Suc_Cons)
  next
    case False
    then show ?thesis using 2 by (auto intro: exI [of _ 0])
  qed
qed simp

lemma list_join_cases:
  obtains c' us' where "list_merge e c us = (c', us')" "list_join e c us = list_extend e c' us'"
  by (cases "list_merge e c us") (simp add: list_join_def)

lemma list_extend_ranges:
  assumes "us = [] \<or> e < total_size c + hole_size (hd us)"
  shows "contig_ranges b (list_extend e c us) = contig_ranges b (c # us) \<union> {b + hole_size c ..< b + e}"
proof (cases "total_size c < e")
  case True
  have u: "total_size (c\<lparr>data_size := data_size c + (e - total_size c)\<rparr>) = e"
    using True by (simp add: total_size_def)
  have un: "{b + hole_size c ..< b + e} = {b + hole_size c ..< b + total_size c} \<union> {b + hole_size c ..< b + e}"
    using True by auto
  show ?thesis
  proof (cases us)
    case Nil
    then show ?thesis using True u un by (simp add: list_extend.simps)
  next
    case (Cons v vs)
    then have "e < total_size c + hole_size v" using assms by simp
    then have v: "e + (hole_size v - (e - total_size c)) = total_size c + hole_size v"
      using True by simp
    then have w: "e + (hole_size v - (e - total_size c) + data_size v) = total_size c + total_size v"
      by (simp add: total_size_def)
    have "contig_ranges b (list_extend e c us) = {b + hole_size c ..< b + e}
        \<union> ({b + e + (hole_size v - (e - total_size c)) ..<
             b + e + (hole_size v - (e - total_size c) + data_size v)}
           \<union> contig_ranges (b + e + (hole_size v - (e - total_size c) + data_size v)) vs)"
      using True Cons u [simplified] by (simp add: list_extend.simps)
    moreover have "contig_ranges b (c # us) = {b + hole_size c ..< b + total_size c}
        \<union> ({b + (total_size c + hole_size v) ..< b + (total_size c + total_size v)}
           \<union> contig_ranges (b + (total_size c + total_size v)) vs)"
      using Cons by (simp add: add.assoc)
    ultimately show ?thesis
      using un unfolding add.assoc v w by blast
  qed
next
  case False
  then have "{b + hole_size c ..< b + e} \<subseteq> {b + hole_size c ..< b + total_size c}"
    by auto
  then show ?thesis using False by (auto simp: list_extend.simps)
qed

lemma list_join_ranges:
  "contig_ranges b (list_join e c us) = contig_ranges b (c # us) \<union> {b + hole_size c ..< b + e}"
proof -
  obtain c' us' where m: "list_merge e c us = (c', us')" and j: "list_join e c us = list_extend e c' us'"
    by (rule list_join_cases)
  have "hole_size c' = hole_size c" and "us' = [] \<or> e < total_size c' + hole_size (hd us')"
    using list_merge_shape [OF m] by auto
  then show ?thesis
    using list_extend_ranges list_merge_ranges [OF m] j by simp
qed

lemma list_extend_wf:
  assumes "has_data c" and "list_all has_data us" and "list_all has_hole us"
    and "us = [] \<or> e < total_size c + hole_size (hd us)"
  shows "\<exists>c' us'. list_extend e c us = c' # us' \<and> hole_size c' = hole_size c \<and> has_data c'
     \<and> list_all has_data us' \<and> list_all has_hole us' \<and> length us' = length us"
  using assms by (cases us) (auto simp: list_extend.simps has_data_def total_size_def)

lemma list_join_wf:
  assumes "has_data c" and "list_all has_data us" and "list_all has_hole us"
  shows "\<exists>c' us'. list_join e c us = c' # us' \<and> hole_size c' = hole_size c \<and> has_data c'
     \<and> list_all has_data us' \<and> list_all has_hole us' \<and> length us' \<le> length us"
proof -
  obtain c' us' where m: "list_merge e c us = (c', us')" and j: "list_join e c us = list_extend e c' us'"
    by (rule list_join_cases)
  then obtain k where k: "k \<le> length us" "us' = drop k us" and shape: "hole_size c' = hole_size c"
    "data_size c \<le> data_size c'" "us' = [] \<or> e < total_size c' + hole_size (hd us')"
    using list_merge_shape [OF m] by auto
  have "has_data c'" "list_all has_data us'" "list_all has_hole us'"
    using assms shape(2) k(2) set_drop_subset [of k us] by (auto simp: has_data_def list_all_iff)
  then show ?thesis
    using list_extend_wf [of c' us' e] shape j k by fastforce
qed

lemma list_all_tl: "list_all P xs \<Longrightarrow> list_all P (tl xs)"
  by (cases xs) simp_all

lemma list_add_ranges:
  "list_add k off n us = Some us' \<Longrightarrow>
     contig_ranges b us' = contig_ranges b us \<union> {b + off ..< b + off + n}"
proof (induction k off n us arbitrary: b us' rule: list_add.induct)
  case (2 k off n c us)
  consider (later) "total_size c < off" | (hole) "off + n < hole_size c"
    | (front) "off < hole_size c" "hole_size c \<le> off + n" | (data) "hole_size c \<le> off" "off \<le> total_size c"
    by linarith
  then show ?case
  proof cases
    case later
    then obtain vs where vs: "list_add k (off - total_size c) n us = Some vs" "us' = c # vs"
      using 2(2) by (auto split: if_splits)
    have "contig_ranges (b + total_size c) vs = contig_ranges (b + total_size c) us
        \<union> {b + total_size c + (off - total_size c) ..< b + total_size c + (off - total_size c) + n}"
      by (rule 2(1)) (use later vs in auto)
    then show ?thesis using vs later by (auto simp: Un_assoc)
  next
    case hole
    then have "us' = hole_and_data off n # c\<lparr>hole_size := hole_size c - (off + n)\<rparr> # us"
      using 2(2) hole_le_total [of c] by (auto split: if_splits)
    moreover have "off + n + (hole_size c - (off + n)) = hole_size c"
      and "off + n + (hole_size c - (off + n) + data_size c) = total_size c"
      using hole by (simp_all add: total_size_def)
    ultimately show ?thesis by (simp add: add.assoc Un_ac)
  next
    case front
    then have us': "us' = list_join (off + n) (hole_and_data off (total_size c - off)) us"
      using 2(2) by (auto split: if_splits simp: total_size_def)
    have "off \<le> total_size c" using front(1) hole_le_total [of c] by linarith
    then show ?thesis
      unfolding us' list_join_ranges using front by (auto simp: add.assoc)
  next
    case data
    then have us': "us' = list_join (off + n) c us"
      using 2(2) by (auto split: if_splits)
    show ?thesis
      unfolding us' list_join_ranges using data by (auto simp: add.assoc)
  qed
qed (auto split: if_splits)

lemma list_add_wf:
  "list_add k off n us = Some us' \<Longrightarrow> list_all has_data us \<Longrightarrow> list_all has_hole (tl us) \<Longrightarrow> 0 < n \<Longrightarrow>
     list_all has_data us' \<and> list_all has_hole (tl us')
     \<and> (0 < off \<longrightarrow> list_all has_hole us \<longrightarrow> list_all has_hole us')"
proof (induction k off n us arbitrary: us' rule: list_add.induct)
  case (2 k off n c us)
  show ?case
  proof (cases "total_size c < off")
    case True
    then obtain vs where vs: "list_add k (off - total_size c) n us = Some vs" "us' = c # vs"
      using 2(2) by (auto split: if_splits)
    have "list_all has_hole us" "list_all has_hole (tl us)"
      using 2(4) by (auto simp: list_all_tl)
    then have "list_all has_data vs \<and> list_all has_hole vs"
      using 2(1) [OF _ vs(1)] True 2(3,5) by simp
    then show ?thesis using vs 2(3) by simp
  next
    case False
    then show ?thesis
    proof (cases "off < hole_size c \<and> off + n < hole_size c")
      case True
      then have "us' = hole_and_data off n # c\<lparr>hole_size := hole_size c - (off + n)\<rparr> # us"
        using 2(2) False by (auto split: if_splits)
      then show ?thesis using 2(3-5) True by simp
    next
      case join: False
      define c' where "c' = (if off < hole_size c then hole_and_data off (total_size c - off) else c)"
      have us': "us' = list_join (off + n) c' us"
        using 2(2) False join by (auto split: if_splits simp: c'_def)
      have c': "has_data c'" "0 < off \<longrightarrow> has_hole c \<longrightarrow> has_hole c'"
        using 2(3) False by (auto simp: c'_def has_data_def total_size_def has_hole_def)
      have "list_all has_data us" "list_all has_hole us"
        using 2(3,4) by simp_all
      then obtain d vs where "us' = d # vs" "hole_size d = hole_size c'" "has_data d"
        "list_all has_data vs" "list_all has_hole vs"
        using list_join_wf [OF c'(1), of us "off + n"] us' by auto
      moreover from this have "has_hole d \<longleftrightarrow> has_hole c'" by (simp add: has_hole_def)
      ultimately show ?thesis using c'(2) by simp
    qed
  qed
qed (auto split: if_splits)

lemma list_add_length:
  "list_add k off n us = Some us' \<Longrightarrow> list_all has_data us \<Longrightarrow> list_all has_hole (tl us) \<Longrightarrow> 0 < n \<Longrightarrow>
     length us' \<le> length us + k"
proof (induction k off n us arbitrary: us' rule: list_add.induct)
  case (2 k off n c us)
  have h: "list_all has_data us" "list_all has_hole us" "list_all has_hole (tl us)"
    using 2(3,4) by (auto simp: list_all_tl)
  have join: "length (list_join e d us) \<le> Suc (length us)" if "has_data d" for e d
    using list_join_wf [OF that h(1,2), of e] by auto
  have "has_data c" using 2(3) by simp
  moreover have "has_data (hole_and_data off (total_size c - off))" if "off < hole_size c"
    using that \<open>has_data c\<close> by (simp add: has_data_def total_size_def)
  ultimately have "total_size c < off \<or> length us' \<le> Suc (length us) \<or> 0 < k \<and> length us' \<le> Suc (Suc (length us))"
    using 2(2) join [of c] join [of "hole_and_data off (total_size c - off)"]
    by (auto split: if_splits)
  then show ?case
    using 2(1,2,5) h by (fastforce split: if_splits)
qed (auto split: if_splits)

subsection \<open>The array loops implement the list operations\<close>

lemma shift_right_append:
  "\<forall>i\<in>set is. 0 < i \<and> i < length ys \<Longrightarrow>
     foldl (\<lambda>cs i. cs[i := cs ! (i - 1)]) (ys @ zs) is = foldl (\<lambda>cs i. cs[i := cs ! (i - 1)]) ys is @ zs"
  by (induction "is" arbitrary: ys) (auto simp: list_update_append1 nth_append)

lemma shift_right:
  "at < length cs \<Longrightarrow>
     foldl (\<lambda>cs i. cs[i := cs ! (i - 1)]) cs (rev [at + 1..<length cs])
       = take (at + 1) cs @ butlast (drop at cs)"
proof (induction cs rule: rev_induct)
  case (snoc z ys)
  show ?case
  proof (cases "at < length ys")
    case True
    then have idx: "rev [at + 1..<length (ys @ [z])] = length ys # rev [at + 1..<length ys]"
      by simp
    have upd: "(ys @ [z])[length ys := (ys @ [z]) ! (length ys - 1)] = ys @ [last ys]"
    proof -
      have "ys \<noteq> []" using True by auto
      then show ?thesis using last_conv_nth [of ys] by (simp add: nth_append)
    qed
    have "foldl (\<lambda>cs i. cs[i := cs ! (i - 1)]) (ys @ [last ys]) (rev [at + 1..<length ys])
        = (take (at + 1) ys @ butlast (drop at ys)) @ [last ys]"
      using snoc.IH [OF True] shift_right_append [of "rev [at + 1..<length ys]" ys "[last ys]"] by auto
    moreover have "butlast (drop at ys) @ [last ys] = drop at ys"
      using True append_butlast_last_id [of "drop at ys"] by simp
    ultimately show ?thesis
      unfolding idx foldl_Cons upd using True by (simp add: butlast_append)
  next
    case False
    then show ?thesis using snoc.prems by simp
  qed
qed simp

lemma asm_back_last: "contigs a \<noteq> [] \<Longrightarrow> asm_back a = last (contigs a)"
  by (simp add: asm_back_def last_conv_nth)

lemma add_contig_at_rep:
  assumes "contigs a = pre @ us @ replicate (Suc k) contig_empty"
  shows "add_contig_at (length pre) a
     = (Inr (length pre), a\<lparr>contigs := pre @ contig_empty # us @ replicate k contig_empty\<rparr>)"
proof -
  have unused: "\<not> has_data (asm_back a)"
    using assms by (simp add: asm_back_last)
  have "replicate (Suc k) contig_empty = replicate k contig_empty @ [contig_empty]"
    by (simp add: replicate_append_same)
  then have bl: "butlast (us @ replicate (Suc k) contig_empty) = us @ replicate k contig_empty"
    by (simp only: append_assoc [symmetric] butlast_snoc)
  obtain x xs where xs: "us @ replicate (Suc k) contig_empty = x # xs"
    by (cases "us @ replicate (Suc k) contig_empty") auto
  then have cs: "contigs a = pre @ x # xs" using assms by simp
  have "foldl (\<lambda>cs i. cs[i := cs ! (i - 1)]) (contigs a) (rev [length pre + 1..<length (contigs a)])
      = (pre @ [x]) @ butlast (us @ replicate (Suc k) contig_empty)"
    unfolding xs using shift_right [of "length pre" "contigs a"] by (simp add: cs)
  then show ?thesis
    unfolding add_contig_at_def Let_def bl using unused by simp
qed

lemma add_contig_at_full:
  assumes "contigs a = pre @ c # us" and "list_all has_data (c # us)"
  shows "add_contig_at at a = (Inl TooManyHolesError, a)"
proof -
  have "asm_back a = last (c # us)"
    using assms(1) by (simp add: asm_back_last)
  then show ?thesis
    using assms(2) by (simp add: add_contig_at_def list_all_iff)
qed

lemma coalesce_rep:
  assumes "list_all has_data us"
  shows "coalesce (length pre) e (pre @ c # ms @ us @ replicate k contig_empty) (length pre + 1 + length ms)
     = (pre @ fst (list_merge e c us) # ms @ us @ replicate k contig_empty,
        length pre + 1 + length ms + (length us - length (snd (list_merge e c us))))"
  using assms
proof (induction us arbitrary: c ms)
  case Nil
  then show ?case by (cases k) (simp_all add: coalesce.simps nth_append)
next
  case (Cons u us)
  let ?cs = "pre @ c # ms @ (u # us) @ replicate k contig_empty" and ?j = "length pre + 1 + length ms"
  have at: "?cs ! length pre = c" "?cs ! ?j = u" "?j < length ?cs"
    by (simp_all add: nth_append)
  show ?case
  proof (cases "total_size c + hole_size u \<le> e")
    case True
    let ?c = "c\<lparr>data_size := data_size c + total_size u\<rparr>"
    have "length (snd (list_merge e ?c us)) \<le> length us"
      using list_merge_shape [of e ?c us] by (cases "list_merge e ?c us") auto
    moreover have "coalesce (length pre) e ?cs ?j
        = coalesce (length pre) e (pre @ ?c # (ms @ [u]) @ us @ replicate k contig_empty) (length pre + 1 + length (ms @ [u]))"
      using True Cons.prems at by (subst coalesce.simps) simp
    ultimately show ?thesis
      using Cons.IH [of ?c "ms @ [u]"] Cons.prems True by simp
  next
    case False
    then show ?thesis using at by (subst coalesce.simps) simp
  qed
qed

lemma shift_contigs_rep:
  assumes "list_all has_data us" and "0 < n"
  shows "shift_contigs n (pre @ us @ replicate k contig_empty) (length pre)
     = pre @ drop n us @ replicate (k + min n (length us)) contig_empty"
  using assms(1)
proof (induction us arbitrary: pre)
  case Nil
  then show ?case by (cases k) (simp_all add: shift_contigs.simps nth_append)
next
  case (Cons u us)
  let ?cs = "pre @ (u # us) @ replicate k contig_empty"
  define v where "v = (if length pre + n < length ?cs then ?cs ! (length pre + n) else contig_empty)"
  have v: "v = (if n \<le> length us then us ! (n - 1) else contig_empty)"
    using assms(2) by (auto simp: v_def nth_append nth_Cons')
  have "shift_contigs n ?cs (length pre)
      = shift_contigs n ((pre @ [v]) @ us @ replicate k contig_empty) (length (pre @ [v]))"
    using Cons.prems by (subst shift_contigs.simps) (simp add: v_def)
  also have "\<dots> = (pre @ [v]) @ drop n us @ replicate (k + min n (length us)) contig_empty"
    using Cons.IH [of "pre @ [v]"] Cons.prems by simp
  also have "\<dots> = pre @ drop n (u # us) @ replicate (k + min n (length (u # us))) contig_empty"
  proof (cases "n \<le> length us")
    case True
    then have "drop n (u # us) = v # drop n us"
      using assms(2) v by (cases n) (simp_all add: Cons_nth_drop_Suc)
    then show ?thesis using True by simp
  next
    case False
    then show ?thesis using v by (auto simp: min_def le_Suc_eq)
  qed
  finally show ?case .
qed

text \<open>The last part of \<open>add\<close>, after the contigs behind the coalesced ones have been moved.\<close>

lemma add_extend_rep:
  fixes pre us :: "contig list" and k :: nat
  assumes "list_all has_data us" and "us = [] \<or> e < total_size c + hole_size (hd us)"
  defines "cs \<equiv> pre @ c # us @ replicate k contig_empty" and "i \<equiv> length pre"
  shows "(if e > total_size (cs ! i)
          then do { let left = e - total_size (cs ! i);
                    let cs = cs[i := (cs ! i)\<lparr>data_size := data_size (cs ! i) + left\<rparr>];
                    if i + 1 < length cs \<and> has_data (cs ! (i + 1))
                    then do { h \<leftarrow> checked_sub (hole_size (cs ! (i + 1))) left;
                              Some (cs[i + 1 := (cs ! (i + 1))\<lparr>hole_size := h\<rparr>]) }
                    else Some cs }
          else Some cs) = Some (pre @ list_extend e c us @ replicate k contig_empty)"
proof (cases us)
  case Nil
  then show ?thesis
    by (cases k) (simp_all add: cs_def i_def list_extend.simps Let_def nth_append)
next
  case (Cons u vs)
  then have "has_data u" "e < total_size c + hole_size u" using assms(1,2) by simp_all
  then show ?thesis
    by (auto simp: cs_def i_def list_extend.simps Let_def nth_append list_update_append Cons)
qed

lemma add_tail_rep:
  assumes "list_all has_data us"
  shows "add_tail (length pre) e (pre @ c # us @ replicate k contig_empty)
     = Some (pre @ list_join e c us @ replicate (k + Suc (length us) - length (list_join e c us)) contig_empty)"
proof -
  obtain c' us' where m: "list_merge e c us = (c', us')" and j: "list_join e c us = list_extend e c' us'"
    by (rule list_join_cases)
  then obtain n where n: "n \<le> length us" "us' = drop n us"
    and stop: "us' = [] \<or> e < total_size c' + hole_size (hd us')"
    using list_merge_shape [OF m] by auto
  have len: "length us - length us' = n" using n by simp
  have all: "list_all has_data us'"
    using assms n(2) set_drop_subset [of n us] by (auto simp: list_all_iff)
  have co: "coalesce (length pre) e (pre @ c # us @ replicate k contig_empty) (length pre + 1)
      = (pre @ c' # us @ replicate k contig_empty, length pre + 1 + n)"
    using coalesce_rep [OF assms, of pre e c "[]" k] m len by simp
  have sh: "(if n \<noteq> 0 then shift_contigs n (pre @ c' # us @ replicate k contig_empty) (length pre + 1)
           else pre @ c' # us @ replicate k contig_empty) = pre @ c' # us' @ replicate (k + n) contig_empty"
    using shift_contigs_rep [OF assms, of n "pre @ [c']" k] n by simp
  have "length (list_join e c us) = Suc (length us')"
    unfolding j by (cases us') (simp_all add: list_extend.simps)
  moreover have "k + n = k + Suc (length us) - Suc (length us')" using n by simp
  ultimately have k: "k + n = k + Suc (length us) - length (list_join e c us)" by simp
  have shift: "length pre + 1 + n - length pre - 1 = n" by simp
  show ?thesis
    unfolding add_tail_def co Let_def prod.case shift sh
    using add_extend_rep [OF all stop, of pre "k + n", unfolded Let_def] j k by simp
qed

subsection \<open>\<open>add\<close> on the used contigs\<close>

lemma find_contig_Nil:
  "find_contig (pre @ replicate k contig_empty) (length pre) off
     = (if k = 0 then No_Space else Unused (length pre) off)"
  by (cases k) (simp_all add: find_contig.simps nth_append)

lemma find_contig_Cons:
  assumes "has_data c"
  shows "find_contig (pre @ c # us) (length pre) off
     = (if off \<le> total_size c then Within (length pre) off
        else find_contig ((pre @ [c]) @ us) (length (pre @ [c])) (off - total_size c))"
  by (subst find_contig.simps) (simp add: assms nth_append)

text \<open>What \<open>add\<close> does once its first loop has found the contig.\<close>

definition add_found ::
  "nat \<Rightarrow> assembler \<Rightarrow> contig_search \<Rightarrow> ((too_many_holes_error + unit) \<times> assembler) option" where
  "add_found n a found = (case found of
        No_Space \<Rightarrow> Some (Inl TooManyHolesError, a)
      | Unused i offset \<Rightarrow>
          Some (Inr (), a\<lparr>contigs := (contigs a)[i := hole_and_data offset n]\<rparr>)
      | Within i offset \<Rightarrow>
          let contig = contigs a ! i
          in if offset < hole_size contig
             then if offset + n < hole_size contig
                  then (case add_contig_at i a of
                          (Inl e, a) \<Rightarrow> Some (Inl e, a)
                        | (Inr i, a) \<Rightarrow>
                            do { let cs = (contigs a)[i := hole_and_data offset n];
                                 c \<leftarrow> shrink_hole_by (offset + n) (cs ! (i + 1));
                                 Some (Inr (), a\<lparr>contigs := cs[i + 1 := c]\<rparr>) })
                  else do { c \<leftarrow> shrink_hole_to offset contig;
                            cs \<leftarrow> add_tail i (offset + n) ((contigs a)[i := c]);
                            Some (Inr (), a\<lparr>contigs := cs\<rparr>) }
             else do { cs \<leftarrow> add_tail i (offset + n) (contigs a);
                       Some (Inr (), a\<lparr>contigs := cs\<rparr>) })"

lemma asm_add_found:
  "asm_add off n a = (if n = 0 then Some (Inr (), a) else add_found n a (find_contig (contigs a) 0 off))"
  by (simp add: asm_add_def add_found_def)

lemma add_found_within:
  assumes "contigs a = pre @ (c # us) @ replicate k contig_empty" and "list_all has_data (c # us)"
    and "off \<le> total_size c"
  shows "add_found n a (Within (length pre) off)
     = (case list_add k off n (c # us) of None \<Rightarrow> Some (Inl TooManyHolesError, a)
        | Some us' \<Rightarrow> Some (Inr (), a\<lparr>contigs := pre @ us'
            @ replicate (k + length (c # us) - length us') contig_empty\<rparr>))"
proof -
  have at: "contigs a ! length pre = c" using assms(1) by simp
  have us: "list_all has_data us" using assms(2) by simp
  consider (full) "off + n < hole_size c" "k = 0" | (hole) m where "off + n < hole_size c" "k = Suc m"
    | (front) "off < hole_size c" "hole_size c \<le> off + n" | (data) "hole_size c \<le> off"
    by (cases k) fastforce+
  then show ?thesis
  proof cases
    case full
    then have "add_contig_at (length pre) a = (Inl TooManyHolesError, a)"
      using add_contig_at_full [of a pre c us] assms by simp
    then show ?thesis using full at assms(3) by (simp add: add_found_def Let_def)
  next
    case hole
    then have "add_contig_at (length pre) a
      = (Inr (length pre), a\<lparr>contigs := pre @ contig_empty # (c # us) @ replicate m contig_empty\<rparr>)"
      using add_contig_at_rep [of a pre "c # us" m] assms(1) by simp
    then show ?thesis
      using hole at assms(3)
      by (simp add: add_found_def Let_def shrink_hole_by_def nth_append list_update_append)
  next
    case front
    have eq: "c\<lparr>hole_size := off, data_size := total_size c - off\<rparr> = hole_and_data off (total_size c - off)"
      by (simp add: hole_and_data_def)
    show ?thesis
      using front at assms(1,3) add_tail_rep [OF us, of pre "off + n" "hole_and_data off (total_size c - off)" k]
      by (simp add: add_found_def Let_def shrink_hole_to_def eq)
  next
    case data
    then show ?thesis
      using at assms(1,3) add_tail_rep [OF us, of pre "off + n" c k] by (simp add: add_found_def Let_def)
  qed
qed

lemma add_found_rep:
  assumes "contigs a = pre @ us @ replicate k contig_empty" and "list_all has_data us"
  shows "add_found n a (find_contig (contigs a) (length pre) off)
     = (case list_add k off n us of None \<Rightarrow> Some (Inl TooManyHolesError, a)
        | Some us' \<Rightarrow> Some (Inr (), a\<lparr>contigs := pre @ us'
            @ replicate (k + length us - length us') contig_empty\<rparr>))"
  using assms
proof (induction us arbitrary: pre off)
  case Nil
  then show ?case
    using find_contig_Nil [of pre k off] by (cases k) (simp_all add: add_found_def)
next
  case (Cons c us)
  show ?case
  proof (cases "off \<le> total_size c")
    case True
    then have "find_contig (contigs a) (length pre) off = Within (length pre) off"
      using Cons.prems find_contig_Cons [of c pre "us @ replicate k contig_empty" off] by simp
    then show ?thesis using add_found_within [OF Cons.prems True] by simp
  next
    case False
    then have "find_contig (contigs a) (length pre) off
        = find_contig (contigs a) (length (pre @ [c])) (off - total_size c)"
      using Cons.prems find_contig_Cons [of c pre "us @ replicate k contig_empty" off] by simp
    then show ?thesis
      using Cons.IH [of "pre @ [c]" "off - total_size c"] Cons.prems False
      by (auto split: option.splits)
  qed
qed

lemma contig_ranges_lower: "x \<in> contig_ranges b us \<Longrightarrow> b \<le> x"
proof (induction us arbitrary: b)
  case (Cons c us)
  then show ?case using Cons.IH [of "b + total_size c"] by fastforce
qed simp

lemma contig_ranges_lower_hole:
  "x \<in> contig_ranges b us \<Longrightarrow> list_all has_hole us \<Longrightarrow> b < x"
  using contig_ranges_lower [of x _ "tl us"]
  by (cases us) (fastforce simp: has_hole_def total_size_def)+

lemma contig_ranges_shift: "x \<in> contig_ranges (n + b) us \<longleftrightarrow> n \<le> x \<and> x - n \<in> contig_ranges b us"
proof (induction us arbitrary: b)
  case (Cons c us)
  show ?case
    using Cons.IH [of "b + total_size c"] by (auto simp: add.assoc)
qed simp

lemma list_add_None:
  "list_all has_data us \<Longrightarrow>
     list_add k off n us = None \<longleftrightarrow>
       k = 0 \<and> (\<forall>x\<in>contig_ranges b us. x + 1 < b + off \<or> b + off + n < x)"
proof (induction k off n us arbitrary: b rule: list_add.induct)
  case (2 k off n c us)
  have c: "hole_size c < total_size c"
    using 2(2) by (simp add: has_data_def total_size_def)
  have low: "b + total_size c \<le> x" if "x \<in> contig_ranges (b + total_size c) us" for x
    by (rule contig_ranges_lower [OF that])
  show ?case
  proof (cases "total_size c < off")
    case True
    have "(\<forall>x\<in>contig_ranges (b + total_size c) us.
             x + 1 < b + total_size c + (off - total_size c) \<or> b + total_size c + (off - total_size c) + n < x)
        \<longleftrightarrow> (\<forall>x\<in>contig_ranges b (c # us). x + 1 < b + off \<or> b + off + n < x)"
      using True by auto
    then show ?thesis
      using 2(1) [of "b + total_size c"] 2(2) True by simp
  next
    case False
    show ?thesis
    proof (cases "off + n < hole_size c")
      case True
      then have "\<forall>x\<in>contig_ranges b (c # us). b + off + n < x"
        using c by (auto dest!: low)
      then show ?thesis using False True by auto
    next
      case touch: False
      let ?x = "b + max (hole_size c) (min off (total_size c - 1))"
      have "max (hole_size c) (min off (total_size c - 1)) < total_size c" using c by linarith
      then have "?x \<in> contig_ranges b (c # us)" by simp
      moreover have "\<not> (?x + 1 < b + off \<or> b + off + n < ?x)"
        using touch False c by (auto simp: max_def min_def)
      ultimately have "\<not> (\<forall>x\<in>contig_ranges b (c # us). x + 1 < b + off \<or> b + off + n < x)"
        by blast
      moreover have "list_add k off n (c # us) \<noteq> None" using False touch by simp
      ultimately show ?thesis by blast
    qed
  qed
qed auto

section \<open>The operations on the set of present offsets\<close>

lemma asm_add_cases:
  assumes "asm_inv a"
  obtains (err) "asm_add off n a = Some (Inl TooManyHolesError, a)" and "0 < n"
      and "length (asm_used a) = length (contigs a)"
      and "\<forall>x\<in>asm_present a. x + 1 < off \<or> off + n < x"
  | (ok) a' where "asm_add off n a = Some (Inr (), a')" and "asm_inv a'"
      and "length (contigs a') = length (contigs a)"
      and "asm_present a' = asm_present a \<union> {off ..< off + n}"
      and "n = 0 \<or> length (asm_used a) \<noteq> length (contigs a) \<or> \<not> (\<forall>x\<in>asm_present a. x + 1 < off \<or> off + n < x)"
proof (cases "n = 0")
  case True
  then show ?thesis using ok [of a] assms by (simp add: asm_add_def)
next
  case False
  obtain us k where rep: "contigs a = us @ replicate k contig_empty" "wf_used us" "contigs a \<noteq> []"
    using assms asm_inv_rep by metis
  have all: "list_all has_data us" "list_all has_hole (tl us)"
    using rep(2) by (simp_all add: wf_used_def)
  have used: "asm_used a = us" "asm_present a = contig_ranges 0 us"
    using rep asm_used_rep asm_present_rep by simp_all
  have none: "list_add k off n us = None \<longleftrightarrow> length (asm_used a) = length (contigs a)
      \<and> (\<forall>x\<in>asm_present a. x + 1 < off \<or> off + n < x)"
    using list_add_None [OF all(1), of k off n 0] used rep(1) by simp
  have add: "asm_add off n a = (case list_add k off n us of None \<Rightarrow> Some (Inl TooManyHolesError, a)
        | Some us' \<Rightarrow> Some (Inr (), a\<lparr>contigs := us'
            @ replicate (k + length us - length us') contig_empty\<rparr>))"
    using add_found_rep [of a "[]" us k n off] rep(1) all(1) False
    by (simp add: asm_add_found append_Nil cong: option.case_cong)
  show ?thesis
  proof (cases "list_add k off n us")
    case None
    then show ?thesis using err none add False by simp
  next
    case (Some us')
    let ?a = "a\<lparr>contigs := us' @ replicate (k + length us - length us') contig_empty\<rparr>"
    have len: "length us' \<le> length us + k"
      using list_add_length [OF Some all] False by simp
    have "wf_used us'"
      using list_add_wf [OF Some all] False by (simp add: wf_used_def)
    moreover have "contigs ?a \<noteq> []" using rep(1,3) len by auto
    ultimately have inv: "asm_inv ?a" by (intro asm_invI) simp_all
    have pres: "asm_present ?a = asm_present a \<union> {off ..< off + n}"
      using list_add_ranges [OF Some, of 0] used asm_present_rep [of ?a] by simp
    show ?thesis
      by (rule ok [of ?a]) (use add Some inv pres len rep(1) none in auto)
  qed
qed

lemma remove_contig_loop_rep:
  assumes "list_all has_data (c # us)"
  shows "remove_contig_loop (length pre) (pre @ (c # us) @ replicate k contig_empty)
     = pre @ us @ replicate (Suc k) contig_empty"
  using assms
proof (induction us arbitrary: pre c)
  case Nil
  show ?case
  proof (cases k)
    case 0
    then show ?thesis by (subst remove_contig_loop.simps) simp
  next
    case (Suc m)
    have "remove_contig_loop (length pre) (pre @ [c] @ replicate k contig_empty)
        = remove_contig_loop (length (pre @ [contig_empty])) ((pre @ [contig_empty]) @ contig_empty # replicate m contig_empty)"
      using Nil Suc by (subst remove_contig_loop.simps) (simp add: nth_append)
    also have "\<dots> = (pre @ [contig_empty]) @ contig_empty # replicate m contig_empty"
      by (subst remove_contig_loop.simps) (cases m; simp add: nth_append list_update_append)
    finally show ?thesis using Suc by simp
  qed
next
  case (Cons u us)
  have "remove_contig_loop (length pre) (pre @ (c # u # us) @ replicate k contig_empty)
      = remove_contig_loop (length (pre @ [u])) ((pre @ [u]) @ (u # us) @ replicate k contig_empty)"
    using Cons.prems by (subst remove_contig_loop.simps) (simp add: nth_append)
  also have "\<dots> = (pre @ [u]) @ us @ replicate (Suc k) contig_empty"
    using Cons.IH [of u "pre @ [u]"] Cons.prems by simp
  finally show ?case by simp
qed

lemma asm_remove_front_spec:
  assumes "asm_inv a"
  shows "\<exists>n a'. asm_remove_front a = Some (n, a') \<and> asm_inv a'
     \<and> length (contigs a') = length (contigs a)
     \<and> front_run (asm_present a) n \<and> asm_present a' = shift_down n (asm_present a)"
proof -
  obtain us k where rep: "contigs a = us @ replicate k contig_empty" "wf_used us" "contigs a \<noteq> []"
    using assms asm_inv_rep by metis
  have pres: "asm_present a = contig_ranges 0 us"
    using rep(1) by (rule asm_present_rep)
  show ?thesis
  proof (cases "us = [] \<or> has_hole (hd us)")
    case True
    then have front: "has_hole (asm_front a) \<or> \<not> has_data (asm_front a)"
      using rep(1,3) by (cases us; cases k) (auto simp: asm_front_def)
    have "list_all has_hole us"
      using True rep(2) by (cases us) (auto simp: wf_used_def)
    then have "0 \<notin> asm_present a"
      using contig_ranges_lower_hole [of 0 0 us] pres by auto
    then show ?thesis
      using front assms by (auto simp: asm_remove_front_def front_run_def shift_down_def Let_def)
  next
    case False
    then obtain c vs where us: "us = c # vs" "\<not> has_hole c" by (cases us) auto
    have all: "list_all has_data (c # vs)" "list_all has_hole vs"
      using rep(2) us(1) by (simp_all add: wf_used_def)
    define a' where "a' = a\<lparr>contigs := vs @ replicate (Suc k) contig_empty\<rparr>"
    have "asm_front a = c" using rep(1) us(1) by (simp add: asm_front_def)
    moreover have "remove_contig_at 0 a = Some a'"
      using rep(1) us(1) all remove_contig_loop_rep [OF all(1), of "[]" k]
      by (simp add: remove_contig_at_def a'_def)
    ultimately have call: "asm_remove_front a = Some (data_size c, a')"
      using us(2) all(1) by (simp add: asm_remove_front_def Let_def has_data_def)
    have "wf_used vs" using all by (simp add: wf_used_def list_all_tl)
    then have inv: "asm_inv a'"
      by (intro asm_invI [of _ vs "Suc k"]) (simp_all add: a'_def)
    have tot: "total_size c = data_size c" "hole_size c = 0"
      using us(2) by (simp_all add: total_size_def has_hole_def)
    have pa: "asm_present a = {0 ..< data_size c} \<union> contig_ranges (data_size c) vs"
      using pres us(1) tot by simp
    have run: "front_run (asm_present a) (data_size c)"
      using contig_ranges_lower_hole [OF _ all(2), of "data_size c" "data_size c"]
      by (auto simp: front_run_def pa)
    have "asm_present a' = contig_ranges 0 vs"
      by (rule asm_present_rep [of _ _ "Suc k"]) (simp add: a'_def)
    then have "asm_present a' = shift_down (data_size c) (asm_present a)"
      using contig_ranges_shift [of _ "data_size c" 0 vs] by (auto simp: shift_down_def pa)
    then show ?thesis
      using call inv run rep(1) us(1) by (auto simp: a'_def)
  qed
qed

lemma asm_add_then_remove_front_special:
  assumes "asm_inv a" and "n < hole_size (contigs a ! 0)"
  defines "P \<equiv> asm_present a \<union> {0 ..< 0 + n}"
  shows "\<exists>a'. asm_add_then_remove_front 0 n a = Some (Inr n, a') \<and> asm_inv a'
     \<and> length (contigs a') = length (contigs a) \<and> front_run P n \<and> asm_present a' = shift_down n P"
proof -
  obtain us k where rep: "contigs a = us @ replicate k contig_empty" "wf_used us" "contigs a \<noteq> []"
    using assms(1) asm_inv_rep by metis
  obtain c vs where us: "us = c # vs"
    using assms(2) rep(1,3) by (cases us; cases k) auto
  define c' where "c' = c\<lparr>hole_size := hole_size c - n\<rparr>"
  define a' where "a' = a\<lparr>contigs := (c' # vs) @ replicate k contig_empty\<rparr>"
  have h: "n < hole_size c" using assms(2) rep(1) us by simp
  have call: "asm_add_then_remove_front 0 n a = Some (Inr n, a')"
    using h rep(1) us by (simp add: asm_add_then_remove_front_def a'_def c'_def Let_def)
  have "wf_used (c' # vs)"
    using rep(2) us by (simp add: wf_used_def c'_def)
  then have inv: "asm_inv a'"
    by (intro asm_invI [of _ "c' # vs" k]) (simp_all add: a'_def)
  have "asm_present a = {hole_size c ..< total_size c} \<union> contig_ranges (total_size c) vs"
    using asm_present_rep [OF rep(1)] us by simp
  moreover have "asm_present a' = {hole_size c - n ..< total_size c - n} \<union> contig_ranges (total_size c - n) vs"
    using asm_present_rep [of a' "c' # vs" k] h by (simp add: a'_def c'_def total_size_def)
  moreover have "contig_ranges (n + (total_size c - n)) vs = contig_ranges (total_size c) vs"
    using h by (simp add: total_size_def)
  moreover have "x \<in> contig_ranges (total_size c) vs \<Longrightarrow> n < x" for x
    using contig_ranges_lower [of x "total_size c" vs] h by (simp add: total_size_def)
  ultimately have "front_run P n \<and> asm_present a' = shift_down n P"
    using h contig_ranges_shift [of _ n "total_size c - n" vs]
    by (fastforce simp: front_run_def shift_down_def P_def total_size_def)
  then show ?thesis using call inv rep(1) us by (simp add: a'_def)
qed

lemma asm_add_then_remove_front_cases:
  fixes off n :: nat
  assumes "asm_inv a"
  obtains (err) "asm_add_then_remove_front off n a = Some (Inl TooManyHolesError, a)" and "0 < off" and "0 < n"
      and "length (asm_used a) = length (contigs a)"
      and "\<forall>x\<in>asm_present a. x + 1 < off \<or> off + n < x"
  | (ok) m a' where "asm_add_then_remove_front off n a = Some (Inr m, a')" and "asm_inv a'"
      and "length (contigs a') = length (contigs a)"
      and "front_run (asm_present a \<union> {off ..< off + n}) m"
      and "asm_present a' = shift_down m (asm_present a \<union> {off ..< off + n})"
proof (cases "off = 0 \<and> n < hole_size (contigs a ! 0)")
  case True
  then show ?thesis
    using asm_add_then_remove_front_special [OF assms, of n] ok by auto
next
  case False
  then have call: "asm_add_then_remove_front off n a
      = do { (res, a) \<leftarrow> asm_add off n a;
             case res of Inl e \<Rightarrow> Some (Inl e, a)
             | Inr _ \<Rightarrow> do { (n, a) \<leftarrow> asm_remove_front a; Some (Inr n, a) } }"
    by (simp only: asm_add_then_remove_front_def if_False)
  show ?thesis
  proof (rule asm_add_cases [OF assms, of off n])
    assume e: "asm_add off n a = Some (Inl TooManyHolesError, a)" "0 < n"
      "length (asm_used a) = length (contigs a)" "\<forall>x\<in>asm_present a. x + 1 < off \<or> off + n < x"
    obtain us k where rep: "contigs a = us @ replicate k contig_empty" "wf_used us" "contigs a \<noteq> []"
      using assms asm_inv_rep by metis
    then obtain c vs where us: "us = c # vs" "has_data c"
      using e(3) asm_used_rep [OF rep(1,2)] by (cases us) (auto simp: wf_used_def)
    then have "hole_size c \<in> asm_present a"
      using rep(1) by (simp add: asm_present_def total_size_def has_data_def)
    then have "0 < off" using False e(4) rep(1) us(1) by auto
    then show thesis using err e call by simp
  next
    fix a1
    assume o: "asm_add off n a = Some (Inr (), a1)" "asm_inv a1"
      "length (contigs a1) = length (contigs a)" "asm_present a1 = asm_present a \<union> {off ..< off + n}"
    obtain m a2 where r: "asm_remove_front a1 = Some (m, a2)" "asm_inv a2"
      "length (contigs a2) = length (contigs a1)" "front_run (asm_present a1) m"
      "asm_present a2 = shift_down m (asm_present a1)"
      using asm_remove_front_spec [OF o(2)] by auto
    show thesis
      by (rule ok [of m a2]) (use call o r in simp_all)
  qed
qed

lemma asm_new_inv [simp]: "0 < n \<Longrightarrow> asm_inv (asm_new n)" "asm_present (asm_new n) = {}"
  "length (contigs (asm_new n)) = n"
proof -
  show "0 < n \<Longrightarrow> asm_inv (asm_new n)"
    by (rule asm_invI [of _ "[]" n]) (simp_all add: asm_new_def wf_used_def)
qed (simp_all add: asm_new_def asm_present_def)

lemma asm_clear_inv [simp]: "asm_inv a \<Longrightarrow> asm_inv (asm_clear a)" "asm_present (asm_clear a) = {}"
  "length (contigs (asm_clear a)) = length (contigs a)"
proof -
  show "asm_inv a \<Longrightarrow> asm_inv (asm_clear a)"
    by (rule asm_invI [of _ "[]" "length (contigs a)"]) (simp_all add: asm_clear_def wf_used_def asm_inv_def)
qed (simp_all add: asm_clear_def asm_present_def)

lemma asm_is_empty_iff: "asm_inv a \<Longrightarrow> asm_is_empty a \<longleftrightarrow> asm_present a = {}"
proof -
  assume "asm_inv a"
  then obtain us k where rep: "contigs a = us @ replicate k contig_empty" "wf_used us" "contigs a \<noteq> []"
    using asm_inv_rep by metis
  show ?thesis
  proof (cases us)
    case Nil
    then show ?thesis using rep by (cases k) (auto simp: asm_is_empty_def asm_front_def asm_present_def)
  next
    case (Cons c vs)
    then have "has_data c" using rep(2) by (simp add: wf_used_def)
    then have "hole_size c \<in> asm_present a"
      using rep(1) Cons by (simp add: asm_present_def total_size_def has_data_def)
    then show ?thesis using \<open>has_data c\<close> rep(1) Cons by (auto simp: asm_is_empty_def asm_front_def)
  qed
qed

lemma asm_peek_front_spec:
  assumes "asm_inv a"
  shows "front_run (asm_present a) (asm_peek_front a)"
proof -
  obtain n a' where r: "asm_remove_front a = Some (n, a')" "front_run (asm_present a) n"
    using asm_remove_front_spec [OF assms] by auto
  have "n = asm_peek_front a"
    using r(1) by (auto simp: asm_remove_front_def asm_peek_front_def Let_def has_data_def
        remove_contig_at_def split: if_splits)
  then show ?thesis using r(2) by simp
qed

section \<open>The data ranges\<close>

text \<open>The first \<open>n\<close> items of the iterator.\<close>

primrec asm_iter_take :: "nat \<Rightarrow> assembler_iter \<Rightarrow> (nat \<times> nat) list" where
  "asm_iter_take 0 it = []"
| "asm_iter_take (Suc n) it =
     (case asm_iter_next it of (None, _) \<Rightarrow> [] | (Some r, it) \<Rightarrow> r # asm_iter_take n it)"

primrec range_list :: "nat \<Rightarrow> contig list \<Rightarrow> (nat \<times> nat) list" where
  "range_list base [] = []"
| "range_list base (c # cs) =
     (base + hole_size c, base + total_size c) # range_list (base + total_size c) cs"

lemma asm_iter_next_end:
  assumes "\<forall>j. i \<le> j \<longrightarrow> j < length (contigs a) \<longrightarrow> contigs a ! j = contig_empty"
  shows "fst (asm_iter_next \<lparr>ai_assembler = a, ai_offset = off, ai_index = i, ai_left = l, ai_right = r\<rparr>) = None"
  using assms
proof (induction "length (contigs a) - i" arbitrary: i l r)
  case 0
  then show ?case by (subst asm_iter_next.simps) simp
next
  case (Suc n)
  then have "n = length (contigs a) - (i + 1)" and "i < length (contigs a)" by simp_all
  then show ?case
    using Suc.hyps(1) [of "i + 1"] Suc.prems
    by (subst asm_iter_next.simps) (simp add: Let_def)
qed

lemma asm_iter_take_rep:
  assumes "contigs a = pre @ us @ replicate k contig_empty" and "list_all has_data us"
  shows "asm_iter_take n \<lparr>ai_assembler = a, ai_offset = off, ai_index = length pre, ai_left = l, ai_right = r\<rparr>
     = take n (range_list (l + off) us)"
  using assms
proof (induction us arbitrary: pre l r n)
  case Nil
  then have "fst (asm_iter_next \<lparr>ai_assembler = a, ai_offset = off, ai_index = length pre, ai_left = l, ai_right = r\<rparr>) = None"
    by (intro asm_iter_next_end) (auto simp: nth_append)
  then show ?case by (cases n) (auto split: prod.splits)
next
  case (Cons c us)
  show ?case
  proof (cases n)
    case (Suc m)
    let ?it = "\<lparr>ai_assembler = a, ai_offset = off, ai_index = length (pre @ [c]),
               ai_left = l + total_size c, ai_right = l + total_size c\<rparr>"
    have "asm_iter_next \<lparr>ai_assembler = a, ai_offset = off, ai_index = length pre, ai_left = l, ai_right = r\<rparr>
        = (Some (l + hole_size c + off, l + total_size c + off), ?it)"
      using Cons.prems by (subst asm_iter_next.simps) (simp add: Let_def total_size_def has_data_def)
    then show ?thesis
      using Cons.IH [of "pre @ [c]" m "l + total_size c" "l + total_size c"] Cons.prems Suc
      by (simp add: add.commute add.left_commute)
  qed simp
qed

lemma range_list_union:
  "(\<Union>(l, r)\<in>set (range_list b us). {l ..< r}) = contig_ranges b us"
  by (induction us arbitrary: b) simp_all

lemma range_list_lower: "list_all has_hole us \<Longrightarrow> (l, r) \<in> set (range_list b us) \<Longrightarrow> b < l"
  by (induction us arbitrary: b) (fastforce simp: has_hole_def)+

lemma range_list_separated:
  assumes "list_all has_data us" and "list_all has_hole (tl us)"
  shows "sorted_wrt (\<lambda>r s. snd r < fst s) (range_list b us)
     \<and> (\<forall>r\<in>set (range_list b us). fst r < snd r)"
  using assms
proof (induction us arbitrary: b)
  case (Cons c us)
  then show ?case
    using range_list_lower [of us _ _ "b + total_size c"] list_all_tl [of has_hole us]
    by (auto simp: has_data_def total_size_def)
qed simp

lemma asm_iter_data_rep:
  assumes "asm_inv a"
  shows "asm_iter_take n (asm_iter_data a off) = take n (range_list off (asm_used a))"
proof -
  obtain us k where rep: "contigs a = us @ replicate k contig_empty" "wf_used us" "contigs a \<noteq> []"
    using assms asm_inv_rep by metis
  then show ?thesis
    using asm_iter_take_rep [of a "[]" us k n off 0 0] asm_used_rep [OF rep(1,2)]
    by (simp add: asm_iter_data_def wf_used_def)
qed

lemma length_range_list [simp]: "length (range_list b us) = length us"
  by (induction us arbitrary: b) simp_all

section \<open>The contract\<close>

interpretation asm_tracker: offset_tracker asm_inv asm_present asm_add_then_remove_front
proof
  fix t off n
  assume "asm_inv t"
  then show "(\<exists>e. asm_add_then_remove_front off n t = Some (Inl e, t) \<and> 0 < off)
    \<or> (\<exists>m t'. asm_add_then_remove_front off n t = Some (Inr m, t') \<and> asm_inv t'
         \<and> front_run (asm_present t \<union> {off ..< off + n}) m
         \<and> asm_present t' = shift_down m (asm_present t \<union> {off ..< off + n}))"
    by (rule asm_add_then_remove_front_cases [of t off n]) auto
qed

section \<open>Properties\<close>

text \<open>C18. \<open>add(offset, size)\<close> never panics on a well-formed assembler. Either it succeeds, keeps the
  invariant and the number of slots, and the offsets held afterwards are those held before
  together with the range; or it fails and leaves the assembler as it was.\<close>

theorem asm_add_set_union:
  assumes "asm_inv a"
  shows "\<exists>res a'. asm_add off n a = Some (res, a') \<and> asm_inv a'
     \<and> length (contigs a') = length (contigs a)
     \<and> (case res of Inr _ \<Rightarrow> asm_present a' = asm_present a \<union> {off ..< off + n} | Inl _ \<Rightarrow> a' = a)"
  by (rule asm_add_cases [OF assms, of off n]) (use assms in auto)

theorem asm_add_set_union_witness:
  "\<exists>res a'. asm_add 3 4 \<lparr>contigs = [hole_and_data 1 2, hole_and_data 4 1, contig_empty]\<rparr> = Some (res, a')
     \<and> asm_inv a' \<and> (case res of Inr _ \<Rightarrow> asm_present a' = {1, 2, 7} \<union> {3 ..< 3 + 4}
         | Inl _ \<Rightarrow> a' = \<lparr>contigs = [hole_and_data 1 2, hole_and_data 4 1, contig_empty]\<rparr>)"
proof -
  let ?a = "\<lparr>contigs = [hole_and_data 1 2, hole_and_data 4 1, contig_empty]\<rparr>"
  have inv: "asm_inv ?a" by code_simp
  have p: "asm_present ?a = {1, 2, 7}"
    by (auto simp: asm_present_def)
  show ?thesis using asm_add_set_union [OF inv, of 3 4] unfolding p by blast
qed

text \<open>C19. \<open>add\<close> reports too many holes exactly when every slot is in use and the range neither
  overlaps nor touches one that is held.\<close>

theorem asm_add_error_iff:
  assumes "asm_inv a"
  shows "asm_add off n a = Some (Inl TooManyHolesError, a) \<longleftrightarrow>
     0 < n \<and> length (asm_used a) = length (contigs a)
     \<and> (\<forall>x\<in>asm_present a. x + 1 < off \<or> off + n < x)"
  by (rule asm_add_cases [OF assms, of off n]) auto

theorem asm_add_error_iff_witness:
  "asm_add 5 1 \<lparr>contigs = [hole_and_data 1 2]\<rparr> = Some (Inl TooManyHolesError, \<lparr>contigs = [hole_and_data 1 2]\<rparr>)"
proof -
  let ?a = "\<lparr>contigs = [hole_and_data 1 2]\<rparr>"
  have inv: "asm_inv ?a" by code_simp
  have "asm_present ?a = {1, 2}" "asm_used ?a = contigs ?a"
    by (auto simp: asm_present_def asm_used_def)
  then show ?thesis
    using asm_add_error_iff [OF inv, of 5 1] by simp
qed

text \<open>C20. \<open>add_then_remove_front\<close> returns the length of the run at the front after the range has
  been added and shifts what is left down by it. It never fails at offset 0, so that the next
  expected segment is never dropped; when it fails, the assembler is unchanged.\<close>

theorem add_then_remove_front_run:
  assumes "asm_inv a"
  shows "\<exists>res a'. asm_add_then_remove_front off n a = Some (res, a') \<and> asm_inv a'
     \<and> (case res of
          Inr m \<Rightarrow> front_run (asm_present a \<union> {off ..< off + n}) m
                   \<and> asm_present a' = shift_down m (asm_present a \<union> {off ..< off + n})
        | Inl _ \<Rightarrow> a' = a \<and> off \<noteq> 0)"
  by (rule asm_add_then_remove_front_cases [OF assms, of off n]) (use assms in auto)

theorem add_then_remove_front_run_witness:
  "\<exists>res a'. asm_add_then_remove_front 0 2 \<lparr>contigs = [hole_and_data 2 3]\<rparr> = Some (res, a') \<and> asm_inv a'
     \<and> (case res of
          Inr m \<Rightarrow> front_run {0 ..< 5} m \<and> asm_present a' = shift_down m {0 ..< 5}
        | Inl _ \<Rightarrow> False)"
proof -
  let ?a = "\<lparr>contigs = [hole_and_data 2 3]\<rparr>"
  have inv: "asm_inv ?a" by code_simp
  have p: "asm_present ?a \<union> {0 ..< 0 + 2} = {0 ..< 5}"
    by (auto simp: asm_present_def)
  show ?thesis
    using add_then_remove_front_run [OF inv, of 0 2] unfolding p by (simp cong: sum.case_cong)
qed

text \<open>The iterator over the data ranges, run to its end, lists ranges that are non-empty,
  ascending and separated by holes, and that together are exactly the offsets held, shifted by
  the first offset.\<close>

theorem iter_data_covers:
  fixes off :: nat
  assumes "asm_inv a"
  defines "rs \<equiv> asm_iter_take (length (contigs a)) (asm_iter_data a off)"
  shows "sorted_wrt (\<lambda>r s. snd r < fst s) rs \<and> (\<forall>r\<in>set rs. fst r < snd r)
     \<and> (\<Union>(l, r)\<in>set rs. {l ..< r}) = {x. off \<le> x \<and> x - off \<in> asm_present a}"
proof -
  obtain us k where rep: "contigs a = us @ replicate k contig_empty" "wf_used us" "contigs a \<noteq> []"
    using assms(1) asm_inv_rep by metis
  have used: "asm_used a = us" using asm_used_rep [OF rep(1,2)] .
  have rs: "rs = range_list off us"
    unfolding rs_def using asm_iter_data_rep [OF assms(1), of "length (contigs a)" off] rep(1) used by simp
  show ?thesis
    unfolding rs range_list_union asm_present_rep [OF rep(1)]
    using range_list_separated [of us off] contig_ranges_shift [of _ off 0 us] rep(2)
    by (auto simp: wf_used_def)
qed

theorem iter_data_covers_witness:
  "(\<Union>(l, r)\<in>set (asm_iter_take 2 (asm_iter_data \<lparr>contigs = [hole_and_data 0 100, hole_and_data 200 100]\<rparr> 1500)). {l ..< r})
     = {x. 1500 \<le> x \<and> x - 1500 \<in> {0 ..< 100} \<union> {300 ..< 400}}"
proof -
  let ?a = "\<lparr>contigs = [hole_and_data 0 100, hole_and_data 200 100]\<rparr>"
  have inv: "asm_inv ?a" by code_simp
  have p: "asm_present ?a = {0 ..< 100} \<union> {300 ..< 400}" by (simp add: asm_present_def)
  have len: "length (contigs ?a) = 2" by simp
  show ?thesis
    using iter_data_covers [OF inv, of 1500] unfolding p len by blast
qed

end
