(* ===== verification/Reassembly.thy ===== *)
theory Reassembly
  imports Ring_Buffer Assembler
begin

text \<open>
  The ring buffer and the assembler together: the \<open>reassembly\<close> contract of
  \<^verbatim>\<open>Storage_Interfaces\<close> on the two of them, used the way \<^verbatim>\<open>src/socket/tcp.rs\<close> uses them.
\<close>

interpretation rb_asm: reassembly rb_inv rb_contents rb_capacity rb_enqueue_slice rb_dequeue_slice
  rb_free rb_write_unallocated rb_enqueue_unallocated asm_inv asm_present asm_add_then_remove_front
  by unfold_locales

text \<open>The coherence of the two, written out.\<close>

definition rx_coherent :: "(nat \<Rightarrow> 'a) \<Rightarrow> assembler \<Rightarrow> 'a ring_buffer \<Rightarrow> bool" where
  "rx_coherent s a rb \<longleftrightarrow> rb_inv rb \<and> asm_inv a \<and>
     (\<forall>i\<in>asm_present a. i < rb_window rb \<and> rb_free rb ! i = s i)"

lemma rx_coherent_eq: "rb_asm.coherent s a rb \<longleftrightarrow> rx_coherent s a rb"
  by (simp add: rb_asm.coherent_def rx_coherent_def)

lemma rb_window_free: "(\<lambda>q. length (rb_free q)) = rb_window"
  by (simp add: fun_eq_iff)

definition tcp_reassemble ::
  "nat \<Rightarrow> 'a list \<Rightarrow> assembler \<Rightarrow> 'a ring_buffer \<Rightarrow> ((too_many_holes_error + nat) \<times> assembler \<times> 'a ring_buffer) option" where
  "tcp_reassemble = reassemble asm_add_then_remove_front rb_write_unallocated rb_enqueue_unallocated"

lemma tcp_reassemble_cases:
  assumes "rx_coherent s a rb" and "off + length data \<le> rb_window rb"
    and "\<forall>j<length data. data ! j = s (off + j)"
  obtains (err) e where "tcp_reassemble off data a rb = Some (Inl e, a, rb)" and "0 < off"
  | (ok) m a' rb' where "tcp_reassemble off data a rb = Some (Inr m, a', rb')"
      and "rx_coherent (\<lambda>i. s (m + i)) a' rb'" and "rb_contents rb' = rb_contents rb @ map s [0..<m]"
      and "rb_capacity rb' = rb_capacity rb" and "front_run (asm_present a \<union> {off ..< off + length data}) m"
proof -
  have "rb_asm.coherent s a rb" "off + length data \<le> length (rb_free rb)"
    using assms(1,2) by (simp_all add: rx_coherent_eq)
  then show thesis
    by (rule rb_asm.reassemble_coherent [OF _ _ assms(3)])
      (use err ok in \<open>auto simp: tcp_reassemble_def rx_coherent_eq\<close>)
qed

text \<open>C17. A receiver built from the ring buffer and the assembler gives the application the stream and
  nothing else: for every history of segments (reordered, repeated, overlapping, lost or outside
  of the window) that carry pieces of a stream \<open>s\<close>, with reads in between, no step panics, and what
  has been read followed by what is stored is the prefix of \<open>s\<close> received so far.\<close>

theorem reassembly_delivers_stream:
  assumes "0 < length storage" and "0 < max_segments"
    and "\<forall>pos data. Arrive pos data \<in> set ops \<longrightarrow> (\<forall>j<length data. data ! j = s (pos + j))"
  shows "\<exists>out rcvd a rb. rx_run asm_add_then_remove_front rb_write_unallocated rb_enqueue_unallocated
       rb_dequeue_slice rb_window ops 0 (asm_new max_segments) (rb_new storage) = Some (out, rcvd, a, rb)
     \<and> rb_inv rb \<and> asm_inv a \<and> map s [0..<rcvd] = out @ rb_contents rb"
proof -
  have "rb_inv (rb_new storage)" "rb_contents (rb_new storage) = []"
    using assms(1) by (simp_all add: rb_inv_def rb_new_def rb_contents_def rb_capacity_def del: length_rb_storage)
  then have "rb_asm.coherent (\<lambda>i. s (0 + i)) (asm_new max_segments) (rb_new storage)"
    using assms(2) by (simp add: rb_asm.coherent_def)
  from rb_asm.rx_run_delivers [OF this assms(3)] show ?thesis
    unfolding rb_window_free rb_asm.coherent_def \<open>rb_contents (rb_new storage) = []\<close> append_Nil by blast
qed

theorem reassembly_delivers_stream_witness:
  "\<exists>out rcvd a rb. rx_run asm_add_then_remove_front rb_write_unallocated rb_enqueue_unallocated
       rb_dequeue_slice rb_window [Arrive 2 [2, 3], Read [9], Arrive 0 [0, 1, 2], Read [9, 9]] 0
       (asm_new 4) (rb_new [7, 7, 7, 7]) = Some (out, rcvd, a, rb)
     \<and> rb_inv rb \<and> asm_inv a \<and> map id [0..<rcvd] = out @ rb_contents rb"
  by (rule reassembly_delivers_stream) (auto simp: less_Suc_eq nth_Cons' numeral_2_eq_2)

end
