(* ===== verification/Ip_Types.thy ===== *)
theory Ip_Types
  imports Smoltcp_Prelude
begin

text \<open>
  Addresses, endpoints and the version independent packet representation of
  \<^verbatim>\<open>src/wire/ip.rs\<close>, with the parts of \<^verbatim>\<open>src/wire/ipv4.rs\<close> and \<^verbatim>\<open>src/wire/ipv6.rs\<close>
  they rest on. Both IP versions are compiled in. An address is its array of octets;
  \<open>wf_addr\<close> says that it has the length of its version.
\<close>

unbundle bit_operations_syntax

datatype ip_version = Version_Ipv4 | Version_Ipv6

datatype ip_protocol = HopByHop | Icmp | Igmp | Tcp | Udp | Ipv6Route | Ipv6Frag | IpSecEsp
  | IpSecAh | Icmpv6 | Ipv6NoNxt | Ipv6Opts | Unknown_protocol u8

definition protocol_from_u8 :: "u8 \<Rightarrow> ip_protocol" where
  "protocol_from_u8 v =
     (if v = 0x00 then HopByHop else if v = 0x01 then Icmp else if v = 0x02 then Igmp
      else if v = 0x06 then Tcp else if v = 0x11 then Udp else if v = 0x2b then Ipv6Route
      else if v = 0x2c then Ipv6Frag else if v = 0x32 then IpSecEsp else if v = 0x33 then IpSecAh
      else if v = 0x3a then Icmpv6 else if v = 0x3b then Ipv6NoNxt else if v = 0x3c then Ipv6Opts
      else Unknown_protocol v)"

primrec protocol_into_u8 :: "ip_protocol \<Rightarrow> u8" where
  "protocol_into_u8 HopByHop = 0x00"
| "protocol_into_u8 Icmp = 0x01"
| "protocol_into_u8 Igmp = 0x02"
| "protocol_into_u8 Tcp = 0x06"
| "protocol_into_u8 Udp = 0x11"
| "protocol_into_u8 Ipv6Route = 0x2b"
| "protocol_into_u8 Ipv6Frag = 0x2c"
| "protocol_into_u8 IpSecEsp = 0x32"
| "protocol_into_u8 IpSecAh = 0x33"
| "protocol_into_u8 Icmpv6 = 0x3a"
| "protocol_into_u8 Ipv6NoNxt = 0x3b"
| "protocol_into_u8 Ipv6Opts = 0x3c"
| "protocol_into_u8 (Unknown_protocol v) = v"

lemma protocol_roundtrip [simp]: "protocol_into_u8 (protocol_from_u8 v) = v"
  by (simp add: protocol_from_u8_def)

section \<open>Addresses\<close>

datatype ip_address = Ipv4 "u8 list" | Ipv6 "u8 list"

fun wf_addr :: "ip_address \<Rightarrow> bool" where
  "wf_addr (Ipv4 bs) \<longleftrightarrow> length bs = 4"
| "wf_addr (Ipv6 bs) \<longleftrightarrow> length bs = 16"

fun addr_version :: "ip_address \<Rightarrow> ip_version" where
  "addr_version (Ipv4 _) = Version_Ipv4"
| "addr_version (Ipv6 _) = Version_Ipv6"

fun addr_as_bytes :: "ip_address \<Rightarrow> u8 list" where
  "addr_as_bytes (Ipv4 bs) = bs"
| "addr_as_bytes (Ipv6 bs) = bs"

definition v4_is_broadcast :: "u8 list \<Rightarrow> bool" where
  "v4_is_broadcast bs \<longleftrightarrow> take 4 bs = replicate 4 255"

definition v4_is_multicast :: "u8 list \<Rightarrow> bool" where
  "v4_is_multicast bs \<longleftrightarrow> (bs ! 0) AND 0xf0 = 224"

definition v4_is_unspecified :: "u8 list \<Rightarrow> bool" where
  "v4_is_unspecified bs \<longleftrightarrow> bs ! 0 = 0"

definition v4_is_unicast :: "u8 list \<Rightarrow> bool" where
  "v4_is_unicast bs \<longleftrightarrow> \<not> (v4_is_broadcast bs \<or> v4_is_multicast bs \<or> v4_is_unspecified bs)"

definition v4_is_link_local :: "u8 list \<Rightarrow> bool" where
  "v4_is_link_local bs \<longleftrightarrow> take 2 bs = [169, 254]"

definition v4_is_loopback :: "u8 list \<Rightarrow> bool" where
  "v4_is_loopback bs \<longleftrightarrow> bs ! 0 = 127"

definition v6_is_multicast :: "u8 list \<Rightarrow> bool" where
  "v6_is_multicast bs \<longleftrightarrow> bs ! 0 = 0xff"

definition v6_is_unspecified :: "u8 list \<Rightarrow> bool" where
  "v6_is_unspecified bs \<longleftrightarrow> bs = replicate 16 0"

definition v6_is_unicast :: "u8 list \<Rightarrow> bool" where
  "v6_is_unicast bs \<longleftrightarrow> \<not> (v6_is_multicast bs \<or> v6_is_unspecified bs)"

definition v6_is_link_local :: "u8 list \<Rightarrow> bool" where
  "v6_is_link_local bs \<longleftrightarrow> take 8 bs = [0xfe, 0x80, 0, 0, 0, 0, 0, 0]"

definition v6_is_loopback :: "u8 list \<Rightarrow> bool" where
  "v6_is_loopback bs \<longleftrightarrow> bs = replicate 15 0 @ [1]"

fun addr_is_unicast :: "ip_address \<Rightarrow> bool" where
  "addr_is_unicast (Ipv4 bs) \<longleftrightarrow> v4_is_unicast bs"
| "addr_is_unicast (Ipv6 bs) \<longleftrightarrow> v6_is_unicast bs"

fun addr_is_multicast :: "ip_address \<Rightarrow> bool" where
  "addr_is_multicast (Ipv4 bs) \<longleftrightarrow> v4_is_multicast bs"
| "addr_is_multicast (Ipv6 bs) \<longleftrightarrow> v6_is_multicast bs"

fun addr_is_broadcast :: "ip_address \<Rightarrow> bool" where
  "addr_is_broadcast (Ipv4 bs) \<longleftrightarrow> v4_is_broadcast bs"
| "addr_is_broadcast (Ipv6 _) \<longleftrightarrow> False"

fun addr_is_unspecified :: "ip_address \<Rightarrow> bool" where
  "addr_is_unspecified (Ipv4 bs) \<longleftrightarrow> v4_is_unspecified bs"
| "addr_is_unspecified (Ipv6 bs) \<longleftrightarrow> v6_is_unspecified bs"

section \<open>Endpoints\<close>

record ip_endpoint =
  ep_addr :: ip_address
  ep_port :: u16

record ip_listen_endpoint =
  lep_addr :: "ip_address option"
  lep_port :: u16

definition listen_endpoint_default :: ip_listen_endpoint where
  "listen_endpoint_default = \<lparr>lep_addr = None, lep_port = 0\<rparr>"

definition listen_endpoint_is_specified :: "ip_listen_endpoint \<Rightarrow> bool" where
  "listen_endpoint_is_specified e \<longleftrightarrow> lep_addr e \<noteq> None \<and> lep_port e \<noteq> 0"

section \<open>Packet representation\<close>

record ipv4_repr =
  v4_src_addr :: "u8 list"
  v4_dst_addr :: "u8 list"
  v4_next_header :: ip_protocol
  v4_payload_len :: nat
  v4_hop_limit :: u8

record ipv6_repr =
  v6_src_addr :: "u8 list"
  v6_dst_addr :: "u8 list"
  v6_next_header :: ip_protocol
  v6_payload_len :: nat
  v6_hop_limit :: u8

definition IPV4_HEADER_LEN :: nat where "IPV4_HEADER_LEN = 20"
definition IPV6_HEADER_LEN :: nat where "IPV6_HEADER_LEN = 40"

definition ipv4_buffer_len :: "ipv4_repr \<Rightarrow> nat" where
  "ipv4_buffer_len r = IPV4_HEADER_LEN"

definition ipv6_buffer_len :: "ipv6_repr \<Rightarrow> nat" where
  "ipv6_buffer_len r = IPV6_HEADER_LEN"

datatype ip_repr = Ipv4_Repr ipv4_repr | Ipv6_Repr ipv6_repr

text \<open>\<open>IpRepr::new\<close> panics when the versions differ.\<close>

fun ip_repr_new ::
  "ip_address \<Rightarrow> ip_address \<Rightarrow> ip_protocol \<Rightarrow> nat \<Rightarrow> u8 \<Rightarrow> ip_repr option" where
  "ip_repr_new (Ipv4 src) (Ipv4 dst) next_header payload_len hop_limit =
     Some (Ipv4_Repr \<lparr>v4_src_addr = src, v4_dst_addr = dst, v4_next_header = next_header,
       v4_payload_len = payload_len, v4_hop_limit = hop_limit\<rparr>)"
| "ip_repr_new (Ipv6 src) (Ipv6 dst) next_header payload_len hop_limit =
     Some (Ipv6_Repr \<lparr>v6_src_addr = src, v6_dst_addr = dst, v6_next_header = next_header,
       v6_payload_len = payload_len, v6_hop_limit = hop_limit\<rparr>)"
| "ip_repr_new _ _ _ _ _ = None"

fun ip_repr_version :: "ip_repr \<Rightarrow> ip_version" where
  "ip_repr_version (Ipv4_Repr _) = Version_Ipv4"
| "ip_repr_version (Ipv6_Repr _) = Version_Ipv6"

fun ip_src_addr :: "ip_repr \<Rightarrow> ip_address" where
  "ip_src_addr (Ipv4_Repr r) = Ipv4 (v4_src_addr r)"
| "ip_src_addr (Ipv6_Repr r) = Ipv6 (v6_src_addr r)"

fun ip_dst_addr :: "ip_repr \<Rightarrow> ip_address" where
  "ip_dst_addr (Ipv4_Repr r) = Ipv4 (v4_dst_addr r)"
| "ip_dst_addr (Ipv6_Repr r) = Ipv6 (v6_dst_addr r)"

fun ip_next_header :: "ip_repr \<Rightarrow> ip_protocol" where
  "ip_next_header (Ipv4_Repr r) = v4_next_header r"
| "ip_next_header (Ipv6_Repr r) = v6_next_header r"

fun ip_payload_len :: "ip_repr \<Rightarrow> nat" where
  "ip_payload_len (Ipv4_Repr r) = v4_payload_len r"
| "ip_payload_len (Ipv6_Repr r) = v6_payload_len r"

fun ip_set_payload_len :: "nat \<Rightarrow> ip_repr \<Rightarrow> ip_repr" where
  "ip_set_payload_len n (Ipv4_Repr r) = Ipv4_Repr (r\<lparr>v4_payload_len := n\<rparr>)"
| "ip_set_payload_len n (Ipv6_Repr r) = Ipv6_Repr (r\<lparr>v6_payload_len := n\<rparr>)"

fun ip_hop_limit :: "ip_repr \<Rightarrow> u8" where
  "ip_hop_limit (Ipv4_Repr r) = v4_hop_limit r"
| "ip_hop_limit (Ipv6_Repr r) = v6_hop_limit r"

fun ip_header_len :: "ip_repr \<Rightarrow> nat" where
  "ip_header_len (Ipv4_Repr r) = ipv4_buffer_len r"
| "ip_header_len (Ipv6_Repr r) = ipv6_buffer_len r"

definition ip_buffer_len :: "ip_repr \<Rightarrow> nat" where
  "ip_buffer_len r = ip_header_len r + ip_payload_len r"

lemma ip_set_payload_len_simps [simp]:
  "ip_payload_len (ip_set_payload_len n r) = n"
  "ip_src_addr (ip_set_payload_len n r) = ip_src_addr r"
  "ip_dst_addr (ip_set_payload_len n r) = ip_dst_addr r"
  "ip_header_len (ip_set_payload_len n r) = ip_header_len r"
  "ip_hop_limit (ip_set_payload_len n r) = ip_hop_limit r"
  "ip_next_header (ip_set_payload_len n r) = ip_next_header r"
  by (cases r; simp add: ipv4_buffer_len_def ipv6_buffer_len_def)+

lemma ip_repr_new_eq:
  "addr_version src = addr_version dst \<Longrightarrow> \<exists>r. ip_repr_new src dst p n h = Some r
     \<and> ip_src_addr r = src \<and> ip_dst_addr r = dst \<and> ip_next_header r = p \<and> ip_payload_len r = n
     \<and> ip_hop_limit r = h"
  by (cases src; cases dst) auto

lemma ip_repr_same_version: "addr_version (ip_src_addr r) = addr_version (ip_dst_addr r)"
  by (cases r) simp_all

end
