(* ===== verification/Seq_Number.thy ===== *)
theory Seq_Number
  imports Smoltcp_Prelude
begin

text \<open>
  TCP sequence numbers (\<^verbatim>\<open>SeqNumber\<close> of \<^verbatim>\<open>src/wire/tcp.rs\<close>): 32 bit words compared by the
  sign of their wrapped difference. Adding or subtracting more than \<open>i32::MAX\<close> and subtracting
  a later number panic.
\<close>

type_synonym seq_number = u32

definition i32_max :: nat where "i32_max = 2147483647"

definition seq_lt :: "seq_number \<Rightarrow> seq_number \<Rightarrow> bool" where
  "seq_lt a b \<longleftrightarrow> sint (a - b) < 0"

definition seq_gt :: "seq_number \<Rightarrow> seq_number \<Rightarrow> bool" where
  "seq_gt a b \<longleftrightarrow> sint (a - b) > 0"

definition seq_le :: "seq_number \<Rightarrow> seq_number \<Rightarrow> bool" where
  "seq_le a b \<longleftrightarrow> sint (a - b) \<le> 0"

definition seq_ge :: "seq_number \<Rightarrow> seq_number \<Rightarrow> bool" where
  "seq_ge a b \<longleftrightarrow> sint (a - b) \<ge> 0"

definition seq_max :: "seq_number \<Rightarrow> seq_number \<Rightarrow> seq_number" where
  "seq_max a b = (if seq_gt a b then a else b)"

definition seq_min :: "seq_number \<Rightarrow> seq_number \<Rightarrow> seq_number" where
  "seq_min a b = (if seq_lt a b then a else b)"

definition seq_add :: "seq_number \<Rightarrow> nat \<Rightarrow> seq_number option" where
  "seq_add s n = (if n > i32_max then None else Some (s + of_nat n))"

definition seq_sub :: "seq_number \<Rightarrow> nat \<Rightarrow> seq_number option" where
  "seq_sub s n = (if n > i32_max then None else Some (s - of_nat n))"

definition seq_diff :: "seq_number \<Rightarrow> seq_number \<Rightarrow> nat option" where
  "seq_diff a b = (let result = sint (a - b) in if result < 0 then None else Some (nat result))"

section \<open>Offsets from a common base\<close>

text \<open>
  The code compares numbers that lie within half of the number space of a common base. There
  the wrapped comparison is the comparison of the offsets, whatever the base is.
\<close>

lemma sint_small_int:
  assumes "- (2 ^ 31) \<le> i" and "i < 2 ^ 31"
  shows "sint (word_of_int i :: u32) = i"
  using assms by (simp add: sint_sbintrunc' signed_take_bit_int_eq_self)

lemma seq_offset_sint:
  assumes "\<bar>int i - int j\<bar> < 2 ^ 31"
  shows "sint (((base::u32) + of_nat i) - (base + of_nat j)) = int i - int j"
proof -
  have "(base + of_nat i) - (base + of_nat j) = (word_of_int (int i - int j) :: u32)"
    by simp
  moreover have "- (2 ^ 31) \<le> int i - int j" "int i - int j < 2 ^ 31"
    using assms by (auto simp: abs_less_iff)
  ultimately show ?thesis
    using sint_small_int [of "int i - int j"] by simp
qed

lemma seq_offset_cmp:
  assumes "\<bar>int i - int j\<bar> < 2 ^ 31"
  shows "seq_lt (base + of_nat i) (base + of_nat j) \<longleftrightarrow> i < j"
    and "seq_le (base + of_nat i) (base + of_nat j) \<longleftrightarrow> i \<le> j"
    and "seq_gt (base + of_nat i) (base + of_nat j) \<longleftrightarrow> j < i"
    and "seq_ge (base + of_nat i) (base + of_nat j) \<longleftrightarrow> j \<le> i"
  unfolding seq_lt_def seq_le_def seq_gt_def seq_ge_def seq_offset_sint [OF assms] by auto

lemma seq_offset_diff:
  assumes "j \<le> i" and "i - j \<le> i32_max"
  shows "seq_diff (base + of_nat i) (base + of_nat j) = Some (i - j)"
proof -
  have "\<bar>int i - int j\<bar> < 2 ^ 31" using assms by (simp add: i32_max_def)
  then show ?thesis
    using assms(1) unfolding seq_diff_def Let_def by (simp only: seq_offset_sint) simp
qed

lemma seq_offset_minmax:
  assumes "\<bar>int i - int j\<bar> < 2 ^ 31"
  shows "seq_max (base + of_nat i) (base + of_nat j) = base + of_nat (max i j)"
    and "seq_min (base + of_nat i) (base + of_nat j) = base + of_nat (min i j)"
  using seq_offset_cmp [OF assms] by (auto simp: seq_max_def seq_min_def max_def min_def)

lemma seq_add_Some: "n \<le> i32_max \<Longrightarrow> seq_add s n = Some (s + of_nat n)"
  by (simp add: seq_add_def)

lemma seq_add_bind [simp]: "n \<le> i32_max \<Longrightarrow> seq_add s n \<bind> f = f (s + of_nat n)"
  by (simp add: seq_add_def)

lemma seq_sub_bind [simp]: "n \<le> i32_max \<Longrightarrow> seq_sub s n \<bind> f = f (s - of_nat n)"
  by (simp add: seq_sub_def)

lemma sint_nonneg_unat: "0 \<le> sint (w::u32) \<Longrightarrow> nat (sint w) = unat w"
proof -
  assume "0 \<le> sint w"
  moreover have "sint w < 2 ^ 32" using sint_lt [of w] by simp
  ultimately have "uint w = sint w"
    by (simp add: uint_sint take_bit_int_eq_self)
  then show ?thesis by (metis nat_uint_eq)
qed

text \<open>Every number is a non-negative offset from every other.\<close>

lemma seq_as_offset: "(a::u32) = b + of_nat (unat (a - b))"
  by simp

lemma seq_ge_offset: "seq_ge a b \<longleftrightarrow> unat (a - b) \<le> i32_max"
proof
  assume "seq_ge a b"
  then have nn: "0 \<le> sint (a - b)" by (simp add: seq_ge_def)
  have "int (unat (a - b)) = sint (a - b)"
    using sint_nonneg_unat [OF nn] nn by linarith
  moreover have "sint (a - b) < 2147483648" using sint_lt [of "a - b"] by simp
  ultimately show "unat (a - b) \<le> i32_max"
    unfolding i32_max_def by linarith
next
  assume "unat (a - b) \<le> i32_max"
  then have "int (unat (a - b)) < 2147483648" unfolding i32_max_def by linarith
  then have "\<bar>int (unat (a - b)) - int 0\<bar> < 2 ^ 31" by simp
  then show "seq_ge a b"
    using seq_offset_cmp(4) [of "unat (a - b)" 0 b] by simp
qed

lemma seq_diff_eq: "seq_diff a b = (if unat (a - b) \<le> i32_max then Some (unat (a - b)) else None)"
proof (cases "unat (a - b) \<le> i32_max")
  case True
  then show ?thesis using seq_offset_diff [of 0 "unat (a - b)" b] by simp
next
  case False
  then have "sint (a - b) < 0" using seq_ge_offset [of a b] by (simp add: seq_ge_def not_le)
  then show ?thesis using False by (simp add: seq_diff_def)
qed

end
