(* ===== verification/Tcp_Repr.thy ===== *)
theory Tcp_Repr
  imports Seq_Number
begin

text \<open>
  The high-level representation of a TCP segment, \<^verbatim>\<open>Control\<close> and \<^verbatim>\<open>Repr\<close> of
  \<^verbatim>\<open>src/wire/tcp.rs\<close>, with the length functions the socket uses.
\<close>

datatype tcp_control = Ctl_None | Ctl_Psh | Ctl_Syn | Ctl_Fin | Ctl_Rst

fun control_len :: "tcp_control \<Rightarrow> nat" where
  "control_len Ctl_Syn = 1"
| "control_len Ctl_Fin = 1"
| "control_len _ = 0"

fun quash_psh :: "tcp_control \<Rightarrow> tcp_control" where
  "quash_psh Ctl_Psh = Ctl_None"
| "quash_psh c = c"

type_synonym sack_ranges = "(u32 \<times> u32) option \<times> (u32 \<times> u32) option \<times> (u32 \<times> u32) option"

record tcp_repr =
  r_src_port :: u16
  r_dst_port :: u16
  r_control :: tcp_control
  r_seq_number :: seq_number
  r_ack_number :: "seq_number option"
  r_window_len :: u16
  r_window_scale :: "u8 option"
  r_max_seg_size :: "u16 option"
  r_sack_permitted :: bool
  r_sack_ranges :: sack_ranges
  r_payload :: "u8 list"

definition TCP_HEADER_LEN :: nat where "TCP_HEADER_LEN = 20"

definition sack_range_len :: "sack_ranges \<Rightarrow> nat" where
  "sack_range_len rs = (case rs of (a, b, c) \<Rightarrow>
     (if a = None then 0 else 8) + (if b = None then 0 else 8) + (if c = None then 0 else 8))"

definition repr_header_len :: "tcp_repr \<Rightarrow> nat" where
  "repr_header_len r =
     (let length1 = TCP_HEADER_LEN;
          length2 = (if r_max_seg_size r \<noteq> None then length1 + 4 else length1);
          length3 = (if r_window_scale r \<noteq> None then length2 + 3 else length2);
          length4 = (if r_sack_permitted r then length3 + 2 else length3);
          sack_len = sack_range_len (r_sack_ranges r);
          length5 = (if sack_len > 0 then length4 + (sack_len + 2) else length4)
      in if length5 mod 4 \<noteq> 0 then length5 + (4 - length5 mod 4) else length5)"

definition repr_buffer_len :: "tcp_repr \<Rightarrow> nat" where
  "repr_buffer_len r = repr_header_len r + length (r_payload r)"

definition repr_segment_len :: "tcp_repr \<Rightarrow> nat" where
  "repr_segment_len r = length (r_payload r) + control_len (r_control r)"

definition repr_is_empty :: "tcp_repr \<Rightarrow> bool" where
  "repr_is_empty r =
     (if r_payload r \<noteq> [] then False
      else case r_control r of Ctl_Syn \<Rightarrow> False | Ctl_Fin \<Rightarrow> False | Ctl_Rst \<Rightarrow> False
           | Ctl_None \<Rightarrow> True | Ctl_Psh \<Rightarrow> True)"

lemma control_len_le: "control_len c \<le> 1"
  by (cases c) simp_all

lemma round_up_4:
  fixes n :: nat
  shows "n \<le> (if n mod 4 \<noteq> 0 then n + (4 - n mod 4) else n)"
    and "n \<le> 55 \<Longrightarrow> (if n mod 4 \<noteq> 0 then n + (4 - n mod 4) else n) \<le> 56"
    and "(if n mod 4 \<noteq> 0 then n + (4 - n mod 4) else n) mod 4 = 0"
  by presburger+

definition repr_options_len :: "tcp_repr \<Rightarrow> nat" where
  "repr_options_len r = (if r_max_seg_size r \<noteq> None then 4 else 0)
     + (if r_window_scale r \<noteq> None then 3 else 0) + (if r_sack_permitted r then 2 else 0)
     + (if sack_range_len (r_sack_ranges r) > 0 then sack_range_len (r_sack_ranges r) + 2 else 0)"

lemma sack_range_len_le: "sack_range_len rs \<le> 24"
  by (simp add: sack_range_len_def split: prod.splits)

lemma repr_options_len_le: "repr_options_len r \<le> 35"
  using sack_range_len_le [of "r_sack_ranges r"] by (simp add: repr_options_len_def)

lemma repr_header_len_eq:
  "repr_header_len r = (let n = 20 + repr_options_len r in if n mod 4 \<noteq> 0 then n + (4 - n mod 4) else n)"
proof -
  define n where "n = (let length1 = TCP_HEADER_LEN;
          length2 = (if r_max_seg_size r \<noteq> None then length1 + 4 else length1);
          length3 = (if r_window_scale r \<noteq> None then length2 + 3 else length2);
          length4 = (if r_sack_permitted r then length3 + 2 else length3);
          sack_len = sack_range_len (r_sack_ranges r)
      in if sack_len > 0 then length4 + (sack_len + 2) else length4)"
  have "n = 20 + repr_options_len r"
    by (simp add: n_def Let_def repr_options_len_def TCP_HEADER_LEN_def)
  moreover have "repr_header_len r = (if n mod 4 \<noteq> 0 then n + (4 - n mod 4) else n)"
    by (simp only: repr_header_len_def n_def Let_def)
  ultimately show ?thesis by (simp only: Let_def)
qed

lemma repr_header_len_bounds:
  "20 \<le> repr_header_len r" "repr_header_len r \<le> 56" "repr_header_len r mod 4 = 0"
  using round_up_4 [of "20 + repr_options_len r"] repr_options_len_le [of r]
  unfolding repr_header_len_eq Let_def by linarith+

end
