(* ===== verification/Smol_Time.thy ===== *)
theory Smol_Time
  imports Smoltcp_Prelude "HOL-Library.Signed_Division"
begin

text \<open>
  The time types of \<^verbatim>\<open>src/time.rs\<close>. An \<open>Instant\<close> is a signed and a \<open>Duration\<close> an unsigned
  number of microseconds. They are modelled without the 64 bit bound, which is about 292,000
  years away; the panics of the duration operators are kept. Integer division and remainder of
  Rust round towards zero, which is \<open>sdiv\<close> and \<open>smod\<close>.
\<close>

type_synonym instant = int
type_synonym duration = nat

definition instant_from_micros :: "int \<Rightarrow> instant" where
  "instant_from_micros us = us"

definition instant_from_millis :: "int \<Rightarrow> instant" where
  "instant_from_millis ms = ms * 1000"

definition instant_from_secs :: "int \<Rightarrow> instant" where
  "instant_from_secs s = s * 1000000"

definition instant_millis :: "instant \<Rightarrow> int" where
  "instant_millis t = (t smod 1000000) sdiv 1000"

definition instant_micros :: "instant \<Rightarrow> int" where
  "instant_micros t = t smod 1000000"

definition instant_secs :: "instant \<Rightarrow> int" where
  "instant_secs t = t sdiv 1000000"

definition instant_total_millis :: "instant \<Rightarrow> int" where
  "instant_total_millis t = t sdiv 1000"

definition instant_total_micros :: "instant \<Rightarrow> int" where
  "instant_total_micros t = t"

definition duration_from_micros :: "nat \<Rightarrow> duration" where
  "duration_from_micros us = us"

definition duration_from_millis :: "nat \<Rightarrow> duration" where
  "duration_from_millis ms = ms * 1000"

definition duration_from_secs :: "nat \<Rightarrow> duration" where
  "duration_from_secs s = s * 1000000"

definition duration_millis :: "duration \<Rightarrow> nat" where
  "duration_millis d = d div 1000 mod 1000"

definition duration_micros :: "duration \<Rightarrow> nat" where
  "duration_micros d = d mod 1000000"

definition duration_secs :: "duration \<Rightarrow> nat" where
  "duration_secs d = d div 1000000"

definition duration_total_millis :: "duration \<Rightarrow> nat" where
  "duration_total_millis d = d div 1000"

definition duration_total_micros :: "duration \<Rightarrow> nat" where
  "duration_total_micros d = d"

subsection \<open>The operators\<close>

definition instant_add :: "instant \<Rightarrow> duration \<Rightarrow> instant" where
  "instant_add t d = instant_from_micros (t + int (duration_total_micros d))"

definition instant_sub :: "instant \<Rightarrow> duration \<Rightarrow> instant" where
  "instant_sub t d = instant_from_micros (t - int (duration_total_micros d))"

definition instant_diff :: "instant \<Rightarrow> instant \<Rightarrow> duration" where
  "instant_diff t u = duration_from_micros (nat \<bar>t - u\<bar>)"

definition duration_add :: "duration \<Rightarrow> duration \<Rightarrow> duration" where
  "duration_add d e = duration_from_micros (d + duration_total_micros e)"

definition duration_sub :: "duration \<Rightarrow> duration \<Rightarrow> duration option" where
  "duration_sub d e = map_option duration_from_micros (checked_sub d (duration_total_micros e))"

definition duration_mul :: "duration \<Rightarrow> nat \<Rightarrow> duration" where
  "duration_mul d k = duration_from_micros (d * k)"

definition duration_div :: "duration \<Rightarrow> nat \<Rightarrow> duration option" where
  "duration_div d k = (if k = 0 then None else Some (duration_from_micros (d div k)))"

definition duration_shl :: "duration \<Rightarrow> nat \<Rightarrow> duration" where
  "duration_shl d k = duration_from_micros (d * 2 ^ k)"

definition duration_shr :: "duration \<Rightarrow> nat \<Rightarrow> duration" where
  "duration_shr d k = duration_from_micros (d div 2 ^ k)"

lemmas time_defs = instant_from_micros_def instant_from_millis_def instant_from_secs_def
  instant_add_def instant_sub_def instant_diff_def duration_from_micros_def duration_from_millis_def
  duration_from_secs_def duration_total_micros_def duration_add_def duration_mul_def

lemma instant_add_mono: "t \<le> instant_add t d"
  by (simp add: time_defs)

lemma instant_add_diff: "u \<le> t \<Longrightarrow> instant_add u (instant_diff t u) = t"
  by (simp add: time_defs)

lemma duration_split: "duration_secs d * 1000000 + duration_micros d = d"
  by (simp add: duration_secs_def duration_micros_def)

end
