(* ===== verification/Tcp_Timers.thy ===== *)
theory Tcp_Timers
  imports Seq_Number Smol_Time
begin

text \<open>
  The timers of a TCP socket (\<^verbatim>\<open>src/socket/tcp.rs\<close>): the round trip time estimator, the
  retransmission/keep-alive/close timer, the delayed-ACK timer, and \<open>PollAt\<close> of
  \<^verbatim>\<open>src/socket/mod.rs\<close> with its derived order. The estimator keeps its milliseconds in 32 bit
  words, which wrap.
\<close>

section \<open>When to poll\<close>

datatype poll_at = PollNow | PollTime instant | PollIngress

instantiation poll_at :: linorder
begin

definition less_eq_poll_at :: "poll_at \<Rightarrow> poll_at \<Rightarrow> bool" where
  "p \<le> q \<longleftrightarrow> (case (p, q) of
      (PollNow, _) \<Rightarrow> True
    | (PollTime t, PollNow) \<Rightarrow> False
    | (PollTime t, PollTime u) \<Rightarrow> t \<le> u
    | (PollTime t, PollIngress) \<Rightarrow> True
    | (PollIngress, PollIngress) \<Rightarrow> True
    | (PollIngress, _) \<Rightarrow> False)"

definition less_poll_at :: "poll_at \<Rightarrow> poll_at \<Rightarrow> bool" where
  "p < q \<longleftrightarrow> p \<le> q \<and> \<not> q \<le> (p::poll_at)"

instance
  by standard (auto simp: less_eq_poll_at_def less_poll_at_def split: poll_at.splits)

end

text \<open>\<open>due p now\<close>: a caller that polls as \<open>p\<close> asks for polls at \<open>now\<close> at the latest.\<close>

fun due :: "poll_at \<Rightarrow> instant \<Rightarrow> bool" where
  "due PollNow now \<longleftrightarrow> True"
| "due (PollTime t) now \<longleftrightarrow> t \<le> now"
| "due PollIngress now \<longleftrightarrow> False"

lemma due_antimono: "p \<le> q \<Longrightarrow> due q now \<Longrightarrow> due p now"
  by (cases p; cases q) (auto simp: less_eq_poll_at_def)

lemma due_min: "due (min p q) now \<longleftrightarrow> due p now \<or> due q now"
proof (cases "p \<le> q")
  case True
  then show ?thesis using due_antimono by (auto simp: min_def)
next
  case False
  then show ?thesis using due_antimono [of q p] by (auto simp: min_def)
qed

section \<open>The round trip time estimator\<close>

definition RTTE_INITIAL_RTT :: u32 where "RTTE_INITIAL_RTT = 300"
definition RTTE_INITIAL_DEV :: u32 where "RTTE_INITIAL_DEV = 100"
definition RTTE_MIN_MARGIN :: u32 where "RTTE_MIN_MARGIN = 5"
definition RTTE_MIN_RTO :: u32 where "RTTE_MIN_RTO = 10"
definition RTTE_MAX_RTO :: u32 where "RTTE_MAX_RTO = 10000"

lemmas rtte_consts = RTTE_INITIAL_RTT_def RTTE_INITIAL_DEV_def RTTE_MIN_MARGIN_def
  RTTE_MIN_RTO_def RTTE_MAX_RTO_def

record rtt_estimator =
  rtt :: u32
  deviation :: u32
  rtt_timestamp :: "(instant \<times> seq_number) option"
  max_seq_sent :: "seq_number option"
  rto_count :: u8

definition rtte_default :: rtt_estimator where
  "rtte_default = \<lparr>rtt = RTTE_INITIAL_RTT, deviation = RTTE_INITIAL_DEV, rtt_timestamp = None,
     max_seq_sent = None, rto_count = 0\<rparr>"

definition retransmission_timeout :: "rtt_estimator \<Rightarrow> duration" where
  "retransmission_timeout e =
     (let margin = max RTTE_MIN_MARGIN (deviation e * 4);
          ms = max RTTE_MIN_RTO (min RTTE_MAX_RTO (rtt e + margin))
      in duration_from_millis (unat ms))"

text \<open>\<open>as i32\<close> and \<open>unsigned_abs\<close>: the wrapped difference, read as signed.\<close>

definition rtte_sample :: "u32 \<Rightarrow> rtt_estimator \<Rightarrow> rtt_estimator" where
  "rtte_sample new_rtt e =
     (let rtt' = (rtt e * 7 + new_rtt + 7) div 8;
          diff = (of_nat (nat \<bar>sint (rtt' - new_rtt)\<bar>) :: u32);
          dev' = (deviation e * 3 + diff + 3) div 4
      in e\<lparr>rtt := rtt', deviation := dev', rto_count := 0\<rparr>)"

definition rtte_on_send :: "instant \<Rightarrow> seq_number \<Rightarrow> rtt_estimator \<Rightarrow> rtt_estimator" where
  "rtte_on_send timestamp seq e =
     (if (case max_seq_sent e of Some m \<Rightarrow> seq_gt seq m | None \<Rightarrow> True)
      then let e = e\<lparr>max_seq_sent := Some seq\<rparr>
           in if rtt_timestamp e = None then e\<lparr>rtt_timestamp := Some (timestamp, seq)\<rparr> else e
      else e)"

definition rtte_on_ack :: "instant \<Rightarrow> seq_number \<Rightarrow> rtt_estimator \<Rightarrow> rtt_estimator" where
  "rtte_on_ack timestamp seq e =
     (case rtt_timestamp e of
        Some (sent_timestamp, sent_seq) \<Rightarrow>
          if seq_ge seq sent_seq
          then let e = rtte_sample
                 (of_nat (duration_total_millis (instant_diff timestamp sent_timestamp))) e
               in e\<lparr>rtt_timestamp := None\<rparr>
          else e
      | None \<Rightarrow> e)"

definition rtte_on_retransmit :: "rtt_estimator \<Rightarrow> rtt_estimator" where
  "rtte_on_retransmit e =
     (let e = e\<lparr>rtt_timestamp := None\<rparr>;
          e = e\<lparr>rto_count := (if rto_count e = 255 then 255 else rto_count e + 1)\<rparr>
      in if rto_count e \<ge> 3
         then e\<lparr>rto_count := 0, rtt := min RTTE_MAX_RTO (rtt e * 2)\<rparr>
         else e)"

section \<open>The timer\<close>

datatype timer =
    Timer_Idle "instant option"
  | Timer_Retransmit instant duration
  | Timer_FastRetransmit
  | Timer_Close instant

definition ACK_DELAY_DEFAULT :: duration where
  "ACK_DELAY_DEFAULT = duration_from_millis 10"

definition CLOSE_DELAY :: duration where
  "CLOSE_DELAY = duration_from_millis 10000"

definition timer_new :: timer where
  "timer_new = Timer_Idle None"

fun timer_should_keep_alive :: "timer \<Rightarrow> instant \<Rightarrow> bool" where
  "timer_should_keep_alive (Timer_Idle (Some keep_alive_at)) timestamp \<longleftrightarrow> timestamp \<ge> keep_alive_at"
| "timer_should_keep_alive _ timestamp \<longleftrightarrow> False"

fun timer_should_retransmit :: "timer \<Rightarrow> instant \<Rightarrow> duration option" where
  "timer_should_retransmit (Timer_Retransmit expires_at delay) timestamp =
     (if timestamp \<ge> expires_at
      then Some (duration_add (instant_diff timestamp expires_at) delay) else None)"
| "timer_should_retransmit Timer_FastRetransmit timestamp = Some (duration_from_millis 0)"
| "timer_should_retransmit _ timestamp = None"

fun timer_should_close :: "timer \<Rightarrow> instant \<Rightarrow> bool" where
  "timer_should_close (Timer_Close expires_at) timestamp \<longleftrightarrow> timestamp \<ge> expires_at"
| "timer_should_close _ timestamp \<longleftrightarrow> False"

fun timer_poll_at :: "timer \<Rightarrow> poll_at" where
  "timer_poll_at (Timer_Idle (Some keep_alive_at)) = PollTime keep_alive_at"
| "timer_poll_at (Timer_Idle None) = PollIngress"
| "timer_poll_at (Timer_Retransmit expires_at _) = PollTime expires_at"
| "timer_poll_at Timer_FastRetransmit = PollNow"
| "timer_poll_at (Timer_Close expires_at) = PollTime expires_at"

definition timer_set_for_idle :: "instant \<Rightarrow> duration option \<Rightarrow> timer" where
  "timer_set_for_idle timestamp interval = Timer_Idle (map_option (instant_add timestamp) interval)"

fun timer_set_keep_alive :: "timer \<Rightarrow> timer" where
  "timer_set_keep_alive (Timer_Idle None) = Timer_Idle (Some (instant_from_millis 0))"
| "timer_set_keep_alive t = t"

fun timer_rewind_keep_alive :: "instant \<Rightarrow> duration option \<Rightarrow> timer \<Rightarrow> timer" where
  "timer_rewind_keep_alive timestamp interval (Timer_Idle _) =
     Timer_Idle (map_option (instant_add timestamp) interval)"
| "timer_rewind_keep_alive timestamp interval t = t"

fun timer_set_for_retransmit :: "instant \<Rightarrow> duration \<Rightarrow> timer \<Rightarrow> timer" where
  "timer_set_for_retransmit timestamp delay (Timer_Idle _) =
     Timer_Retransmit (instant_add timestamp delay) delay"
| "timer_set_for_retransmit timestamp delay Timer_FastRetransmit =
     Timer_Retransmit (instant_add timestamp delay) delay"
| "timer_set_for_retransmit timestamp _ (Timer_Retransmit expires_at delay) =
     (if timestamp \<ge> expires_at
      then Timer_Retransmit (instant_add timestamp delay) (duration_mul delay 2)
      else Timer_Retransmit expires_at delay)"
| "timer_set_for_retransmit timestamp delay (Timer_Close expires_at) = Timer_Close expires_at"

definition timer_set_for_fast_retransmit :: timer where
  "timer_set_for_fast_retransmit = Timer_FastRetransmit"

definition timer_set_for_close :: "instant \<Rightarrow> timer" where
  "timer_set_for_close timestamp = Timer_Close (instant_add timestamp CLOSE_DELAY)"

fun timer_is_retransmit :: "timer \<Rightarrow> bool" where
  "timer_is_retransmit (Timer_Retransmit _ _) \<longleftrightarrow> True"
| "timer_is_retransmit Timer_FastRetransmit \<longleftrightarrow> True"
| "timer_is_retransmit _ \<longleftrightarrow> False"

datatype ack_delay_timer = Ack_Idle | Ack_Waiting instant | Ack_Immediate

section \<open>Facts\<close>

lemma rto_bounds:
  "duration_from_millis 10 \<le> retransmission_timeout e"
  "retransmission_timeout e \<le> duration_from_millis 10000"
proof -
  let ?ms = "max RTTE_MIN_RTO (min RTTE_MAX_RTO (rtt e + max RTTE_MIN_MARGIN (deviation e * 4)))"
  have "10 \<le> ?ms" and "?ms \<le> 10000"
    by (simp_all add: rtte_consts)
  then have "10 \<le> unat ?ms" and "unat ?ms \<le> 10000"
    by (simp_all add: word_le_nat_alt)
  then show "duration_from_millis 10 \<le> retransmission_timeout e"
    and "retransmission_timeout e \<le> duration_from_millis 10000"
    by (simp_all add: retransmission_timeout_def Let_def duration_from_millis_def)
qed

text \<open>The timer asks to be polled exactly when one of its three events is due.\<close>

lemma timer_poll_at_due:
  "due (timer_poll_at t) now \<longleftrightarrow>
     timer_should_keep_alive t now \<or> timer_should_retransmit t now \<noteq> None \<or> timer_should_close t now"
proof (cases t)
  case (Timer_Idle k)
  then show ?thesis by (cases k) auto
qed auto

lemma timer_backoff:
  assumes "expires_at \<le> now"
  shows "timer_set_for_retransmit now d (Timer_Retransmit expires_at delay)
           = Timer_Retransmit (instant_add now delay) (2 * delay)"
  using assms by (simp add: time_defs)

end
