(* ===== verification/Congestion.thy ===== *)
theory Congestion
  imports Tcp_Timers
begin

text \<open>
  Congestion control (\<^verbatim>\<open>src/socket/tcp/congestion.rs\<close>): the controller interface and the
  controllers \<open>NoControl\<close> and \<open>Reno\<close>. \<open>Cubic\<close> computes with floating point numbers and is
  not modelled; the feature that selects it is off. \<open>reno_enabled\<close> is the cargo feature
  \<open>socket-tcp-reno\<close>.
\<close>

definition usize_max :: nat where "usize_max = 2 ^ 64 - 1"

definition saturating_add :: "nat \<Rightarrow> nat \<Rightarrow> nat" where
  "saturating_add a b = min usize_max (a + b)"

record reno =
  cwnd :: nat
  min_cwnd :: nat
  ssthresh :: nat
  rwnd :: nat

definition reno_new :: reno where
  "reno_new = \<lparr>cwnd = 1024 * 2, min_cwnd = 1024 * 2, ssthresh = usize_max, rwnd = 64 * 1024\<rparr>"

definition reno_on_ack :: "nat \<Rightarrow> reno \<Rightarrow> reno" where
  "reno_on_ack len r =
     (let (len, r) = (if cwnd r < ssthresh r then (len, r) else (min_cwnd r, r\<lparr>ssthresh := cwnd r\<rparr>))
      in r\<lparr>cwnd := max (min_cwnd r) (min (rwnd r) (saturating_add (cwnd r) len))\<rparr>)"

definition reno_on_duplicate_ack :: "reno \<Rightarrow> reno" where
  "reno_on_duplicate_ack r = r\<lparr>ssthresh := max (min_cwnd r) (cwnd r div 2)\<rparr>"

definition reno_on_retransmit :: "reno \<Rightarrow> reno" where
  "reno_on_retransmit r = r\<lparr>cwnd := max (min_cwnd r) (cwnd r div 2)\<rparr>"

definition reno_set_mss :: "nat \<Rightarrow> reno \<Rightarrow> reno" where
  "reno_set_mss mss r = r\<lparr>min_cwnd := mss\<rparr>"

definition reno_set_remote_window :: "nat \<Rightarrow> reno \<Rightarrow> reno" where
  "reno_set_remote_window remote_window r =
     (if rwnd r < remote_window then r\<lparr>rwnd := remote_window\<rparr> else r)"

datatype any_controller = NoControl | Reno reno

definition any_controller_new :: "bool \<Rightarrow> any_controller" where
  "any_controller_new reno_enabled = (if reno_enabled then Reno reno_new else NoControl)"

fun cc_window :: "any_controller \<Rightarrow> nat" where
  "cc_window NoControl = usize_max"
| "cc_window (Reno r) = cwnd r"

fun cc_set_remote_window :: "nat \<Rightarrow> any_controller \<Rightarrow> any_controller" where
  "cc_set_remote_window w NoControl = NoControl"
| "cc_set_remote_window w (Reno r) = Reno (reno_set_remote_window w r)"

fun cc_on_ack :: "instant \<Rightarrow> nat \<Rightarrow> rtt_estimator \<Rightarrow> any_controller \<Rightarrow> any_controller" where
  "cc_on_ack now len rtte NoControl = NoControl"
| "cc_on_ack now len rtte (Reno r) = Reno (reno_on_ack len r)"

fun cc_on_retransmit :: "instant \<Rightarrow> any_controller \<Rightarrow> any_controller" where
  "cc_on_retransmit now NoControl = NoControl"
| "cc_on_retransmit now (Reno r) = Reno (reno_on_retransmit r)"

fun cc_on_duplicate_ack :: "instant \<Rightarrow> any_controller \<Rightarrow> any_controller" where
  "cc_on_duplicate_ack now NoControl = NoControl"
| "cc_on_duplicate_ack now (Reno r) = Reno (reno_on_duplicate_ack r)"

text \<open>Neither controller overrides \<open>pre_transmit\<close> and \<open>post_transmit\<close>, whose default does nothing.\<close>

definition cc_pre_transmit :: "instant \<Rightarrow> any_controller \<Rightarrow> any_controller" where
  "cc_pre_transmit now c = c"

definition cc_post_transmit :: "instant \<Rightarrow> nat \<Rightarrow> any_controller \<Rightarrow> any_controller" where
  "cc_post_transmit now len c = c"

fun cc_set_mss :: "nat \<Rightarrow> any_controller \<Rightarrow> any_controller" where
  "cc_set_mss mss NoControl = NoControl"
| "cc_set_mss mss (Reno r) = Reno (reno_set_mss mss r)"

section \<open>Bounds of the congestion window\<close>

text \<open>
  The window stays between the minimum and the larger of the minimum and the receiver's window,
  as long as the minimum is not raised above the current window. \<open>set_mss\<close> can do that: it
  changes the minimum and leaves the window alone, until the next event.
\<close>

definition reno_inv :: "reno \<Rightarrow> bool" where
  "reno_inv r \<longleftrightarrow> min_cwnd r \<le> cwnd r \<and> cwnd r \<le> max (min_cwnd r) (rwnd r)"

lemma reno_new_inv: "reno_inv reno_new"
  by (simp add: reno_inv_def reno_new_def)

lemma reno_on_ack_inv: "reno_inv (reno_on_ack len r)"
  by (auto simp: reno_inv_def reno_on_ack_def Let_def)

lemma reno_on_retransmit_inv: "reno_inv r \<Longrightarrow> reno_inv (reno_on_retransmit r)"
  by (auto simp: reno_inv_def reno_on_retransmit_def)

lemma reno_on_duplicate_ack_inv: "reno_inv r \<Longrightarrow> reno_inv (reno_on_duplicate_ack r)"
  by (auto simp: reno_inv_def reno_on_duplicate_ack_def)

lemma reno_set_remote_window_inv: "reno_inv r \<Longrightarrow> reno_inv (reno_set_remote_window w r)"
  by (auto simp: reno_inv_def reno_set_remote_window_def)

datatype reno_event = Ev_ack nat | Ev_dup_ack | Ev_retransmit | Ev_remote_window nat | Ev_mss nat

fun reno_event_step :: "reno \<Rightarrow> reno_event \<Rightarrow> reno" where
  "reno_event_step r (Ev_ack len) = reno_on_ack len r"
| "reno_event_step r Ev_dup_ack = reno_on_duplicate_ack r"
| "reno_event_step r Ev_retransmit = reno_on_retransmit r"
| "reno_event_step r (Ev_remote_window w) = reno_set_remote_window w r"
| "reno_event_step r (Ev_mss mss) = reno_set_mss mss r"



end
