(* ===== verification/Smol_Rand.thy ===== *)
theory Smol_Rand
  imports Smoltcp_Prelude
begin

text \<open>
  The random number generator of \<^verbatim>\<open>src/rand.rs\<close> (sPCG32). \<open>rand_source_port\<close> draws until a
  number is above 1024, which need not end, so that it is an option: \<open>None\<close> is the loop that
  does not return.
\<close>

unbundle bit_operations_syntax

record rand = rand_state :: u64

definition rand_new :: "u64 \<Rightarrow> rand" where
  "rand_new seed = \<lparr>rand_state = seed\<rparr>"

definition rand_u32 :: "rand \<Rightarrow> u32 \<times> rand" where
  "rand_u32 r =
     (let s = rand_state r * 0xbb2efcec3c39611d + 0x7590ef39;
          shift = 29 - drop_bit 61 s
      in (ucast (drop_bit (unat shift) s), r\<lparr>rand_state := s\<rparr>))"

definition rand_u16 :: "rand \<Rightarrow> u16 \<times> rand" where
  "rand_u16 r = (let (n, r) = rand_u32 r in (ucast (n XOR drop_bit 16 n), r))"

partial_function (option) rand_source_port :: "rand \<Rightarrow> (u16 \<times> rand) option" where
  [code]: "rand_source_port r =
     (let (res, r) = rand_u16 r in if res > 1024 then Some (res, r) else rand_source_port r)"

text \<open>The shift stays between 22 and 29, so that the result is made of the high bits.\<close>

lemma rand_shift_bounds:
  fixes s :: u64
  shows "22 \<le> unat (29 - drop_bit 61 s)" and "unat (29 - drop_bit 61 s) \<le> 29"
proof -
  have "unat (drop_bit 61 s) = unat s div 2 ^ 61"
    unfolding unat_drop_bit_eq by (rule drop_bit_eq_div)
  also have "\<dots> < 8"
  proof -
    have "unat s < 2 ^ 64" by (rule unsigned_less [THEN order_less_le_trans]) simp
    then show ?thesis by (simp add: less_mult_imp_div_less)
  qed
  finally have d: "unat (drop_bit 61 s) < 8" .
  then have "drop_bit 61 s \<le> 29"
    by (simp add: word_le_nat_alt)
  then have "unat (29 - drop_bit 61 s) = 29 - unat (drop_bit 61 s)"
    by (simp add: unat_sub)
  with d show "22 \<le> unat (29 - drop_bit 61 s)" and "unat (29 - drop_bit 61 s) \<le> 29"
    by simp_all
qed

text \<open>A port that is returned is never a privileged one.\<close>

lemma rand_source_port_bound:
  assumes "rand_source_port r = Some (p, r')"
  shows "p > 1024"
proof -
  have "rand_source_port r = Some y \<Longrightarrow> fst y > 1024" for y
    by (erule rand_source_port.raw_induct [rotated]) (auto simp: Let_def split: prod.splits if_splits)
  then show ?thesis using assms by force
qed

end
