(* ===== verification/Tcp_Socket.thy ===== *)
theory Tcp_Socket
  imports Reassembly Ip_Types Tcp_Repr Congestion Smol_Rand
begin

text \<open>
  The TCP socket of \<^verbatim>\<open>src/socket/tcp.rs\<close>: its state and the operations the application calls.
  The receive path is in \<^verbatim>\<open>Tcp_Process\<close>, the transmit path in \<^verbatim>\<open>Tcp_Dispatch\<close>.

  \<open>None\<close> is a panic. The wakers of the \<open>async\<close> feature and the log output are left out. The
  \<open>Context\<close> (the interface) is what the socket reads of it: the time, the IP MTU and the state of
  the random number generator; the choice of a source address is a function argument.
\<close>

section \<open>Types\<close>

datatype listen_error = Listen_InvalidState | Listen_Unaddressable
datatype connect_error = Connect_InvalidState | Connect_Unaddressable
datatype send_error = Send_InvalidState
datatype recv_error = Recv_InvalidState | Recv_Finished

type_synonym socket_buffer = "u8 ring_buffer"

datatype tcp_state = Closed | Listen | SynSent | SynReceived | Established | FinWait1 | FinWait2
  | CloseWait | Closing | LastAck | TimeWait

record tcp_tuple =
  t_local :: ip_endpoint
  t_remote :: ip_endpoint

datatype congestion_control = CC_None | CC_Reno

record tcp_socket =
  s_state :: tcp_state
  s_timer :: timer
  s_rtte :: rtt_estimator
  s_assembler :: assembler
  s_rx_buffer :: socket_buffer
  s_rx_fin_received :: bool
  s_tx_buffer :: socket_buffer
  s_timeout :: "duration option"
  s_keep_alive :: "duration option"
  s_hop_limit :: "u8 option"
  s_listen_endpoint :: ip_listen_endpoint
  s_bound_endpoint :: ip_listen_endpoint
  s_tuple :: "tcp_tuple option"
  s_local_seq_no :: seq_number
  s_remote_seq_no :: seq_number
  s_remote_last_seq :: seq_number
  s_remote_last_ack :: "seq_number option"
  s_remote_last_win :: u16
  s_remote_win_shift :: u8
  s_remote_win_len :: nat
  s_remote_win_scale :: "u8 option"
  s_remote_has_sack :: bool
  s_remote_mss :: nat
  s_remote_last_ts :: "instant option"
  s_local_rx_last_seq :: "seq_number option"
  s_local_rx_last_ack :: "seq_number option"
  s_local_rx_dup_acks :: u8
  s_ack_delay :: "duration option"
  s_ack_delay_timer :: ack_delay_timer
  s_challenge_ack_timer :: instant
  s_nagle :: bool
  s_congestion_controller :: any_controller

record tcp_context =
  cx_now :: instant
  cx_ip_mtu :: nat
  cx_rand :: rand

definition DEFAULT_MSS :: nat where "DEFAULT_MSS = 536"

definition ASSEMBLER_MAX_SEGMENT_COUNT :: nat where "ASSEMBLER_MAX_SEGMENT_COUNT = 4"

section \<open>Construction and reset\<close>

text \<open>\<open>size_of::<usize>() * 8 - n.leading_zeros()\<close>: the number of bits of \<open>n\<close>.\<close>

fun bit_length :: "nat \<Rightarrow> nat" where
  "bit_length n = (if n = 0 then 0 else Suc (bit_length (n div 2)))"

declare bit_length.simps [simp del]

definition window_shift :: "nat \<Rightarrow> u8" where
  "window_shift rx_capacity = of_nat (bit_length rx_capacity - 16)"

definition tcp_new :: "bool \<Rightarrow> socket_buffer \<Rightarrow> socket_buffer \<Rightarrow> tcp_socket option" where
  "tcp_new reno_enabled rx_buffer tx_buffer =
     (let rx_capacity = rb_capacity rx_buffer
      in if rx_capacity > 2 ^ 30 then None
         else Some \<lparr>
            s_state = Closed,
            s_timer = timer_new,
            s_rtte = rtte_default,
            s_assembler = asm_new ASSEMBLER_MAX_SEGMENT_COUNT,
            s_rx_buffer = rx_buffer,
            s_rx_fin_received = False,
            s_tx_buffer = tx_buffer,
            s_timeout = None,
            s_keep_alive = None,
            s_hop_limit = None,
            s_listen_endpoint = listen_endpoint_default,
            s_bound_endpoint = listen_endpoint_default,
            s_tuple = None,
            s_local_seq_no = 0,
            s_remote_seq_no = 0,
            s_remote_last_seq = 0,
            s_remote_last_ack = None,
            s_remote_last_win = 0,
            s_remote_win_shift = window_shift rx_capacity,
            s_remote_win_len = 0,
            s_remote_win_scale = None,
            s_remote_has_sack = False,
            s_remote_mss = DEFAULT_MSS,
            s_remote_last_ts = None,
            s_local_rx_last_seq = None,
            s_local_rx_last_ack = None,
            s_local_rx_dup_acks = 0,
            s_ack_delay = Some ACK_DELAY_DEFAULT,
            s_ack_delay_timer = Ack_Idle,
            s_challenge_ack_timer = instant_from_secs 0,
            s_nagle = True,
            s_congestion_controller = any_controller_new reno_enabled\<rparr>)"

definition tcp_set_state :: "tcp_state \<Rightarrow> tcp_socket \<Rightarrow> tcp_socket" where
  "tcp_set_state st s = s\<lparr>s_state := st\<rparr>"

definition tcp_reset :: "tcp_socket \<Rightarrow> tcp_socket" where
  "tcp_reset s = s\<lparr>
     s_state := Closed,
     s_timer := timer_new,
     s_rtte := rtte_default,
     s_assembler := asm_new ASSEMBLER_MAX_SEGMENT_COUNT,
     s_tx_buffer := rb_clear (s_tx_buffer s),
     s_rx_buffer := rb_clear (s_rx_buffer s),
     s_rx_fin_received := False,
     s_listen_endpoint := listen_endpoint_default,
     s_tuple := None,
     s_local_seq_no := 0,
     s_remote_seq_no := 0,
     s_remote_last_seq := 0,
     s_remote_last_ack := None,
     s_remote_last_win := 0,
     s_remote_win_len := 0,
     s_remote_win_scale := None,
     s_remote_win_shift := window_shift (rb_capacity (s_rx_buffer s)),
     s_remote_mss := DEFAULT_MSS,
     s_remote_last_ts := None,
     s_ack_delay_timer := Ack_Idle,
     s_challenge_ack_timer := instant_from_secs 0\<rparr>"

section \<open>Options\<close>

fun tcp_set_congestion_control :: "congestion_control \<Rightarrow> tcp_socket \<Rightarrow> tcp_socket" where
  "tcp_set_congestion_control CC_None s = s\<lparr>s_congestion_controller := NoControl\<rparr>"
| "tcp_set_congestion_control CC_Reno s = s\<lparr>s_congestion_controller := Reno reno_new\<rparr>"

definition tcp_congestion_control :: "tcp_socket \<Rightarrow> congestion_control" where
  "tcp_congestion_control s =
     (case s_congestion_controller s of NoControl \<Rightarrow> CC_None | Reno _ \<Rightarrow> CC_Reno)"

definition scaled_window :: "tcp_socket \<Rightarrow> u16" where
  "scaled_window s =
     of_nat (min (rb_window (s_rx_buffer s) div 2 ^ unat (s_remote_win_shift s)) (2 ^ 16 - 1))"

definition tcp_set_timeout :: "duration option \<Rightarrow> tcp_socket \<Rightarrow> tcp_socket" where
  "tcp_set_timeout d s = s\<lparr>s_timeout := d\<rparr>"

definition tcp_set_ack_delay :: "duration option \<Rightarrow> tcp_socket \<Rightarrow> tcp_socket" where
  "tcp_set_ack_delay d s = s\<lparr>s_ack_delay := d\<rparr>"

definition tcp_set_nagle_enabled :: "bool \<Rightarrow> tcp_socket \<Rightarrow> tcp_socket" where
  "tcp_set_nagle_enabled b s = s\<lparr>s_nagle := b\<rparr>"

definition tcp_set_keep_alive :: "duration option \<Rightarrow> tcp_socket \<Rightarrow> tcp_socket" where
  "tcp_set_keep_alive interval s =
     (let s = s\<lparr>s_keep_alive := interval\<rparr>
      in if s_keep_alive s \<noteq> None then s\<lparr>s_timer := timer_set_keep_alive (s_timer s)\<rparr> else s)"

definition tcp_set_hop_limit :: "u8 option \<Rightarrow> tcp_socket \<Rightarrow> tcp_socket option" where
  "tcp_set_hop_limit hop_limit s =
     (if hop_limit = Some 0 then None else Some (s\<lparr>s_hop_limit := hop_limit\<rparr>))"

definition tcp_local_endpoint :: "tcp_socket \<Rightarrow> ip_endpoint option" where
  "tcp_local_endpoint s = map_option t_local (s_tuple s)"

definition tcp_remote_endpoint :: "tcp_socket \<Rightarrow> ip_endpoint option" where
  "tcp_remote_endpoint s = map_option t_remote (s_tuple s)"

definition tcp_set_bound_endpoint :: "ip_listen_endpoint \<Rightarrow> tcp_socket \<Rightarrow> tcp_socket" where
  "tcp_set_bound_endpoint e s = s\<lparr>s_bound_endpoint := e\<rparr>"

section \<open>State queries\<close>

definition is_listening :: "tcp_socket \<Rightarrow> bool" where
  "is_listening s \<longleftrightarrow> s_state s = Listen"

definition is_open :: "tcp_socket \<Rightarrow> bool" where
  "is_open s \<longleftrightarrow> (case s_state s of Closed \<Rightarrow> False | TimeWait \<Rightarrow> False | _ \<Rightarrow> True)"

definition is_active :: "tcp_socket \<Rightarrow> bool" where
  "is_active s \<longleftrightarrow>
     (case s_state s of Closed \<Rightarrow> False | TimeWait \<Rightarrow> False | Listen \<Rightarrow> False | _ \<Rightarrow> True)"

definition may_send :: "tcp_socket \<Rightarrow> bool" where
  "may_send s \<longleftrightarrow> (case s_state s of Established \<Rightarrow> True | CloseWait \<Rightarrow> True | _ \<Rightarrow> False)"

definition may_recv :: "tcp_socket \<Rightarrow> bool" where
  "may_recv s \<longleftrightarrow>
     (case s_state s of Established \<Rightarrow> True | FinWait1 \<Rightarrow> True | FinWait2 \<Rightarrow> True
      | _ \<Rightarrow> \<not> rb_is_empty (s_rx_buffer s))"

definition can_send :: "tcp_socket \<Rightarrow> bool" where
  "can_send s \<longleftrightarrow> (if \<not> may_send s then False else \<not> rb_is_full (s_tx_buffer s))"

definition can_recv :: "tcp_socket \<Rightarrow> bool" where
  "can_recv s \<longleftrightarrow> (if \<not> may_recv s then False else \<not> rb_is_empty (s_rx_buffer s))"

definition recv_capacity :: "tcp_socket \<Rightarrow> nat" where
  "recv_capacity s = rb_capacity (s_rx_buffer s)"

definition send_capacity :: "tcp_socket \<Rightarrow> nat" where
  "send_capacity s = rb_capacity (s_tx_buffer s)"

definition send_queue :: "tcp_socket \<Rightarrow> nat" where
  "send_queue s = rb_len (s_tx_buffer s)"

definition recv_queue :: "tcp_socket \<Rightarrow> nat" where
  "recv_queue s = rb_len (s_rx_buffer s)"

section \<open>Opening and closing\<close>

definition tcp_listen :: "ip_listen_endpoint \<Rightarrow> tcp_socket \<Rightarrow> (listen_error + unit) \<times> tcp_socket" where
  "tcp_listen local_endpoint s =
     (if lep_port local_endpoint = 0 then (Inl Listen_Unaddressable, s)
      else if is_open s
      then if s_state s = Listen \<and> s_listen_endpoint s = local_endpoint then (Inr (), s)
           else (Inl Listen_InvalidState, s)
      else let s = tcp_reset s;
               s = s\<lparr>s_listen_endpoint := local_endpoint\<rparr>;
               s = s\<lparr>s_tuple := None\<rparr>;
               s = tcp_set_state Listen s
           in (Inr (), s))"

definition random_seq_no :: "tcp_context \<Rightarrow> seq_number \<times> tcp_context" where
  "random_seq_no cx = (let (n, r) = rand_u32 (cx_rand cx) in (n, cx\<lparr>cx_rand := r\<rparr>))"

definition tcp_connect ::
  "(ip_address \<Rightarrow> ip_address option) \<Rightarrow> tcp_context \<Rightarrow> ip_endpoint \<Rightarrow> ip_listen_endpoint \<Rightarrow> tcp_socket \<Rightarrow>
   (connect_error + unit) \<times> tcp_context \<times> tcp_socket" where
  "tcp_connect get_source_address cx remote_endpoint local_endpoint s =
     (if is_open s then (Inl Connect_InvalidState, cx, s)
      else if ep_port remote_endpoint = 0 \<or> addr_is_unspecified (ep_addr remote_endpoint)
      then (Inl Connect_Unaddressable, cx, s)
      else if lep_port local_endpoint = 0 then (Inl Connect_Unaddressable, cx, s)
      else case (case lep_addr local_endpoint of
                   Some addr \<Rightarrow> if addr_is_unspecified addr then None else Some addr
                 | None \<Rightarrow> get_source_address (ep_addr remote_endpoint)) of
             None \<Rightarrow> (Inl Connect_Unaddressable, cx, s)
           | Some addr \<Rightarrow>
               let local_endpoint = \<lparr>ep_addr = addr, ep_port = lep_port local_endpoint\<rparr>
               in if addr_version (ep_addr local_endpoint) \<noteq> addr_version (ep_addr remote_endpoint)
                  then (Inl Connect_Unaddressable, cx, s)
                  else let s = tcp_reset s;
                           s = s\<lparr>s_tuple := Some \<lparr>t_local = local_endpoint, t_remote = remote_endpoint\<rparr>\<rparr>;
                           s = tcp_set_state SynSent s;
                           (seq, cx) = random_seq_no cx;
                           s = s\<lparr>s_local_seq_no := seq, s_remote_last_seq := seq\<rparr>
                       in (Inr (), cx, s))"

definition tcp_close :: "tcp_socket \<Rightarrow> tcp_socket" where
  "tcp_close s = (case s_state s of
      Listen \<Rightarrow> tcp_set_state Closed s
    | SynSent \<Rightarrow> tcp_set_state Closed s
    | SynReceived \<Rightarrow> tcp_set_state FinWait1 s
    | Established \<Rightarrow> tcp_set_state FinWait1 s
    | CloseWait \<Rightarrow> tcp_set_state LastAck s
    | _ \<Rightarrow> s)"

definition tcp_abort :: "tcp_socket \<Rightarrow> tcp_socket" where
  "tcp_abort s = tcp_set_state Closed s"

section \<open>Sending and receiving\<close>

text \<open>The closures of \<open>send_impl\<close> and \<open>recv_impl\<close> are functions on the buffer that may panic.\<close>

definition tcp_send_impl ::
  "(socket_buffer \<Rightarrow> ((nat \<times> 'r) \<times> socket_buffer) option) \<Rightarrow> tcp_socket \<Rightarrow>
   ((send_error + 'r) \<times> tcp_socket) option" where
  "tcp_send_impl f s =
     (if \<not> may_send s then Some (Inl Send_InvalidState, s)
      else let old_length = rb_len (s_tx_buffer s)
           in do { ((size, result), tx) \<leftarrow> f (s_tx_buffer s);
                   let s = s\<lparr>s_tx_buffer := tx\<rparr>;
                   let s = (if size > 0 \<and> old_length = 0 then s\<lparr>s_remote_last_ts := None\<rparr> else s);
                   Some (Inr result, s) })"

definition tcp_send ::
  "(u8 list \<Rightarrow> u8 list \<times> nat \<times> 'r) \<Rightarrow> tcp_socket \<Rightarrow> ((send_error + 'r) \<times> tcp_socket) option" where
  "tcp_send f s = tcp_send_impl (rb_enqueue_many_with f) s"

definition tcp_send_slice :: "u8 list \<Rightarrow> tcp_socket \<Rightarrow> ((send_error + nat) \<times> tcp_socket) option" where
  "tcp_send_slice data s =
     tcp_send_impl (\<lambda>tx_buffer. do { (size, tx) \<leftarrow> rb_enqueue_slice data tx_buffer;
                                    Some ((size, size), tx) }) s"

definition recv_error_check :: "tcp_socket \<Rightarrow> recv_error + unit" where
  "recv_error_check s =
     (if \<not> may_recv s then if s_rx_fin_received s then Inl Recv_Finished else Inl Recv_InvalidState
      else Inr ())"

definition tcp_recv_impl ::
  "(socket_buffer \<Rightarrow> ((nat \<times> 'r) \<times> socket_buffer) option) \<Rightarrow> tcp_socket \<Rightarrow>
   ((recv_error + 'r) \<times> tcp_socket) option" where
  "tcp_recv_impl f s = (case recv_error_check s of
      Inl e \<Rightarrow> Some (Inl e, s)
    | Inr _ \<Rightarrow>
        do { ((size, result), rx) \<leftarrow> f (s_rx_buffer s);
             seq \<leftarrow> seq_add (s_remote_seq_no s) size;
             Some (Inr result, s\<lparr>s_rx_buffer := rx, s_remote_seq_no := seq\<rparr>) })"

definition tcp_recv ::
  "(u8 list \<Rightarrow> u8 list \<times> nat \<times> 'r) \<Rightarrow> tcp_socket \<Rightarrow> ((recv_error + 'r) \<times> tcp_socket) option" where
  "tcp_recv f s = tcp_recv_impl (rb_dequeue_many_with f) s"

text \<open>\<open>recv_slice(data)\<close> also returns the caller's slice after the call.\<close>

definition tcp_recv_slice ::
  "u8 list \<Rightarrow> tcp_socket \<Rightarrow> ((recv_error + nat \<times> u8 list) \<times> tcp_socket) option" where
  "tcp_recv_slice data s =
     tcp_recv_impl (\<lambda>rx_buffer. do { (size, data, rx) \<leftarrow> rb_dequeue_slice data rx_buffer;
                                    Some ((size, (size, data)), rx) }) s"

definition tcp_peek :: "nat \<Rightarrow> tcp_socket \<Rightarrow> recv_error + u8 list" where
  "tcp_peek req_size s = (case recv_error_check s of
      Inl e \<Rightarrow> Inl e
    | Inr _ \<Rightarrow> Inr (rb_get_allocated (s_rx_buffer s) 0 req_size))"

definition tcp_peek_slice :: "u8 list \<Rightarrow> tcp_socket \<Rightarrow> recv_error + nat \<times> u8 list" where
  "tcp_peek_slice data s = Inr (rb_read_allocated 0 data (s_rx_buffer s))"

section \<open>Replies\<close>

definition tcp_reply :: "ip_repr \<Rightarrow> tcp_repr \<Rightarrow> (ip_repr \<times> tcp_repr) option" where
  "tcp_reply ip repr =
     (let reply_repr = \<lparr>r_src_port = r_dst_port repr, r_dst_port = r_src_port repr,
            r_control = Ctl_None, r_seq_number = 0, r_ack_number = None, r_window_len = 0,
            r_window_scale = None, r_max_seg_size = None, r_sack_permitted = False,
            r_sack_ranges = (None, None, None), r_payload = []\<rparr>
      in do { ip_reply_repr \<leftarrow> ip_repr_new (ip_dst_addr ip) (ip_src_addr ip) Tcp
                                 (repr_buffer_len reply_repr) 64;
              Some (ip_reply_repr, reply_repr) })"

definition tcp_rst_reply :: "ip_repr \<Rightarrow> tcp_repr \<Rightarrow> (ip_repr \<times> tcp_repr) option" where
  "tcp_rst_reply ip repr =
     do { rust_assert (r_control repr \<noteq> Ctl_Rst);
          (ip_reply_repr, reply_repr) \<leftarrow> tcp_reply ip repr;
          let reply_repr = reply_repr\<lparr>r_control := Ctl_Rst,
                r_seq_number := (case r_ack_number repr of Some a \<Rightarrow> a | None \<Rightarrow> 0)\<rparr>;
          reply_repr \<leftarrow>
            (if r_control repr = Ctl_Syn \<and> r_ack_number repr = None
             then do { a \<leftarrow> seq_add (r_seq_number repr) (repr_segment_len repr);
                       Some (reply_repr\<lparr>r_ack_number := Some a\<rparr>) }
             else Some reply_repr);
          Some (ip_reply_repr, reply_repr) }"

text \<open>
  The ranges of the assembler in sequence number space: \<open>s.0 as usize\<close> extends the sign of the
  acknowledgement number to 64 bits, and \<open>as u32\<close> keeps the low half of the sum again. (A build
  with overflow checks panics when the 64 bit sum wraps.)
\<close>

definition sack_candidates :: "assembler \<Rightarrow> seq_number \<Rightarrow> (u32 \<times> u32) list" where
  "sack_candidates asm ack =
     map (\<lambda>(left, right). (of_nat left, of_nat right))
       (asm_iter_take (length (contigs asm)) (asm_iter_data asm (unat (scast ack :: u64))))"

definition tcp_ack_reply ::
  "ip_repr \<Rightarrow> tcp_repr \<Rightarrow> tcp_socket \<Rightarrow> ((ip_repr \<times> tcp_repr) \<times> tcp_socket) option" where
  "tcp_ack_reply ip repr s =
     do { (ip_reply_repr, reply_repr) \<leftarrow> tcp_reply ip repr;
          ack \<leftarrow> seq_add (s_remote_seq_no s) (rb_len (s_rx_buffer s));
          let reply_repr = reply_repr\<lparr>r_seq_number := s_remote_last_seq s, r_ack_number := Some ack\<rparr>;
          let s = s\<lparr>s_remote_last_ack := Some ack\<rparr>;
          let reply_repr = reply_repr\<lparr>r_window_len := scaled_window s\<rparr>;
          let s = s\<lparr>s_remote_last_win := r_window_len reply_repr\<rparr>;
          let reply_repr =
            (if s_remote_has_sack s
             then let ranges = sack_candidates (s_assembler s) ack;
                      first = (case s_local_rx_last_seq s of
                          Some last_seg_seq \<Rightarrow>
                            find (\<lambda>(left, right). left \<le> last_seg_seq \<and> right \<ge> last_seg_seq) ranges
                        | None \<Rightarrow> None);
                      first = (if first = None
                               then (case ranges of [] \<Rightarrow> None | r # _ \<Rightarrow> Some r) else first)
                  in reply_repr\<lparr>r_sack_ranges := (first, None, None)\<rparr>
             else reply_repr);
          let ip_reply_repr = ip_set_payload_len (repr_buffer_len reply_repr) ip_reply_repr;
          Some ((ip_reply_repr, reply_repr), s) }"

definition tcp_challenge_ack_reply ::
  "tcp_context \<Rightarrow> ip_repr \<Rightarrow> tcp_repr \<Rightarrow> tcp_socket \<Rightarrow>
   ((ip_repr \<times> tcp_repr) option \<times> tcp_socket) option" where
  "tcp_challenge_ack_reply cx ip repr s =
     (if cx_now cx < s_challenge_ack_timer s then Some (None, s)
      else do { let s = s\<lparr>s_challenge_ack_timer := instant_add (cx_now cx) (duration_from_secs 1)\<rparr>;
                (reply, s) \<leftarrow> tcp_ack_reply ip repr s;
                Some (Some reply, s) })"

definition tcp_accepts :: "tcp_socket \<Rightarrow> ip_repr \<Rightarrow> tcp_repr \<Rightarrow> bool" where
  "tcp_accepts s ip repr =
     (if s_state s = Closed then False
      else if s_state s = Listen \<and> r_ack_number repr \<noteq> None then False
      else case s_tuple s of
          Some tuple \<Rightarrow> ip_dst_addr ip = ep_addr (t_local tuple)
            \<and> r_dst_port repr = ep_port (t_local tuple)
            \<and> ip_src_addr ip = ep_addr (t_remote tuple)
            \<and> r_src_port repr = ep_port (t_remote tuple)
        | None \<Rightarrow>
            (case lep_addr (s_listen_endpoint s) of Some addr \<Rightarrow> ip_dst_addr ip = addr | None \<Rightarrow> True)
            \<and> r_dst_port repr \<noteq> 0 \<and> r_dst_port repr = lep_port (s_listen_endpoint s))"

end
