(* ===== verification/Tcp_Process.thy ===== *)
theory Tcp_Process
  imports Tcp_Socket
begin

text \<open>
  The receive path of the TCP socket, \<open>Socket::process\<close> of \<^verbatim>\<open>src/socket/tcp.rs\<close>, in the phases
  the function has. A phase that may leave the function early returns \<open>Inl\<close> of the result
  it leaves with, and \<open>Inr\<close> of what the rest goes on with; \<open>None\<close> is a panic.
\<close>

type_synonym tcp_reply = "(ip_repr \<times> tcp_repr) option"

section \<open>What is outstanding\<close>

definition sent_flags :: "tcp_state \<Rightarrow> bool \<times> bool" where
  "sent_flags st = (case st of
      SynSent \<Rightarrow> (True, False)
    | SynReceived \<Rightarrow> (True, False)
    | FinWait1 \<Rightarrow> (False, True)
    | LastAck \<Rightarrow> (False, True)
    | Closing \<Rightarrow> (False, True)
    | _ \<Rightarrow> (False, False))"

definition flag_len :: "bool \<Rightarrow> nat" where
  "flag_len b = (if b then 1 else 0)"

section \<open>Unacceptable acknowledgements\<close>

definition process_ack_range ::
  "tcp_context \<Rightarrow> ip_repr \<Rightarrow> tcp_repr \<Rightarrow> seq_number \<Rightarrow> tcp_socket \<Rightarrow>
   ((tcp_reply \<times> tcp_socket) + unit) option" where
  "process_ack_range cx ip repr ack_number s =
     (let (sent_syn, sent_fin) = sent_flags (s_state s);
          control_len = flag_len sent_syn + flag_len sent_fin;
          unacknowledged = rb_len (s_tx_buffer s) + control_len
      in do { ack_max \<leftarrow> seq_add (s_local_seq_no s) unacknowledged;
              ack_min \<leftarrow> (if sent_syn then seq_add (s_local_seq_no s) 1 else Some (s_local_seq_no s));
              if seq_lt ack_number ack_min then Some (Inl (None, s))
              else if seq_gt ack_number ack_max
              then do { (reply, s) \<leftarrow> tcp_challenge_ack_reply cx ip repr s; Some (Inl (reply, s)) }
              else Some (Inr ()) })"

definition process_check_ack ::
  "tcp_context \<Rightarrow> ip_repr \<Rightarrow> tcp_repr \<Rightarrow> tcp_socket \<Rightarrow> ((tcp_reply \<times> tcp_socket) + unit) option" where
  "process_check_ack cx ip repr s =
     (let state = s_state s; control = r_control repr
      in if state = SynSent \<and> control = Ctl_Rst
         then (case r_ack_number repr of
                 None \<Rightarrow> Some (Inl (None, s))
               | Some ack_number \<Rightarrow>
                   do { expected \<leftarrow> seq_add (s_local_seq_no s) 1;
                        if ack_number \<noteq> expected then Some (Inl (None, s)) else Some (Inr ()) })
         else if control = Ctl_Rst then Some (Inr ())
         else if state = Listen
         then (case r_ack_number repr of None \<Rightarrow> Some (Inr ()) | Some _ \<Rightarrow> None)
         else case r_ack_number repr of
           None \<Rightarrow> Some (Inl (None, s))
         | Some ack_number \<Rightarrow>
             if state = SynSent \<and> control = Ctl_Syn
             then do { expected \<leftarrow> seq_add (s_local_seq_no s) 1;
                       if ack_number \<noteq> expected
                       then do { rst \<leftarrow> tcp_rst_reply ip repr; Some (Inl (Some rst, s)) }
                       else Some (Inr ()) }
             else if state = SynSent \<and> control = Ctl_None
             then do { expected \<leftarrow> seq_add (s_local_seq_no s) 1;
                       if ack_number = expected then Some (Inl (None, s))
                       else do { rst \<leftarrow> tcp_rst_reply ip repr; Some (Inl (Some rst, s)) } }
             else if state = SynSent then Some (Inl (None, s))
             else if state = SynReceived
             then do { expected \<leftarrow> seq_add (s_local_seq_no s) 1;
                       if ack_number \<noteq> expected
                       then do { rst \<leftarrow> tcp_rst_reply ip repr; Some (Inl (Some rst, s)) }
                       else Some (Inr ()) }
             else process_ack_range cx ip repr ack_number s)"

section \<open>The segment and the receive window\<close>

definition segment_in_window ::
  "seq_number \<Rightarrow> seq_number \<Rightarrow> seq_number \<Rightarrow> seq_number \<Rightarrow> bool option" where
  "segment_in_window window_start window_end segment_start segment_end =
     do { previous \<leftarrow> seq_sub window_start 1;
          Some (if segment_start = segment_end \<and> segment_end = previous then False
                else if segment_start = segment_end \<and> window_start = window_end
                then window_start = segment_start
                else if segment_start = segment_end
                then seq_le window_start segment_start \<and> seq_lt segment_start window_end
                else if window_start = window_end then False
                else (seq_le window_start segment_start \<and> seq_lt segment_start window_end)
                     \<or> (seq_lt window_start segment_end \<and> seq_le segment_end window_end)) }"

definition process_window ::
  "tcp_context \<Rightarrow> ip_repr \<Rightarrow> tcp_repr \<Rightarrow> seq_number \<Rightarrow> seq_number \<Rightarrow> tcp_socket \<Rightarrow>
   ((tcp_reply \<times> tcp_socket) + (u8 list \<times> nat \<times> tcp_socket)) option" where
  "process_window cx ip repr window_start window_end s =
     (let segment_start = r_seq_number repr
      in do { segment_end \<leftarrow> seq_add (r_seq_number repr) (length (r_payload repr));
              if s_state s = Listen \<or> s_state s = SynSent then Some (Inr ([], 0, s))
              else do {
                in_window \<leftarrow> segment_in_window window_start window_end segment_start segment_end;
                if in_window
                then do { let overlap_start = seq_max window_start segment_start;
                          let overlap_end = seq_min window_end segment_end;
                          rust_assert (seq_le overlap_start overlap_end);
                          let s = s\<lparr>s_local_rx_last_seq := Some (r_seq_number repr)\<rparr>;
                          from \<leftarrow> seq_diff overlap_start segment_start;
                          to \<leftarrow> seq_diff overlap_end segment_start;
                          payload \<leftarrow> slice_range from to (r_payload repr);
                          payload_offset \<leftarrow> seq_diff overlap_start window_start;
                          Some (Inr (payload, payload_offset, s)) }
                else do { let s = (if s_state s = TimeWait
                                   then s\<lparr>s_timer := timer_set_for_close (cx_now cx)\<rparr> else s);
                          (reply, s) \<leftarrow> tcp_challenge_ack_reply cx ip repr s;
                          Some (Inl (reply, s)) } } })"

section \<open>What is acknowledged\<close>

text \<open>The octets acknowledged, whether the FIN is, and whether everything sent is.\<close>

definition process_acked ::
  "tcp_context \<Rightarrow> tcp_repr \<Rightarrow> tcp_socket \<Rightarrow> ((nat \<times> bool \<times> bool) \<times> tcp_socket) option" where
  "process_acked cx repr s =
     (let (sent_syn, sent_fin) = sent_flags (s_state s)
      in if r_control repr \<noteq> Ctl_Rst
         then case r_ack_number repr of
             Some ack_number \<Rightarrow>
               do { tx_buffer_start_seq \<leftarrow> seq_add (s_local_seq_no s) (flag_len sent_syn);
                    (ack_len, ack_of_fin, ack_all) \<leftarrow>
                      (if seq_ge ack_number tx_buffer_start_seq
                       then do { ack_len \<leftarrow> seq_diff ack_number tx_buffer_start_seq;
                                 let (ack_len, ack_of_fin) =
                                   (if sent_fin \<and> rb_len (s_tx_buffer s) + 1 = ack_len
                                    then (ack_len - 1, True) else (ack_len, False));
                                 Some (ack_len, ack_of_fin, s_remote_last_seq s = ack_number) }
                       else Some (0, False, False));
                    let s = s\<lparr>s_rtte := rtte_on_ack (cx_now cx) ack_number (s_rtte s)\<rparr>;
                    let s = s\<lparr>s_congestion_controller :=
                      cc_on_ack (cx_now cx) ack_len (s_rtte s) (s_congestion_controller s)\<rparr>;
                    Some ((ack_len, ack_of_fin, ack_all), s) }
           | None \<Rightarrow> Some ((0, False, False), s)
         else Some ((0, False, False), s))"

section \<open>The state machine\<close>

definition effective_control :: "tcp_repr \<Rightarrow> seq_number \<Rightarrow> tcp_control" where
  "effective_control repr window_start =
     (let control = quash_psh (r_control repr)
      in if control = Ctl_Fin \<and> window_start \<noteq> r_seq_number repr then Ctl_None else control)"

definition set_for_idle :: "tcp_context \<Rightarrow> tcp_socket \<Rightarrow> tcp_socket" where
  "set_for_idle cx s = s\<lparr>s_timer := timer_set_for_idle (cx_now cx) (s_keep_alive s)\<rparr>"

definition set_for_close :: "tcp_context \<Rightarrow> tcp_socket \<Rightarrow> tcp_socket" where
  "set_for_close cx s = s\<lparr>s_timer := timer_set_for_close (cx_now cx)\<rparr>"

text \<open>\<open>Inl\<close>, the early return, when the segment announces a maximum segment size of zero.\<close>

definition transition_listen_syn ::
  "tcp_context \<Rightarrow> ip_repr \<Rightarrow> tcp_repr \<Rightarrow> tcp_socket \<Rightarrow> ((tcp_socket + (tcp_context \<times> tcp_socket)) option)" where
  "transition_listen_syn cx ip repr s =
     (if r_max_seg_size repr = Some 0 then Some (Inl s)
      else do {
        let s = (case r_max_seg_size repr of
            Some max_seg_size \<Rightarrow>
              let s = s\<lparr>s_congestion_controller :=
                    cc_set_mss (unat max_seg_size) (s_congestion_controller s)\<rparr>
              in s\<lparr>s_remote_mss := unat max_seg_size\<rparr>
          | None \<Rightarrow> s);
        let s = s\<lparr>s_tuple := Some
            \<lparr>t_local = \<lparr>ep_addr = ip_dst_addr ip, ep_port = r_dst_port repr\<rparr>,
             t_remote = \<lparr>ep_addr = ip_src_addr ip, ep_port = r_src_port repr\<rparr>\<rparr>\<rparr>;
        let (seq, cx) = random_seq_no cx;
        let s = s\<lparr>s_local_seq_no := seq\<rparr>;
        rseq \<leftarrow> seq_add (r_seq_number repr) 1;
        let s = s\<lparr>s_remote_seq_no := rseq\<rparr>;
        let s = s\<lparr>s_remote_last_seq := s_local_seq_no s\<rparr>;
        let s = s\<lparr>s_remote_has_sack := r_sack_permitted repr\<rparr>;
        let s = s\<lparr>s_remote_win_scale := r_window_scale repr\<rparr>;
        let s = (if s_remote_win_scale s = None then s\<lparr>s_remote_win_shift := 0\<rparr> else s);
        let s = tcp_set_state SynReceived s;
        Some (Inr (cx, set_for_idle cx s)) })"

definition transition_synsent_syn ::
  "tcp_context \<Rightarrow> tcp_repr \<Rightarrow> tcp_socket \<Rightarrow> (tcp_socket + tcp_socket) option" where
  "transition_synsent_syn cx repr s =
     (if r_max_seg_size repr = Some 0 then Some (Inl s)
      else do {
        let s = (case r_max_seg_size repr of
            Some max_seg_size \<Rightarrow>
              let s = s\<lparr>s_remote_mss := unat max_seg_size\<rparr>
              in s\<lparr>s_congestion_controller := cc_set_mss (s_remote_mss s) (s_congestion_controller s)\<rparr>
          | None \<Rightarrow> s);
        rseq \<leftarrow> seq_add (r_seq_number repr) 1;
        let s = s\<lparr>s_remote_seq_no := rseq\<rparr>;
        lseq \<leftarrow> seq_add (s_local_seq_no s) 1;
        let s = s\<lparr>s_remote_last_seq := lseq\<rparr>;
        let s = s\<lparr>s_remote_last_ack := Some (r_seq_number repr)\<rparr>;
        let s = s\<lparr>s_remote_win_scale := r_window_scale repr\<rparr>;
        let s = (if s_remote_win_scale s = None then s\<lparr>s_remote_win_shift := 0\<rparr> else s);
        let s = tcp_set_state Established s;
        Some (Inr (set_for_idle cx s)) })"

definition receive_fin :: "tcp_socket \<Rightarrow> tcp_socket option" where
  "receive_fin s =
     do { rseq \<leftarrow> seq_add (s_remote_seq_no s) 1;
          Some (s\<lparr>s_remote_seq_no := rseq, s_rx_fin_received := True\<rparr>) }"

definition process_transition ::
  "tcp_context \<Rightarrow> ip_repr \<Rightarrow> tcp_repr \<Rightarrow> tcp_control \<Rightarrow> bool \<Rightarrow> bool \<Rightarrow> tcp_socket \<Rightarrow>
   (tcp_socket + (tcp_context \<times> tcp_socket)) option" where
  "process_transition cx ip repr control ack_of_fin ack_all s =
     (let state = s_state s;
          cont = (\<lambda>s'. Some (Inr (cx, s')));
          fin = (\<lambda>st. do { s \<leftarrow> receive_fin s;
                           Some (Inr (cx, set_for_idle cx (tcp_set_state st s))) })
      in if state = Listen \<and> control = Ctl_Rst then Some (Inl s)
         else if state = SynReceived \<and> control = Ctl_Rst
         then Some (Inl (tcp_set_state Listen (s\<lparr>s_tuple := None\<rparr>)))
         else if control = Ctl_Rst then Some (Inl ((tcp_set_state Closed s)\<lparr>s_tuple := None\<rparr>))
         else if state = Listen \<and> control = Ctl_Syn then transition_listen_syn cx ip repr s
         else if state = SynReceived \<and> control = Ctl_None
         then cont (set_for_idle cx (tcp_set_state Established s))
         else if state = SynReceived \<and> control = Ctl_Fin then fin CloseWait
         else if state = SynSent \<and> control = Ctl_Syn
         then do { r \<leftarrow> transition_synsent_syn cx repr s;
                   case r of Inl s \<Rightarrow> Some (Inl s) | Inr s \<Rightarrow> Some (Inr (cx, s)) }
         else if state = Established \<and> control = Ctl_None
         then cont (if \<not> timer_is_retransmit (s_timer s) \<or> ack_all then set_for_idle cx s else s)
         else if state = Established \<and> control = Ctl_Fin then fin CloseWait
         else if state = FinWait1 \<and> control = Ctl_None
         then (let s = (if ack_of_fin then tcp_set_state FinWait2 s else s)
               in cont (if ack_all then set_for_idle cx s else s))
         else if state = FinWait1 \<and> control = Ctl_Fin
         then do { s \<leftarrow> receive_fin s;
                   Some (Inr (cx, if ack_of_fin then set_for_close cx (tcp_set_state TimeWait s)
                                  else set_for_idle cx (tcp_set_state Closing s))) }
         else if state = FinWait2 \<and> control = Ctl_None then cont (set_for_idle cx s)
         else if state = FinWait2 \<and> control = Ctl_Fin
         then do { s \<leftarrow> receive_fin s; Some (Inr (cx, set_for_close cx (tcp_set_state TimeWait s))) }
         else if state = Closing \<and> control = Ctl_None
         then cont (if ack_of_fin then set_for_close cx (tcp_set_state TimeWait s)
                    else set_for_idle cx s)
         else if state = CloseWait \<and> control = Ctl_None then cont (set_for_idle cx s)
         else if state = LastAck \<and> control = Ctl_None
         then cont (if ack_of_fin then (tcp_set_state Closed s)\<lparr>s_tuple := None\<rparr>
                    else set_for_idle cx s)
         else Some (Inl s))"

section \<open>The remote window and the transmit buffer\<close>

text \<open>\<open><<\<close> on \<open>usize\<close>: 64 bits, and a panic for a shift by 64 or more.\<close>

definition usize_shl :: "nat \<Rightarrow> nat \<Rightarrow> nat option" where
  "usize_shl n k = (if k < 64 then Some (n * 2 ^ k mod 2 ^ 64) else None)"

definition process_remote_window ::
  "tcp_context \<Rightarrow> tcp_repr \<Rightarrow> tcp_socket \<Rightarrow> (bool \<times> tcp_socket) option" where
  "process_remote_window cx repr s =
     (let s = s\<lparr>s_remote_last_ts := Some (cx_now cx)\<rparr>;
          scale = (if r_control repr = Ctl_Syn then 0
                   else case s_remote_win_scale s of Some sc \<Rightarrow> sc | None \<Rightarrow> 0)
      in do { new_remote_win_len \<leftarrow> usize_shl (unat (r_window_len repr)) (unat scale);
              let is_window_update = (new_remote_win_len \<noteq> s_remote_win_len s);
              let s = s\<lparr>s_remote_win_len := new_remote_win_len\<rparr>;
              let s = s\<lparr>s_congestion_controller :=
                cc_set_remote_window new_remote_win_len (s_congestion_controller s)\<rparr>;
              Some (is_window_update, s) })"

definition process_dequeue_acked :: "nat \<Rightarrow> tcp_socket \<Rightarrow> tcp_socket option" where
  "process_dequeue_acked ack_len s =
     (if ack_len > 0
      then do { rust_assert (rb_len (s_tx_buffer s) \<ge> ack_len);
                tx \<leftarrow> rb_dequeue_allocated ack_len (s_tx_buffer s);
                Some (s\<lparr>s_tx_buffer := tx\<rparr>) }
      else Some s)"

definition process_dup_ack ::
  "tcp_context \<Rightarrow> tcp_repr \<Rightarrow> bool \<Rightarrow> seq_number \<Rightarrow> tcp_socket \<Rightarrow> tcp_socket" where
  "process_dup_ack cx repr is_window_update ack_number s =
     (if (case s_local_rx_last_ack s of
            Some last_rx_ack \<Rightarrow> r_payload repr = [] \<and> last_rx_ack = ack_number
              \<and> seq_lt ack_number (s_remote_last_seq s) \<and> \<not> is_window_update
          | None \<Rightarrow> False)
      then let s = s\<lparr>s_local_rx_dup_acks :=
                     (if s_local_rx_dup_acks s = 255 then 255 else s_local_rx_dup_acks s + 1)\<rparr>;
               s = s\<lparr>s_congestion_controller :=
                     cc_on_duplicate_ack (cx_now cx) (s_congestion_controller s)\<rparr>
           in if s_local_rx_dup_acks s = 3 then s\<lparr>s_timer := timer_set_for_fast_retransmit\<rparr> else s
      else let s = (if s_local_rx_dup_acks s > 0 then s\<lparr>s_local_rx_dup_acks := 0\<rparr> else s)
           in s\<lparr>s_local_rx_last_ack := Some ack_number\<rparr>)"

definition process_advance_local ::
  "tcp_context \<Rightarrow> tcp_repr \<Rightarrow> bool \<Rightarrow> tcp_socket \<Rightarrow> tcp_socket" where
  "process_advance_local cx repr is_window_update s = (case r_ack_number repr of
      Some ack_number \<Rightarrow>
        let s = process_dup_ack cx repr is_window_update ack_number s;
            s = s\<lparr>s_local_seq_no := ack_number\<rparr>
        in if seq_lt (s_remote_last_seq s) (s_local_seq_no s)
           then s\<lparr>s_remote_last_seq := s_local_seq_no s\<rparr> else s
    | None \<Rightarrow> s)"

section \<open>The payload\<close>

definition ack_to_transmit :: "tcp_socket \<Rightarrow> bool option" where
  "ack_to_transmit s = (case s_remote_last_ack s of
      Some remote_last_ack \<Rightarrow>
        do { seq \<leftarrow> seq_add (s_remote_seq_no s) (rb_len (s_rx_buffer s));
             Some (seq_lt remote_last_ack seq) }
    | None \<Rightarrow> Some False)"

definition window_to_update :: "tcp_socket \<Rightarrow> bool" where
  "window_to_update s \<longleftrightarrow> (case s_state s of
      SynSent \<Rightarrow> scaled_window s > s_remote_last_win s
    | SynReceived \<Rightarrow> scaled_window s > s_remote_last_win s
    | Established \<Rightarrow> scaled_window s > s_remote_last_win s
    | FinWait1 \<Rightarrow> scaled_window s > s_remote_last_win s
    | FinWait2 \<Rightarrow> scaled_window s > s_remote_last_win s
    | _ \<Rightarrow> False)"

fun next_ack_delay_timer :: "tcp_context \<Rightarrow> duration \<Rightarrow> ack_delay_timer \<Rightarrow> ack_delay_timer" where
  "next_ack_delay_timer cx ack_delay Ack_Idle = Ack_Waiting (instant_add (cx_now cx) ack_delay)"
| "next_ack_delay_timer cx ack_delay (Ack_Waiting _) = Ack_Immediate"
| "next_ack_delay_timer cx ack_delay Ack_Immediate = Ack_Immediate"

definition process_delayed_ack :: "tcp_context \<Rightarrow> tcp_socket \<Rightarrow> tcp_socket option" where
  "process_delayed_ack cx s = (case s_ack_delay s of
      Some ack_delay \<Rightarrow>
        do { want_ack \<leftarrow> ack_to_transmit s;
             Some (if want_ack \<or> window_to_update s
                   then s\<lparr>s_ack_delay_timer := next_ack_delay_timer cx ack_delay (s_ack_delay_timer s)\<rparr>
                   else s) }
    | None \<Rightarrow> Some s)"

definition process_payload ::
  "tcp_context \<Rightarrow> ip_repr \<Rightarrow> tcp_repr \<Rightarrow> u8 list \<Rightarrow> nat \<Rightarrow> tcp_socket \<Rightarrow>
   (tcp_reply \<times> tcp_socket) option" where
  "process_payload cx ip repr payload payload_offset s =
     (if length payload = 0 then Some (None, s)
      else do {
        let assembler_was_empty = asm_is_empty (s_assembler s);
        (added, asm, rx) \<leftarrow> tcp_reassemble payload_offset payload (s_assembler s) (s_rx_buffer s);
        let s = s\<lparr>s_assembler := asm, s_rx_buffer := rx\<rparr>;
        case added of
          Inl _ \<Rightarrow> Some (None, s)
        | Inr _ \<Rightarrow> do {
            s \<leftarrow> process_delayed_ack cx s;
            if \<not> asm_is_empty (s_assembler s) \<or> \<not> assembler_was_empty
            then do { (reply, s) \<leftarrow> tcp_ack_reply ip repr s; Some (Some reply, s) }
            else Some (None, s) } })"

section \<open>The whole function\<close>

definition tcp_process ::
  "tcp_context \<Rightarrow> ip_repr \<Rightarrow> tcp_repr \<Rightarrow> tcp_socket \<Rightarrow> (tcp_reply \<times> tcp_context \<times> tcp_socket) option" where
  "tcp_process cx ip repr s =
     do { rust_assert (tcp_accepts s ip repr);
          checked \<leftarrow> process_check_ack cx ip repr s;
          case checked of Inl (reply, s) \<Rightarrow> Some (reply, cx, s)
          | Inr _ \<Rightarrow> do {
              window_start \<leftarrow> seq_add (s_remote_seq_no s) (rb_len (s_rx_buffer s));
              window_end \<leftarrow> seq_add (s_remote_seq_no s) (rb_capacity (s_rx_buffer s));
              windowed \<leftarrow> process_window cx ip repr window_start window_end s;
              case windowed of Inl (reply, s) \<Rightarrow> Some (reply, cx, s)
              | Inr (payload, payload_offset, s) \<Rightarrow> do {
                  ((ack_len, ack_of_fin, ack_all), s) \<leftarrow> process_acked cx repr s;
                  moved \<leftarrow> process_transition cx ip repr (effective_control repr window_start)
                             ack_of_fin ack_all s;
                  case moved of Inl s \<Rightarrow> Some (None, cx, s)
                  | Inr (cx, s) \<Rightarrow> do {
                      (is_window_update, s) \<leftarrow> process_remote_window cx repr s;
                      s \<leftarrow> process_dequeue_acked ack_len s;
                      let s = process_advance_local cx repr is_window_update s;
                      (reply, s) \<leftarrow> process_payload cx ip repr payload payload_offset s;
                      Some (reply, cx, s) } } } }"

end
