(* ===== verification/Tcp_Dispatch.thy ===== *)
theory Tcp_Dispatch
  imports Tcp_Process
begin

text \<open>
  The transmit path of the TCP socket, \<open>Socket::dispatch\<close> and \<open>Socket::poll_at\<close> of
  \<^verbatim>\<open>src/socket/tcp.rs\<close>. \<open>dispatch\<close> is composed of what happens before the call of \<open>emit\<close>
  (\<open>dispatch_prepare\<close>: timers, the decision to send, the segment) and after it
  (\<open>dispatch_finish\<close>). The \<open>emit\<close> closure is an argument: it gets the context and the packet
  and returns an error or success, and the context.
\<close>

section \<open>Conditions\<close>

definition timed_out :: "tcp_socket \<Rightarrow> instant \<Rightarrow> bool" where
  "timed_out s timestamp = (case (s_remote_last_ts s, s_timeout s) of
      (Some remote_last_ts, Some timeout) \<Rightarrow> timestamp \<ge> instant_add remote_last_ts timeout
    | _ \<Rightarrow> False)"

fun addr_header_len :: "ip_address \<Rightarrow> nat" where
  "addr_header_len (Ipv4 _) = IPV4_HEADER_LEN"
| "addr_header_len (Ipv6 _) = IPV6_HEADER_LEN"

text \<open>\<open>cx.ip_mtu() - ip_header_len - TCP_HEADER_LEN\<close>, which panics when the headers do not fit.\<close>

definition local_mss :: "tcp_context \<Rightarrow> nat \<Rightarrow> nat option" where
  "local_mss cx header_len = do { m \<leftarrow> checked_sub (cx_ip_mtu cx) header_len;
                                  checked_sub m TCP_HEADER_LEN }"

definition want_fin :: "tcp_state \<Rightarrow> bool" where
  "want_fin st = (case st of FinWait1 \<Rightarrow> True | Closing \<Rightarrow> True | LastAck \<Rightarrow> True | _ \<Rightarrow> False)"

definition seq_to_transmit :: "tcp_context \<Rightarrow> tcp_socket \<Rightarrow> bool option" where
  "seq_to_transmit cx s =
     do { tuple \<leftarrow> s_tuple s;
          mss \<leftarrow> local_mss cx (addr_header_len (ep_addr (t_local tuple)));
          let effective_mss = min mss (s_remote_mss s);
          let data_in_flight = (s_remote_last_seq s \<noteq> s_local_seq_no s);
          if (s_state s = SynSent \<or> s_state s = SynReceived) \<and> \<not> data_in_flight then Some True
          else do {
            max_send_seq \<leftarrow> seq_add (s_local_seq_no s)
                                    (min (s_remote_win_len s) (rb_len (s_tx_buffer s)));
            max_send \<leftarrow> (if seq_ge max_send_seq (s_remote_last_seq s)
                          then seq_diff max_send_seq (s_remote_last_seq s) else Some 0);
            let max_send = min max_send (cc_window (s_congestion_controller s));
            let can_send = (max_send \<noteq> 0);
            let can_send_full = (max_send \<ge> effective_mss);
            let wants_fin = want_fin (s_state s);
            let can_send = (if s_nagle s \<and> data_in_flight \<and> \<not> can_send_full \<and> \<not> wants_fin
                            then False else can_send);
            tx_end \<leftarrow> seq_add (s_local_seq_no s) (rb_len (s_tx_buffer s));
            let can_fin = (wants_fin \<and> s_remote_last_seq s = tx_end);
            Some (can_send \<or> can_fin) } }"

definition delayed_ack_expired :: "tcp_socket \<Rightarrow> instant \<Rightarrow> bool" where
  "delayed_ack_expired s timestamp = (case s_ack_delay_timer s of
      Ack_Idle \<Rightarrow> True | Ack_Waiting t \<Rightarrow> t \<le> timestamp | Ack_Immediate \<Rightarrow> True)"

section \<open>Timers\<close>

definition dispatch_timers :: "tcp_context \<Rightarrow> tcp_socket \<Rightarrow> tcp_socket option" where
  "dispatch_timers cx s =
     (let s = (if s_remote_last_ts s = None then s\<lparr>s_remote_last_ts := Some (cx_now cx)\<rparr> else s);
          s = s\<lparr>s_congestion_controller := cc_pre_transmit (cx_now cx) (s_congestion_controller s)\<rparr>
      in if timed_out s (cx_now cx) then Some (tcp_set_state Closed s)
         else do {
           transmit \<leftarrow> seq_to_transmit cx s;
           Some (if \<not> transmit
                 then case timer_should_retransmit (s_timer s) (cx_now cx) of
                     Some retransmit_delta \<Rightarrow>
                       let s = s\<lparr>s_remote_last_seq := s_local_seq_no s\<rparr>;
                           s = s\<lparr>s_timer := timer_set_for_idle (cx_now cx) (s_keep_alive s)\<rparr>;
                           s = s\<lparr>s_rtte := rtte_on_retransmit (s_rtte s)\<rparr>
                       in s\<lparr>s_congestion_controller :=
                             cc_on_retransmit (cx_now cx) (s_congestion_controller s)\<rparr>
                   | None \<Rightarrow> s
                 else s) })"

section \<open>The decision\<close>

datatype dispatch_decision = Send | Reset_Socket | Quiet

definition dispatch_decide :: "tcp_context \<Rightarrow> tcp_socket \<Rightarrow> dispatch_decision option" where
  "dispatch_decide cx s =
     do { transmit \<leftarrow> seq_to_transmit cx s;
          if transmit then Some Send
          else do {
            want_ack \<leftarrow> ack_to_transmit s;
            Some (if want_ack \<and> delayed_ack_expired s (cx_now cx) then Send
                  else if window_to_update s \<and> delayed_ack_expired s (cx_now cx) then Send
                  else if s_state s = Closed then Send
                  else if timer_should_keep_alive (s_timer s) (cx_now cx) then Send
                  else if timer_should_close (s_timer s) (cx_now cx) then Reset_Socket
                  else Quiet) } }"

section \<open>The segment\<close>

definition dispatch_base_repr :: "tcp_tuple \<Rightarrow> tcp_socket \<Rightarrow> tcp_repr option" where
  "dispatch_base_repr tuple s =
     do { ack \<leftarrow> seq_add (s_remote_seq_no s) (rb_len (s_rx_buffer s));
          Some \<lparr>r_src_port = ep_port (t_local tuple), r_dst_port = ep_port (t_remote tuple),
                r_control = Ctl_None, r_seq_number = s_remote_last_seq s,
                r_ack_number = Some ack, r_window_len = scaled_window s,
                r_window_scale = None, r_max_seg_size = None, r_sack_permitted = False,
                r_sack_ranges = (None, None, None), r_payload = []\<rparr> }"

definition dispatch_syn_repr :: "tcp_socket \<Rightarrow> tcp_repr \<Rightarrow> tcp_repr" where
  "dispatch_syn_repr s repr =
     (let repr = repr\<lparr>r_control := Ctl_Syn,
                      r_window_len := of_nat (min (rb_window (s_rx_buffer s)) (2 ^ 16 - 1))\<rparr>
      in if s_state s = SynSent
         then repr\<lparr>r_ack_number := None, r_window_scale := Some (s_remote_win_shift s),
                   r_sack_permitted := True\<rparr>
         else repr\<lparr>r_sack_permitted := s_remote_has_sack s,
                   r_window_scale := map_option (\<lambda>_. s_remote_win_shift s) (s_remote_win_scale s)\<rparr>)"

definition dispatch_data_repr ::
  "tcp_context \<Rightarrow> ip_repr \<Rightarrow> tcp_socket \<Rightarrow> tcp_repr \<Rightarrow> tcp_repr option" where
  "dispatch_data_repr cx ip s repr =
     do { win_right_edge \<leftarrow> seq_add (s_local_seq_no s) (s_remote_win_len s);
          win_limit \<leftarrow> (if seq_ge win_right_edge (s_remote_last_seq s)
                         then seq_diff win_right_edge (s_remote_last_seq s) else Some 0);
          mss \<leftarrow> local_mss cx (ip_header_len ip);
          let size = min (min win_limit (s_remote_mss s)) mss;
          offset \<leftarrow> seq_diff (s_remote_last_seq s) (s_local_seq_no s);
          let repr = repr\<lparr>r_payload := rb_get_allocated (s_tx_buffer s) offset size\<rparr>;
          Some (if offset + length (r_payload repr) = rb_len (s_tx_buffer s)
                then case s_state s of
                    FinWait1 \<Rightarrow> repr\<lparr>r_control := Ctl_Fin\<rparr>
                  | LastAck \<Rightarrow> repr\<lparr>r_control := Ctl_Fin\<rparr>
                  | Closing \<Rightarrow> repr\<lparr>r_control := Ctl_Fin\<rparr>
                  | Established \<Rightarrow> if r_payload repr \<noteq> [] then repr\<lparr>r_control := Ctl_Psh\<rparr> else repr
                  | CloseWait \<Rightarrow> if r_payload repr \<noteq> [] then repr\<lparr>r_control := Ctl_Psh\<rparr> else repr
                  | _ \<Rightarrow> repr
                else repr) }"

text \<open>\<open>None\<close> inside the result: the LISTEN state, which transmits nothing.\<close>

definition dispatch_state_repr ::
  "tcp_context \<Rightarrow> ip_repr \<Rightarrow> tcp_socket \<Rightarrow> tcp_repr \<Rightarrow> tcp_repr option option" where
  "dispatch_state_repr cx ip s repr = (case s_state s of
      Closed \<Rightarrow> Some (Some (repr\<lparr>r_control := Ctl_Rst\<rparr>))
    | Listen \<Rightarrow> Some None
    | SynSent \<Rightarrow> Some (Some (dispatch_syn_repr s repr))
    | SynReceived \<Rightarrow> Some (Some (dispatch_syn_repr s repr))
    | FinWait2 \<Rightarrow> Some (Some repr)
    | TimeWait \<Rightarrow> Some (Some repr)
    | _ \<Rightarrow> map_option Some (dispatch_data_repr cx ip s repr))"

definition dispatch_keep_alive ::
  "tcp_context \<Rightarrow> tcp_socket \<Rightarrow> tcp_repr \<Rightarrow> (tcp_repr \<times> bool) option" where
  "dispatch_keep_alive cx s repr =
     (if timer_should_keep_alive (s_timer s) (cx_now cx) \<and> repr_is_empty repr
      then do { seq \<leftarrow> seq_sub (r_seq_number repr) 1;
                Some (repr\<lparr>r_seq_number := seq, r_payload := [0]\<rparr>, True) }
      else Some (repr, False))"

definition dispatch_mss_option :: "tcp_context \<Rightarrow> ip_repr \<Rightarrow> tcp_repr \<Rightarrow> tcp_repr option" where
  "dispatch_mss_option cx ip repr =
     (if r_control repr = Ctl_Syn
      then do { mss \<leftarrow> local_mss cx (ip_header_len ip);
                Some (repr\<lparr>r_max_seg_size := Some (of_nat mss)\<rparr>) }
      else Some repr)"

definition dispatch_packet ::
  "tcp_context \<Rightarrow> tcp_socket \<Rightarrow> (ip_repr \<times> tcp_repr \<times> bool) option option" where
  "dispatch_packet cx s =
     do { tuple \<leftarrow> s_tuple s;
          ip \<leftarrow> ip_repr_new (ep_addr (t_local tuple)) (ep_addr (t_remote tuple)) Tcp 0
                  (case s_hop_limit s of Some h \<Rightarrow> h | None \<Rightarrow> 64);
          repr \<leftarrow> dispatch_base_repr tuple s;
          shaped \<leftarrow> dispatch_state_repr cx ip s repr;
          case shaped of
            None \<Rightarrow> Some None
          | Some repr \<Rightarrow> do {
              (repr, is_keep_alive) \<leftarrow> dispatch_keep_alive cx s repr;
              repr \<leftarrow> dispatch_mss_option cx ip repr;
              Some (Some (ip_set_payload_len (repr_buffer_len repr) ip, repr, is_keep_alive)) } }"

text \<open>
  Everything before the call of \<open>emit\<close>: the socket, and the packet with the keep-alive flag when
  one is to be sent.
\<close>

definition dispatch_prepare ::
  "tcp_context \<Rightarrow> tcp_socket \<Rightarrow> (tcp_socket \<times> (ip_repr \<times> tcp_repr \<times> bool) option) option" where
  "dispatch_prepare cx s =
     (if s_tuple s = None then Some (s, None)
      else do {
        s \<leftarrow> dispatch_timers cx s;
        decision \<leftarrow> dispatch_decide cx s;
        case decision of
          Quiet \<Rightarrow> Some (s, None)
        | Reset_Socket \<Rightarrow> Some (tcp_reset s, None)
        | Send \<Rightarrow> do { packet \<leftarrow> dispatch_packet cx s; Some (s, packet) } })"

section \<open>After the packet is sent\<close>

definition dispatch_finish :: "tcp_context \<Rightarrow> tcp_repr \<Rightarrow> bool \<Rightarrow> tcp_socket \<Rightarrow> tcp_socket option" where
  "dispatch_finish cx repr is_keep_alive s =
     (let s = s\<lparr>s_timer := timer_rewind_keep_alive (cx_now cx) (s_keep_alive s) (s_timer s)\<rparr>;
          s = s\<lparr>s_ack_delay_timer := Ack_Idle\<rparr>
      in if is_keep_alive then Some s
         else do {
           last_seq \<leftarrow> seq_add (r_seq_number repr) (repr_segment_len repr);
           let s = s\<lparr>s_remote_last_seq := last_seq\<rparr>;
           let s = s\<lparr>s_remote_last_ack := r_ack_number repr\<rparr>;
           let s = s\<lparr>s_remote_last_win := r_window_len repr\<rparr>;
           let s = (if repr_segment_len repr > 0
                    then let s = s\<lparr>s_rtte := rtte_on_send (cx_now cx) last_seq (s_rtte s)\<rparr>
                         in s\<lparr>s_congestion_controller := cc_post_transmit (cx_now cx)
                               (repr_segment_len repr) (s_congestion_controller s)\<rparr>
                    else s);
           transmit \<leftarrow> seq_to_transmit cx s;
           let s = (if \<not> transmit \<and> repr_segment_len repr > 0
                    then s\<lparr>s_timer := timer_set_for_retransmit (cx_now cx)
                            (retransmission_timeout (s_rtte s)) (s_timer s)\<rparr>
                    else s);
           Some (if s_state s = Closed then s\<lparr>s_tuple := None\<rparr> else s) })"

definition tcp_dispatch ::
  "(tcp_context \<Rightarrow> ip_repr \<times> tcp_repr \<Rightarrow> ('e + unit) \<times> tcp_context) \<Rightarrow> tcp_context \<Rightarrow> tcp_socket \<Rightarrow>
   (('e + unit) \<times> tcp_context \<times> tcp_socket) option" where
  "tcp_dispatch emit cx s =
     do { (s, packet) \<leftarrow> dispatch_prepare cx s;
          case packet of
            None \<Rightarrow> Some (Inr (), cx, s)
          | Some (ip, repr, is_keep_alive) \<Rightarrow>
              (case emit cx (ip, repr) of
                 (Inl e, cx) \<Rightarrow> Some (Inl e, cx, s)
               | (Inr _, cx) \<Rightarrow> do { s \<leftarrow> dispatch_finish cx repr is_keep_alive s;
                                     Some (Inr (), cx, s) }) }"

section \<open>When to dispatch\<close>

definition delayed_ack_poll_at :: "bool \<Rightarrow> ack_delay_timer \<Rightarrow> poll_at" where
  "delayed_ack_poll_at want_ack ack_timer =
     (if \<not> want_ack then PollIngress
      else case ack_timer of Ack_Idle \<Rightarrow> PollNow | Ack_Waiting t \<Rightarrow> PollTime t | Ack_Immediate \<Rightarrow> PollNow)"

definition timeout_poll_at :: "tcp_socket \<Rightarrow> poll_at" where
  "timeout_poll_at s = (case (s_remote_last_ts s, s_timeout s) of
      (Some remote_last_ts, Some timeout) \<Rightarrow> PollTime (instant_add remote_last_ts timeout)
    | _ \<Rightarrow> PollIngress)"

definition tcp_poll_at :: "tcp_context \<Rightarrow> tcp_socket \<Rightarrow> poll_at option" where
  "tcp_poll_at cx s =
     (if s_tuple s = None then Some PollIngress
      else if s_remote_last_ts s = None then Some PollNow
      else if s_state s = Closed then Some PollNow
      else do {
        transmit \<leftarrow> seq_to_transmit cx s;
        if transmit then Some PollNow
        else do {
          ack \<leftarrow> ack_to_transmit s;
          let want_ack = (ack \<or> window_to_update s);
          Some (min (timer_poll_at (s_timer s))
                  (min (timeout_poll_at s) (delayed_ack_poll_at want_ack (s_ack_delay_timer s)))) } })"

end
