(* ===== verification/Tcp_Invariant.thy ===== *)
theory Tcp_Invariant
  imports Tcp_Dispatch
begin

text \<open>
  The invariant of a TCP socket and the specification of each phase of \<open>process\<close> under it.
\<close>

section \<open>The invariant\<close>

text \<open>
  \<open>in_flight\<close> counts the sequence numbers sent and not acknowledged, \<open>sent_control_len\<close> the SYN
  or FIN that may be among them.
\<close>

definition in_flight :: "tcp_socket \<Rightarrow> nat" where
  "in_flight s = unat (s_remote_last_seq s - s_local_seq_no s)"

definition sent_control_len :: "tcp_state \<Rightarrow> nat" where
  "sent_control_len st = (let (sent_syn, sent_fin) = sent_flags st in flag_len sent_syn + flag_len sent_fin)"

definition handshaking :: "tcp_state \<Rightarrow> bool" where
  "handshaking st \<longleftrightarrow> st = SynSent \<or> st = SynReceived"

definition buffers_inv :: "tcp_socket \<Rightarrow> bool" where
  "buffers_inv s \<longleftrightarrow> rb_inv (s_rx_buffer s) \<and> rb_inv (s_tx_buffer s) \<and> asm_inv (s_assembler s)
     \<and> (\<forall>i\<in>asm_present (s_assembler s). i < rb_window (s_rx_buffer s))
     \<and> rb_capacity (s_rx_buffer s) \<le> 2 ^ 30 \<and> rb_capacity (s_tx_buffer s) < i32_max"

definition peer_inv :: "tcp_socket \<Rightarrow> bool" where
  "peer_inv s \<longleftrightarrow>
     (s_tuple s = None \<longrightarrow> s_state s = Closed \<or> s_state s = Listen)
     \<and> (\<forall>t. s_tuple s = Some t \<longrightarrow>
           addr_version (ep_addr (t_local t)) = addr_version (ep_addr (t_remote t)) \<and> s_state s \<noteq> Listen)
     \<and> (\<forall>sc. s_remote_win_scale s = Some sc \<longrightarrow> sc \<le> 14)
     \<and> s_remote_win_len s \<le> 2 ^ 30 \<and> s_remote_mss s \<le> 65535"

definition flight_inv :: "tcp_socket \<Rightarrow> bool" where
  "flight_inv s \<longleftrightarrow> s_state s = Closed \<or> s_state s = Listen
     \<or> in_flight s \<le> rb_length (s_tx_buffer s) + sent_control_len (s_state s)"

text \<open>While a SYN is in flight only the retransmission timer makes the socket transmit.\<close>

definition syn_quiet :: "tcp_socket \<Rightarrow> bool" where
  "syn_quiet s \<longleftrightarrow> timer_is_retransmit (s_timer s) \<and> ack_to_transmit s = Some False \<and> \<not> window_to_update s"

definition handshake_inv :: "tcp_socket \<Rightarrow> bool" where
  "handshake_inv s \<longleftrightarrow>
     (handshaking (s_state s) \<or> s_state s = Listen \<longrightarrow>
        rb_length (s_rx_buffer s) = 0 \<and> rb_length (s_tx_buffer s) = 0 \<and> asm_present (s_assembler s) = {})
     \<and> (handshaking (s_state s) \<and> in_flight s \<noteq> 0 \<longrightarrow> syn_quiet s)"

definition timer_inv :: "tcp_socket \<Rightarrow> bool" where
  "timer_inv s \<longleftrightarrow> (\<forall>t. s_timer s = Timer_Close t \<longrightarrow> s_state s = TimeWait \<or> s_state s = Closed)"

definition tcp_inv :: "tcp_socket \<Rightarrow> bool" where
  "tcp_inv s \<longleftrightarrow> buffers_inv s \<and> peer_inv s \<and> flight_inv s \<and> handshake_inv s \<and> timer_inv s"

text \<open>A segment as \<open>Repr::parse\<close> delivers it: at most 64 KiB, and a window scale of at most 14.\<close>

definition wf_segment :: "tcp_repr \<Rightarrow> bool" where
  "wf_segment repr \<longleftrightarrow> length (r_payload repr) \<le> 65535
     \<and> (\<forall>sc. r_window_scale repr = Some sc \<longrightarrow> sc \<le> 14)"

lemma tcp_invI:
  "buffers_inv s \<Longrightarrow> peer_inv s \<Longrightarrow> flight_inv s \<Longrightarrow> handshake_inv s \<Longrightarrow> timer_inv s \<Longrightarrow> tcp_inv s"
  by (simp add: tcp_inv_def)

lemma tcp_invD:
  assumes "tcp_inv s"
  shows "buffers_inv s" "peer_inv s" "flight_inv s" "handshake_inv s" "timer_inv s"
  using assms by (simp_all add: tcp_inv_def)

lemma buffers_invD:
  assumes "buffers_inv s"
  shows "rb_inv (s_rx_buffer s)" "rb_inv (s_tx_buffer s)" "asm_inv (s_assembler s)"
    "\<And>i. i \<in> asm_present (s_assembler s) \<Longrightarrow> i < rb_window (s_rx_buffer s)"
    "rb_length (s_rx_buffer s) \<le> rb_capacity (s_rx_buffer s)"
    "rb_length (s_tx_buffer s) \<le> rb_capacity (s_tx_buffer s)"
    "rb_capacity (s_rx_buffer s) \<le> 2 ^ 30" "rb_capacity (s_tx_buffer s) < i32_max"
    "rb_capacity (s_rx_buffer s) \<le> i32_max" "rb_length (s_rx_buffer s) \<le> i32_max"
    "rb_length (s_tx_buffer s) + 1 \<le> i32_max"
  using assms by (auto simp: buffers_inv_def rb_inv_def i32_max_def)

text \<open>What each part of the invariant reads of the socket.\<close>

lemma buffers_inv_cong:
  assumes "s_rx_buffer s' = s_rx_buffer s" "s_tx_buffer s' = s_tx_buffer s" "s_assembler s' = s_assembler s"
  shows "buffers_inv s' = buffers_inv s"
  unfolding buffers_inv_def assms by (rule refl)

lemma peer_inv_cong:
  assumes "s_tuple s' = s_tuple s" "s_remote_win_scale s' = s_remote_win_scale s"
    "s_remote_win_len s' = s_remote_win_len s" "s_remote_mss s' = s_remote_mss s" "s_state s' = s_state s"
  shows "peer_inv s' = peer_inv s"
  unfolding peer_inv_def assms by (rule refl)

lemma flight_inv_cong:
  assumes "s_local_seq_no s' = s_local_seq_no s" "s_remote_last_seq s' = s_remote_last_seq s"
    "s_tx_buffer s' = s_tx_buffer s" "s_state s' = s_state s"
  shows "flight_inv s' = flight_inv s" "in_flight s' = in_flight s"
  unfolding flight_inv_def in_flight_def assms by (rule refl)+

lemma timer_inv_cong:
  assumes "s_timer s' = s_timer s" "s_state s' = s_state s"
  shows "timer_inv s' = timer_inv s"
  unfolding timer_inv_def assms by (rule refl)

lemma ack_window_cong:
  assumes "s_rx_buffer s' = s_rx_buffer s" "s_remote_seq_no s' = s_remote_seq_no s"
    "s_remote_last_ack s' = s_remote_last_ack s" "s_remote_last_win s' = s_remote_last_win s"
    "s_remote_win_shift s' = s_remote_win_shift s" "s_state s' = s_state s"
  shows "ack_to_transmit s' = ack_to_transmit s" "window_to_update s' = window_to_update s"
  unfolding ack_to_transmit_def window_to_update_def scaled_window_def assms by (rule refl)+

lemmas inv_congs = buffers_inv_cong peer_inv_cong flight_inv_cong timer_inv_cong ack_window_cong

section \<open>Sequence numbers in flight\<close>

lemma seq_lt_offset:
  assumes "i \<le> i32_max" "j \<le> i32_max"
  shows "seq_lt (base + of_nat i) (base + of_nat j) \<longleftrightarrow> i < j"
    "seq_gt (base + of_nat i) (base + of_nat j) \<longleftrightarrow> j < i"
    "seq_le (base + of_nat i) (base + of_nat j) \<longleftrightarrow> i \<le> j"
    "seq_ge (base + of_nat i) (base + of_nat j) \<longleftrightarrow> j \<le> i"
proof -
  have "\<bar>int i - int j\<bar> < 2 ^ 31" using assms by (simp add: i32_max_def)
  from seq_offset_cmp [OF this, of base]
  show "seq_lt (base + of_nat i) (base + of_nat j) \<longleftrightarrow> i < j"
    "seq_gt (base + of_nat i) (base + of_nat j) \<longleftrightarrow> j < i"
    "seq_le (base + of_nat i) (base + of_nat j) \<longleftrightarrow> i \<le> j"
    "seq_ge (base + of_nat i) (base + of_nat j) \<longleftrightarrow> j \<le> i" by simp_all
qed

lemma unat_offset_diff:
  assumes "j \<le> i" "i \<le> i32_max"
  shows "unat ((base + of_nat i) - (base + of_nat j) :: u32) = i - j"
proof -
  have "(base + of_nat i) - (base + of_nat j) = (of_nat (i - j) :: u32)"
    using assms by (simp add: of_nat_diff)
  moreover have "i - j < 2 ^ 32" using assms by (simp add: i32_max_def)
  ultimately show ?thesis by (simp add: unat_of_nat)
qed

text \<open>An acknowledgement number between the bounds is an offset within them.\<close>

lemma ack_range_offset:
  assumes "\<not> seq_lt a base" "\<not> seq_gt a (base + of_nat n)" "n \<le> i32_max"
  shows "unat (a - base) \<le> n"
proof -
  let ?k = "unat (a - base)"
  have "seq_ge a base" using assms(1) by (auto simp: seq_ge_def seq_lt_def)
  then have k: "?k \<le> i32_max" by (simp add: seq_ge_offset)
  have "\<not> seq_gt (base + of_nat ?k) (base + of_nat n)"
    using assms(2) by simp
  then show ?thesis
    using seq_lt_offset(2) [OF k assms(3), of base] by simp
qed

lemma flight_after_ack:
  assumes "unat (rls - local) \<le> i32_max" "unat (a - local) \<le> i32_max"
  shows "(if seq_lt rls a then 0 else unat (rls - a)) = unat (rls - local) - unat (a - local)"
proof -
  let ?d = "unat (rls - local)" and ?k = "unat (a - local)"
  have eq: "rls = local + of_nat ?d" "a = local + of_nat ?k" by simp_all
  have "seq_lt rls a \<longleftrightarrow> ?d < ?k"
    by (subst eq(1), subst eq(2)) (rule seq_lt_offset(1) [OF assms])
  moreover have "unat (rls - a) = ?d - ?k" if "\<not> ?d < ?k"
  proof -
    have "unat ((local + of_nat ?d) - (local + of_nat ?k)) = ?d - ?k"
      by (rule unat_offset_diff) (use that assms in simp_all)
    then show ?thesis by simp
  qed
  ultimately show ?thesis by auto
qed

end
