(* ===== verification/Tcp_Receive.thy ===== *)
theory Tcp_Receive
  imports Tcp_Invariant
begin

text \<open>
  The first half of the receive path under the invariant: replies, the check of the
  acknowledgement number, and the receive window. \<^verbatim>\<open>Tcp_Receive_Main\<close> has the rest.
\<close>

section \<open>Replies\<close>

lemma tcp_reply_spec:
  "\<exists>ip'. tcp_reply ip repr = Some (ip', \<lparr>r_src_port = r_dst_port repr, r_dst_port = r_src_port repr,
            r_control = Ctl_None, r_seq_number = 0, r_ack_number = None, r_window_len = 0,
            r_window_scale = None, r_max_seg_size = None, r_sack_permitted = False,
            r_sack_ranges = (None, None, None), r_payload = []\<rparr>)
     \<and> ip_src_addr ip' = ip_dst_addr ip \<and> ip_dst_addr ip' = ip_src_addr ip"
  using ip_repr_new_eq [of "ip_dst_addr ip" "ip_src_addr ip"] ip_repr_same_version [of ip]
  unfolding tcp_reply_def Let_def by (metis (no_types, lifting) bind.bind_lunit)

lemma tcp_rst_reply_spec:
  assumes "r_control repr \<noteq> Ctl_Rst" "r_ack_number repr = Some a"
  shows "\<exists>ip' r. tcp_rst_reply ip repr = Some (ip', r) \<and> r_control r = Ctl_Rst \<and> r_seq_number r = a
     \<and> r_ack_number r = None"
  using assms tcp_reply_spec [of ip repr] by (auto simp: tcp_rst_reply_def Let_def)

definition ack_sent :: "tcp_socket \<Rightarrow> tcp_socket" where
  "ack_sent s = s\<lparr>s_remote_last_ack := Some (s_remote_seq_no s + of_nat (rb_length (s_rx_buffer s))),
                  s_remote_last_win := scaled_window s\<rparr>"

lemma scaled_window_updates [simp]:
  "scaled_window (s\<lparr>s_remote_last_ack := x\<rparr>) = scaled_window s"
  "scaled_window (s\<lparr>s_challenge_ack_timer := t\<rparr>) = scaled_window s"
  by (simp_all add: scaled_window_def)

lemma tcp_ack_reply_spec:
  assumes "buffers_inv s"
  shows "\<exists>ip' r. tcp_ack_reply ip repr s = Some ((ip', r), ack_sent s) \<and> r_control r = Ctl_None
     \<and> r_seq_number r = s_remote_last_seq s \<and> r_payload r = [] \<and> r_window_len r = scaled_window s
     \<and> r_ack_number r = Some (s_remote_seq_no s + of_nat (rb_length (s_rx_buffer s)))
     \<and> r_src_port r = r_dst_port repr \<and> r_dst_port r = r_src_port repr
     \<and> ip_src_addr ip' = ip_dst_addr ip \<and> ip_dst_addr ip' = ip_src_addr ip"
proof -
  obtain ip' where "tcp_reply ip repr = Some (ip', \<lparr>r_src_port = r_dst_port repr, r_dst_port = r_src_port repr,
            r_control = Ctl_None, r_seq_number = 0, r_ack_number = None, r_window_len = 0,
            r_window_scale = None, r_max_seg_size = None, r_sack_permitted = False,
            r_sack_ranges = (None, None, None), r_payload = []\<rparr>)"
    and ip: "ip_src_addr ip' = ip_dst_addr ip" "ip_dst_addr ip' = ip_src_addr ip"
    using tcp_reply_spec [of ip repr] by blast
  then show ?thesis
    using buffers_invD(10) [OF assms] by (simp add: tcp_ack_reply_def Let_def rb_len_def ack_sent_def)
qed

lemma ack_sent_inv:
  assumes "tcp_inv s"
  shows "tcp_inv (ack_sent s)"
proof (rule tcp_invI)
  note inv = tcp_invD [OF assms]
  show "buffers_inv (ack_sent s)"
    using inv(1) by (subst buffers_inv_cong [of _ s]) (simp_all add: ack_sent_def)
  show "peer_inv (ack_sent s)"
    using inv(2) by (subst peer_inv_cong [of _ s]) (simp_all add: ack_sent_def)
  show "flight_inv (ack_sent s)"
    using inv(3) by (subst flight_inv_cong [of _ s]) (simp_all add: ack_sent_def)
  show "timer_inv (ack_sent s)"
    using inv(5) by (subst timer_inv_cong [of _ s]) (simp_all add: ack_sent_def)
  have "ack_to_transmit (ack_sent s) = Some False"
    using buffers_invD(10) [OF inv(1)]
    by (simp add: ack_to_transmit_def ack_sent_def rb_len_def seq_lt_def)
  moreover have "\<not> window_to_update (ack_sent s)"
    by (auto simp: window_to_update_def ack_sent_def scaled_window_def split: tcp_state.splits)
  ultimately show "handshake_inv (ack_sent s)"
    using inv(4) by (auto simp: handshake_inv_def syn_quiet_def ack_sent_def in_flight_def)
qed

text \<open>Fields that the invariant does not read.\<close>

lemma tcp_inv_ignored [simp]:
  "tcp_inv (s\<lparr>s_challenge_ack_timer := t\<rparr>) = tcp_inv s"
  "tcp_inv (s\<lparr>s_local_rx_last_seq := q\<rparr>) = tcp_inv s"
  "tcp_inv (s\<lparr>s_rtte := e\<rparr>) = tcp_inv s"
  "tcp_inv (s\<lparr>s_congestion_controller := c\<rparr>) = tcp_inv s"
  "tcp_inv (s\<lparr>s_ack_delay_timer := d\<rparr>) = tcp_inv s"
  "tcp_inv (s\<lparr>s_remote_last_ts := ts\<rparr>) = tcp_inv s"
  "tcp_inv (s\<lparr>s_timeout := ts'\<rparr>) = tcp_inv s"
  "tcp_inv (s\<lparr>s_keep_alive := ts''\<rparr>) = tcp_inv s"
  "tcp_inv (s\<lparr>s_hop_limit := h\<rparr>) = tcp_inv s"
  "tcp_inv (s\<lparr>s_ack_delay := ad\<rparr>) = tcp_inv s"
  "tcp_inv (s\<lparr>s_nagle := b\<rparr>) = tcp_inv s"
  "tcp_inv (s\<lparr>s_bound_endpoint := e'\<rparr>) = tcp_inv s"
  "tcp_inv (s\<lparr>s_local_rx_dup_acks := n\<rparr>) = tcp_inv s"
  "tcp_inv (s\<lparr>s_local_rx_last_ack := la\<rparr>) = tcp_inv s"
  by (simp_all add: tcp_inv_def buffers_inv_def peer_inv_def flight_inv_def handshake_inv_def
      timer_inv_def syn_quiet_def in_flight_def ack_to_transmit_def window_to_update_def scaled_window_def
      cong: option.case_cong tcp_state.case_cong timer.case_cong)

definition challenge_result :: "tcp_context \<Rightarrow> tcp_socket \<Rightarrow> tcp_socket" where
  "challenge_result cx s = (if cx_now cx < s_challenge_ack_timer s then s
     else ack_sent (s\<lparr>s_challenge_ack_timer := instant_add (cx_now cx) (duration_from_secs 1)\<rparr>))"

lemma tcp_challenge_ack_reply_spec:
  assumes "buffers_inv s"
  obtains reply where "tcp_challenge_ack_reply cx ip repr s = Some (reply, challenge_result cx s)"
    and "reply = None \<longleftrightarrow> cx_now cx < s_challenge_ack_timer s"
    and "\<And>ip' r. reply = Some (ip', r) \<Longrightarrow> r_control r = Ctl_None \<and> r_payload r = []"
proof (cases "cx_now cx < s_challenge_ack_timer s")
  case True
  then show thesis
    using that [of None] by (simp add: tcp_challenge_ack_reply_def challenge_result_def)
next
  case False
  let ?s = "s\<lparr>s_challenge_ack_timer := instant_add (cx_now cx) (duration_from_secs 1)\<rparr>"
  have "buffers_inv ?s" using assms by (simp add: buffers_inv_def)
  from tcp_ack_reply_spec [OF this, of ip repr] show thesis
    using that False by (fastforce simp: tcp_challenge_ack_reply_def challenge_result_def Let_def)
qed

lemma challenge_result_inv: "tcp_inv s \<Longrightarrow> tcp_inv (challenge_result cx s)"
  by (simp add: challenge_result_def ack_sent_inv)

section \<open>The acknowledgement number\<close>

text \<open>The acknowledgement of a segment that passes the check (an RST needs none).\<close>

definition ack_acceptable :: "tcp_repr \<Rightarrow> tcp_socket \<Rightarrow> bool" where
  "ack_acceptable repr s \<longleftrightarrow> (case r_ack_number repr of
      None \<Rightarrow> s_state s = Listen
    | Some a \<Rightarrow> s_state s \<noteq> Listen \<and>
        (if s_state s = SynSent then r_control repr = Ctl_Syn \<and> a = s_local_seq_no s + 1
         else if s_state s = SynReceived then a = s_local_seq_no s + 1
         else unat (a - s_local_seq_no s) \<le> rb_length (s_tx_buffer s) + sent_control_len (s_state s)))"

lemma sent_flags_handshaking: "handshaking st \<Longrightarrow> sent_flags st = (True, False)"
  by (auto simp: handshaking_def sent_flags_def)

lemma sent_flags_other: "\<not> handshaking st \<Longrightarrow> sent_flags st = (False, want_fin st)"
  by (cases st) (simp_all add: handshaking_def sent_flags_def want_fin_def)

lemma sent_control_len_le: "sent_control_len st \<le> 1"
  by (cases st) (simp_all add: sent_control_len_def sent_flags_def flag_len_def)

lemma process_ack_range_cases:
  assumes "buffers_inv s" "\<not> handshaking (s_state s)"
  obtains (reject) reply where "process_ack_range cx ip repr a s = Some (Inl (reply, s))" "reply = None"
  | (challenge) reply where "process_ack_range cx ip repr a s = Some (Inl (reply, challenge_result cx s))"
      "\<And>ip' r. reply = Some (ip', r) \<Longrightarrow> r_control r = Ctl_None \<and> r_payload r = []"
      "reply = None \<longleftrightarrow> cx_now cx < s_challenge_ack_timer s"
  | (accept) "process_ack_range cx ip repr a s = Some (Inr ())"
      "unat (a - s_local_seq_no s) \<le> rb_length (s_tx_buffer s) + sent_control_len (s_state s)"
proof -
  let ?n = "rb_length (s_tx_buffer s) + sent_control_len (s_state s)"
  have n: "?n \<le> i32_max"
    using buffers_invD(11) [OF assms(1)] sent_control_len_le [of "s_state s"] by linarith
  note flags = sent_flags_other [OF assms(2)]
  have eq: "process_ack_range cx ip repr a s =
      (if seq_lt a (s_local_seq_no s) then Some (Inl (None, s))
       else if seq_gt a (s_local_seq_no s + of_nat ?n)
       then do { (reply, s) \<leftarrow> tcp_challenge_ack_reply cx ip repr s; Some (Inl (reply, s)) }
       else Some (Inr ()))"
    using n by (simp add: process_ack_range_def sent_control_len_def flags rb_len_def Let_def)
  obtain reply where r: "tcp_challenge_ack_reply cx ip repr s = Some (reply, challenge_result cx s)"
    "\<And>ip' r. reply = Some (ip', r) \<Longrightarrow> r_control r = Ctl_None \<and> r_payload r = []"
    "reply = None \<longleftrightarrow> cx_now cx < s_challenge_ack_timer s"
    using tcp_challenge_ack_reply_spec [OF assms(1)] by metis
  show thesis
  proof (cases "seq_lt a (s_local_seq_no s)")
    case True
    then show thesis using reject eq by simp
  next
    case ge: False
    show thesis
    proof (cases "seq_gt a (s_local_seq_no s + of_nat ?n)")
      case True
      then show thesis using challenge eq ge r by simp
    next
      case False
      then show thesis using accept eq ge ack_range_offset [OF ge False n] by simp
    qed
  qed
qed

lemma process_check_ack_cases:
  assumes "buffers_inv s" "tcp_accepts s ip repr"
  obtains (left) reply where "process_check_ack cx ip repr s = Some (Inl (reply, s))"
      "\<And>ip' r. reply = Some (ip', r) \<Longrightarrow> r_control repr \<noteq> Ctl_Rst"
  | (challenge) reply where "process_check_ack cx ip repr s = Some (Inl (reply, challenge_result cx s))"
      "\<And>ip' r. reply = Some (ip', r) \<Longrightarrow> r_control r = Ctl_None \<and> r_payload r = []"
      "r_control repr \<noteq> Ctl_Rst" "reply = None \<longleftrightarrow> cx_now cx < s_challenge_ack_timer s"
  | (accept) "process_check_ack cx ip repr s = Some (Inr ())"
      "r_control repr \<noteq> Ctl_Rst \<Longrightarrow> ack_acceptable repr s"
proof (cases "r_control repr = Ctl_Rst")
  case True
  have "process_check_ack cx ip repr s = Some (Inl (None, s)) \<or> process_check_ack cx ip repr s = Some (Inr ())"
    using True by (auto simp: process_check_ack_def Let_def seq_add_def i32_max_def split: option.splits)
  then show thesis using left accept True by auto
next
  case rst: False
  show thesis
  proof (cases "r_ack_number repr")
    case None
    then have "process_check_ack cx ip repr s = (if s_state s = Listen then Some (Inr ()) else Some (Inl (None, s)))"
      using rst by (simp add: process_check_ack_def Let_def)
    then show thesis using left accept None by (auto simp: ack_acceptable_def split: if_splits)
  next
    case (Some a)
    have nl: "s_state s \<noteq> Listen"
      using assms(2) Some by (auto simp: tcp_accepts_def split: if_splits)
    obtain rst where rst': "tcp_rst_reply ip repr = Some rst"
      using tcp_rst_reply_spec [OF rst Some, of ip] by blast
    consider (handshake) "handshaking (s_state s)" | (other) "\<not> handshaking (s_state s)" by blast
    then show thesis
    proof cases
      case handshake
      have "process_check_ack cx ip repr s \<in> {Some (Inl (None, s)), Some (Inl (Some rst, s))} \<or>
          process_check_ack cx ip repr s = Some (Inr ()) \<and> ack_acceptable repr s"
        using rst Some nl handshake rst'
        by (auto simp: process_check_ack_def Let_def handshaking_def ack_acceptable_def seq_add_def i32_max_def)
      then show thesis using left accept rst by auto
    next
      case other
      then have "process_check_ack cx ip repr s = process_ack_range cx ip repr a s"
        using rst Some nl by (auto simp: process_check_ack_def Let_def handshaking_def)
      with process_ack_range_cases [OF assms(1) other, of cx ip repr a] show thesis
        using left challenge accept other Some nl rst
        by (smt (verit) ack_acceptable_def handshaking_def option.simps(3,5))
    qed
  qed
qed

section \<open>The receive window\<close>

lemma unat_sum_mod: "(unat (x::u32) + unat y) mod 2 ^ 32 = unat (x + y)"
  by (simp add: unat_word_ariths)

lemma unat_diff_swap:
  assumes "(a::u32) \<noteq> b"
  shows "unat (b - a) = 2 ^ 32 - unat (a - b)"
proof -
  have "(unat (b - a) + unat (a - b)) mod 2 ^ 32 = 0"
    by (subst unat_sum_mod) simp
  moreover have "unat (b - a) < 2 ^ 32" "unat (a - b) < 2 ^ 32"
    using unsigned_less [of "b - a"] unsigned_less [of "a - b"] by simp_all
  moreover have "0 < unat (a - b)" using assms by (simp add: unat_gt_0)
  ultimately show ?thesis by (auto simp: mod_add_once split: if_splits)
qed

lemma seq_lt_iff: "seq_lt a b \<longleftrightarrow> 1 \<le> unat (b - a) \<and> unat (b - a) \<le> 2 ^ 31"
proof (cases "a = b")
  case False
  have "seq_lt a b \<longleftrightarrow> \<not> seq_ge a b" by (auto simp: seq_lt_def seq_ge_def)
  also have "\<dots> \<longleftrightarrow> i32_max < unat (a - b)" by (simp add: seq_ge_offset not_le)
  also have "\<dots> \<longleftrightarrow> 1 \<le> unat (b - a) \<and> unat (b - a) \<le> 2 ^ 31"
  proof -
    have "unat (a - b) < 2 ^ 32" using unsigned_less [of "a - b"] by simp
    then show ?thesis
      unfolding unat_diff_swap [OF False] i32_max_def by auto
  qed
  finally show ?thesis .
qed (simp add: seq_lt_def)

lemma seq_le_iff: "seq_le a b \<longleftrightarrow> unat (b - a) \<le> 2 ^ 31"
proof (cases "a = b")
  case False
  then have "sint (a - b) \<noteq> 0" by (simp add: signed_eq_0_iff)
  then have "seq_le a b \<longleftrightarrow> seq_lt a b" by (auto simp: seq_le_def seq_lt_def)
  moreover have "1 \<le> unat (b - a)" using False by (simp add: Suc_le_eq unat_gt_0)
  ultimately show ?thesis by (simp add: seq_lt_iff)
qed (simp add: seq_le_def)

text \<open>A number between two others that lie less than half the number space apart.\<close>

lemma seq_between:
  assumes "unat (b - a) \<le> 2 ^ 31" "unat (c - b) \<le> 2 ^ 31" "c = a + of_nat w" "w \<le> 2 ^ 30" "0 < w"
  shows "unat ((b::u32) - a) + unat (c - b) = w"
proof -
  have "(unat (b - a) + unat (c - b)) mod 2 ^ 32 = unat (of_nat w :: u32)"
    unfolding unat_sum_mod using assms(3) by simp
  also have "\<dots> = w" using assms(4) by (simp add: unat_of_nat)
  finally have "(unat (b - a) + unat (c - b)) mod 2 ^ 32 = w" .
  moreover have "unat (b - a) + unat (c - b) \<le> 2 ^ 32" using assms(1,2) by simp
  ultimately show ?thesis
    using assms(4,5) by (cases "unat (b - a) + unat (c - b) = 2 ^ 32") (auto simp: mod_less)
qed

lemma segment_in_window_offsets:
  assumes "segment_in_window ws (ws + of_nat w) ss (ss + of_nat p) = Some True" "w \<le> 2 ^ 30" "p \<le> 65535"
  obtains q where "ss = (ws - 65536) + of_nat q" "q \<le> 65536 + w" "65536 \<le> q + p"
proof -
  let ?we = "ws + of_nat w" and ?se = "ss + of_nat p"
  have we: "ws = ?we \<longleftrightarrow> w = 0"
    using assms(2) by (auto simp: word_of_nat_eq_0_iff dest: dvd_imp_le)
  consider (same) "ws = ss"
    | (start) "seq_le ws ss" "seq_lt ss ?we" "ws \<noteq> ?we"
    | (finish) "seq_lt ws ?se" "seq_le ?se ?we" "ws \<noteq> ?we"
    using assms(1) by (auto simp: segment_in_window_def seq_sub_def i32_max_def split: if_splits)
  then show thesis
  proof cases
    case same
    show thesis by (rule that [of 65536]) (use same in simp_all)
  next
    case start
    have "unat (ss - ws) + unat (?we - ss) = w"
      by (rule seq_between) (use start we assms(2) in \<open>auto simp: seq_le_iff seq_lt_iff\<close>)
    then show thesis
      by (intro that [of "65536 + unat (ss - ws)"]) simp_all
  next
    case finish
    have "unat (?se - ws) + unat (?we - ?se) = w"
      by (rule seq_between) (use finish we assms(2) in \<open>auto simp: seq_le_iff seq_lt_iff\<close>)
    then show thesis
      using assms(3) by (intro that [of "65536 + unat (?se - ws) - p"]) (simp_all add: of_nat_diff)
  qed
qed

lemma overlap_offsets:
  fixes b :: u32
  assumes "ws = b + of_nat x" "we = b + of_nat (x + w)" "ss = b + of_nat q" "se = b + of_nat (q + p)"
    "x + w \<le> i32_max" "q + p \<le> i32_max" "q \<le> x + w" "x \<le> q + p"
  shows "seq_le (seq_max ws ss) (seq_min we se)"
    "seq_diff (seq_max ws ss) ss = Some (max x q - q)"
    "seq_diff (seq_min we se) ss = Some (min (x + w) (q + p) - q)"
    "seq_diff (seq_max ws ss) ws = Some (max x q - x)"
proof -
  have mx: "seq_max ws ss = b + of_nat (max x q)"
    unfolding assms(1,3) by (rule seq_offset_minmax) (use assms(5,6) in \<open>simp add: i32_max_def\<close>)
  have mn: "seq_min we se = b + of_nat (min (x + w) (q + p))"
    unfolding assms(2,4) by (rule seq_offset_minmax) (use assms(5,6) in \<open>simp add: i32_max_def\<close>)
  show "seq_le (seq_max ws ss) (seq_min we se)"
    unfolding mx mn by (subst seq_lt_offset(3)) (use assms(5-8) in auto)
  show "seq_diff (seq_max ws ss) ss = Some (max x q - q)"
    unfolding mx unfolding assms(3) by (rule seq_offset_diff) (use assms(5-8) in auto)
  show "seq_diff (seq_min we se) ss = Some (min (x + w) (q + p) - q)"
    unfolding mn unfolding assms(3) by (rule seq_offset_diff) (use assms(5-8) in auto)
  show "seq_diff (seq_max ws ss) ws = Some (max x q - x)"
    unfolding mx unfolding assms(1) by (rule seq_offset_diff) (use assms(5-8) in auto)
qed

definition time_wait_restart :: "tcp_context \<Rightarrow> tcp_socket \<Rightarrow> tcp_socket" where
  "time_wait_restart cx s =
     (if s_state s = TimeWait then s\<lparr>s_timer := timer_set_for_close (cx_now cx)\<rparr> else s)"

lemma time_wait_restart_inv:
  assumes "tcp_inv s"
  shows "tcp_inv (time_wait_restart cx s)"
proof (cases "s_state s = TimeWait")
  case True
  then show ?thesis
    using assms by (simp add: time_wait_restart_def tcp_inv_def buffers_inv_def peer_inv_def flight_inv_def
        handshake_inv_def timer_inv_def in_flight_def handshaking_def timer_set_for_close_def)
qed (use assms in \<open>simp add: time_wait_restart_def\<close>)

text \<open>
  A segment outside of the window is answered and changes nothing; inside, the part that overlaps
  the window goes on: \<open>length payload\<close> octets from position \<open>first\<close> of the segment, for position \<open>off\<close>
  of the window, both of the same sequence number.
\<close>

lemma process_window_cases:
  fixes s repr
  defines "ws \<equiv> s_remote_seq_no s + of_nat (rb_length (s_rx_buffer s))"
  defines "we \<equiv> s_remote_seq_no s + of_nat (rb_capacity (s_rx_buffer s))"
  assumes inv: "buffers_inv s" and wf: "wf_segment repr" and st: "s_state s \<noteq> Listen" "s_state s \<noteq> SynSent"
  obtains (outside) reply where "process_window cx ip repr ws we s
        = Some (Inl (reply, challenge_result cx (time_wait_restart cx s)))"
      "\<And>ip' r. reply = Some (ip', r) \<Longrightarrow> r_control r = Ctl_None \<and> r_payload r = []"
      "reply = None \<longleftrightarrow> cx_now cx < s_challenge_ack_timer s"
      "segment_in_window ws we (r_seq_number repr) (r_seq_number repr + of_nat (length (r_payload repr))) = Some False"
  | (inside) payload off first where "process_window cx ip repr ws we s
        = Some (Inr (payload, off, s\<lparr>s_local_rx_last_seq := Some (r_seq_number repr)\<rparr>))"
      "off + length payload \<le> rb_window (s_rx_buffer s)"
      "first + length payload \<le> length (r_payload repr)"
      "payload = take (length payload) (drop first (r_payload repr))"
      "ws + of_nat off = r_seq_number repr + of_nat first"
      "segment_in_window ws we (r_seq_number repr) (r_seq_number repr + of_nat (length (r_payload repr))) = Some True"
proof -
  let ?ss = "r_seq_number repr" and ?p = "length (r_payload repr)" and ?w = "rb_window (s_rx_buffer s)"
  let ?se = "?ss + of_nat ?p"
  have p: "?p \<le> 65535" using wf by (simp add: wf_segment_def)
  have w: "?w \<le> 2 ^ 30" using buffers_invD(7) [OF inv] by (simp add: rb_window_def)
  have we: "we = ws + of_nat ?w"
    using rb_length_window [OF buffers_invD(1) [OF inv]] unfolding ws_def we_def
    by (metis add.assoc of_nat_add)
  obtain b where b: "segment_in_window ws we ?ss ?se = Some b"
    by (simp add: segment_in_window_def i32_max_def)
  have seg: "seq_add ?ss ?p = Some ?se" using p by (simp add: seq_add_def i32_max_def)
  show thesis
  proof (cases b)
    case False
    let ?s = "time_wait_restart cx s"
    have "buffers_inv ?s" using inv by (simp add: time_wait_restart_def buffers_inv_def)
    from tcp_challenge_ack_reply_spec [OF this, of cx ip repr]
    obtain reply where r: "tcp_challenge_ack_reply cx ip repr ?s = Some (reply, challenge_result cx ?s)"
      "\<And>ip' r. reply = Some (ip', r) \<Longrightarrow> r_control r = Ctl_None \<and> r_payload r = []"
      "reply = None \<longleftrightarrow> cx_now cx < s_challenge_ack_timer ?s" by metis
    have "s_challenge_ack_timer ?s = s_challenge_ack_timer s" by (simp add: time_wait_restart_def)
    then show thesis
      using r False b st seg
      by (intro outside [of reply]) (auto simp: process_window_def time_wait_restart_def Let_def)
  next
    case True
    obtain q where q: "?ss = (ws - 65536) + of_nat q" "q \<le> 65536 + ?w" "65536 \<le> q + ?p"
      using segment_in_window_offsets [OF _ w p, of ws ?ss] b True we by auto
    let ?from = "max 65536 q - q" and ?to = "min (65536 + ?w) (q + ?p) - q" and ?off = "max 65536 q - 65536"
    have o: "seq_le (seq_max ws ?ss) (seq_min we ?se)" "seq_diff (seq_max ws ?ss) ?ss = Some ?from"
      "seq_diff (seq_min we ?se) ?ss = Some ?to" "seq_diff (seq_max ws ?ss) ws = Some ?off"
      using overlap_offsets [of ws "ws - 65536" 65536 we ?w ?ss q ?se ?p] q we w p by (simp_all add: i32_max_def)
    have sl: "slice_range ?from ?to (r_payload repr) = Some (take (?to - ?from) (drop ?from (r_payload repr)))"
      using q(2,3) by (auto simp: slice_range_def sub_slice_def max_def min_def)
    let ?payload = "take (?to - ?from) (drop ?from (r_payload repr))"
    have len: "length ?payload = ?to - ?from" using q(2,3) by (auto simp: max_def min_def)
    show thesis
    proof (rule inside [of ?payload ?off ?from])
      show "process_window cx ip repr ws we s
          = Some (Inr (?payload, ?off, s\<lparr>s_local_rx_last_seq := Some ?ss\<rparr>))"
        using b True st seg o sl by (simp add: process_window_def Let_def)
      show "?off + length ?payload \<le> ?w" "?from + length ?payload \<le> ?p"
        unfolding len using q(2,3) by (auto simp: max_def min_def)
      show "?payload = take (length ?payload) (drop ?from (r_payload repr))" by (simp add: len)
      show "ws + of_nat ?off = ?ss + of_nat ?from"
        unfolding q(1) by (auto simp: max_def of_nat_diff)
      show "segment_in_window ws we ?ss ?se = Some True" using b True by simp
    qed
  qed
qed

end
