(* ===== verification/Tcp_Receive_Main.thy ===== *)
theory Tcp_Receive_Main
  imports Tcp_Receive
begin

text \<open>
  The second half of the receive path: acknowledged octets, the state transition, the transmit
  buffer, the payload, and the composition of all phases: \<open>process\<close> returns and keeps the invariant.
\<close>

section \<open>The acknowledged octets\<close>

definition acked_result :: "tcp_repr \<Rightarrow> tcp_socket \<Rightarrow> nat \<times> bool \<times> bool" where
  "acked_result repr s = (case r_ack_number repr of
      None \<Rightarrow> (0, False, False)
    | Some a \<Rightarrow>
        if handshaking (s_state s) then (0, False, s_remote_last_seq s = a)
        else let k = unat (a - s_local_seq_no s);
                 fin = want_fin (s_state s) \<and> k = rb_length (s_tx_buffer s) + 1
             in (if fin then rb_length (s_tx_buffer s) else k, fin, s_remote_last_seq s = a))"

lemma seq_ge_refl [simp]: "seq_ge a a"
  by (simp add: seq_ge_def)

lemma process_acked_spec:
  assumes "buffers_inv s" "r_control repr \<noteq> Ctl_Rst" "ack_acceptable repr s"
  obtains e c where "process_acked cx repr s
     = Some (acked_result repr s, s\<lparr>s_rtte := e, s_congestion_controller := c\<rparr>)"
proof (cases "r_ack_number repr")
  case None
  have "process_acked cx repr s = Some (acked_result repr s, s)"
    using None assms(2) by (simp add: process_acked_def acked_result_def Let_def split_beta)
  then show thesis using that [of "s_congestion_controller s" "s_rtte s"] by simp
next
  case (Some a)
  show thesis
  proof (cases "handshaking (s_state s)")
    case True
    then have "a = s_local_seq_no s + 1"
      using assms(3) Some by (auto simp: ack_acceptable_def handshaking_def split: if_splits)
    then show thesis
      using that assms(2) Some True
      by (simp add: process_acked_def acked_result_def sent_flags_handshaking flag_len_def i32_max_def
          seq_diff_eq seq_ge_offset)
  next
    case False
    have "unat (a - s_local_seq_no s) \<le> i32_max"
      using assms(3) Some False buffers_invD(11) [OF assms(1)] sent_control_len_le [of "s_state s"]
      by (auto simp: ack_acceptable_def handshaking_def split: if_splits)
    then show thesis
      using that assms(2) Some False
      by (cases "want_fin (s_state s)"; cases "unat (a - s_local_seq_no s) = Suc (rb_length (s_tx_buffer s))")
        (simp_all add: process_acked_def acked_result_def sent_flags_other flag_len_def i32_max_def
          seq_diff_eq seq_ge_offset rb_len_def Let_def)
  qed
qed

section \<open>The state transition\<close>

text \<open>
  After the transition the acknowledgement is already counted in the state, but the buffer and the
  sequence numbers move later: what holds in between.
\<close>

definition flight_after :: "seq_number \<Rightarrow> tcp_socket \<Rightarrow> nat" where
  "flight_after a s = (if seq_lt (s_remote_last_seq s) a then 0 else unat (s_remote_last_seq s - a))"

definition synchronized :: "tcp_state \<Rightarrow> bool" where
  "synchronized st \<longleftrightarrow> st \<noteq> Listen \<and> \<not> handshaking st"

definition mid_inv :: "seq_number \<Rightarrow> nat \<Rightarrow> tcp_socket \<Rightarrow> bool" where
  "mid_inv a ack_len s \<longleftrightarrow> buffers_inv s \<and> peer_inv s \<and> timer_inv s \<and> synchronized (s_state s)
     \<and> ack_len \<le> rb_length (s_tx_buffer s)
     \<and> (s_state s = Closed
        \<or> flight_after a s \<le> rb_length (s_tx_buffer s) - ack_len + sent_control_len (s_state s))"

text \<open>What most transitions leave alone.\<close>

definition same_core :: "tcp_socket \<Rightarrow> tcp_socket \<Rightarrow> bool" where
  "same_core s s' \<longleftrightarrow> s_rx_buffer s' = s_rx_buffer s \<and> s_tx_buffer s' = s_tx_buffer s
     \<and> s_assembler s' = s_assembler s \<and> s_tuple s' = s_tuple s
     \<and> s_remote_win_scale s' = s_remote_win_scale s \<and> s_remote_win_len s' = s_remote_win_len s
     \<and> s_remote_mss s' = s_remote_mss s \<and> s_local_seq_no s' = s_local_seq_no s
     \<and> s_remote_last_seq s' = s_remote_last_seq s"

lemma sent_control_len_simps [simp]:
  "sent_control_len Closed = 0" "sent_control_len Listen = 0" "sent_control_len SynSent = 1"
  "sent_control_len SynReceived = 1" "sent_control_len Established = 0" "sent_control_len FinWait1 = 1"
  "sent_control_len FinWait2 = 0" "sent_control_len CloseWait = 0" "sent_control_len Closing = 1"
  "sent_control_len LastAck = 1" "sent_control_len TimeWait = 0"
  by (simp_all add: sent_control_len_def sent_flags_def flag_len_def)

lemma want_fin_control_len: "synchronized st \<Longrightarrow> want_fin st \<longleftrightarrow> sent_control_len st = 1"
  by (cases st) (simp_all add: want_fin_def synchronized_def handshaking_def)

lemma acked_result_synchronized:
  assumes "acked_result repr s = (ack_len, ack_of_fin, ack_all)" "r_ack_number repr = Some a"
    "ack_acceptable repr s" "synchronized (s_state s)"
  shows "ack_len \<le> rb_length (s_tx_buffer s)"
    "ack_of_fin \<Longrightarrow> unat (a - s_local_seq_no s) = rb_length (s_tx_buffer s) + 1
       \<and> ack_len = rb_length (s_tx_buffer s) \<and> want_fin (s_state s)"
    "\<not> ack_of_fin \<Longrightarrow> ack_len = unat (a - s_local_seq_no s)"
  using assms want_fin_control_len [OF assms(4)] sent_control_len_le [of "s_state s"]
  by (auto simp: acked_result_def ack_acceptable_def synchronized_def handshaking_def Let_def split: if_splits)

lemma flight_after_eq:
  assumes "in_flight s \<le> i32_max" "unat (a - s_local_seq_no s) \<le> i32_max"
  shows "flight_after a s = in_flight s - unat (a - s_local_seq_no s)"
  using flight_after_ack [of "s_remote_last_seq s" "s_local_seq_no s" a] assms
  by (simp add: flight_after_def in_flight_def)

lemma mid_invI:
  assumes "same_core s s'" "tcp_inv s" "synchronized (s_state s)" "s_state s \<noteq> Closed"
    and "synchronized (s_state s')" "s_state s' \<noteq> Closed" "timer_inv s'"
    and ack: "acked_result repr s = (ack_len, ack_of_fin, ack_all)" "r_ack_number repr = Some a"
      "ack_acceptable repr s"
    and "ack_of_fin \<or> sent_control_len (s_state s) \<le> sent_control_len (s_state s')"
  shows "mid_inv a ack_len s'"
proof -
  note inv = tcp_invD [OF assms(2)]
  note core = assms(1) [unfolded same_core_def]
  let ?tx = "rb_length (s_tx_buffer s)" and ?k = "unat (a - s_local_seq_no s)"
  have d: "in_flight s \<le> ?tx + sent_control_len (s_state s)"
    using inv(3) assms(3,4) by (simp add: flight_inv_def synchronized_def)
  have k: "?k \<le> ?tx + sent_control_len (s_state s)"
    using assms(3) ack by (auto simp: ack_acceptable_def synchronized_def handshaking_def split: if_splits)
  have small: "?tx + sent_control_len (s_state s) \<le> i32_max"
    using buffers_invD(11) [OF inv(1)] sent_control_len_le [of "s_state s"] by linarith
  note al = acked_result_synchronized [OF ack assms(3)]
  have "flight_after a s \<le> ?tx - ack_len + sent_control_len (s_state s')"
  proof (cases ack_of_fin)
    case True
    then show ?thesis
      using al(2) d k small sent_control_len_le [of "s_state s"] by (simp add: flight_after_eq)
  next
    case False
    then show ?thesis
      using al(3) assms(11) d k small by (simp add: flight_after_eq)
  qed
  moreover have "buffers_inv s'" using inv(1) core by (simp add: buffers_inv_def)
  moreover have "peer_inv s'" using inv(2) core assms(3-6) by (auto simp: peer_inv_def synchronized_def)
  ultimately show ?thesis
    using assms(5,7) al(1) core by (auto simp: mid_inv_def flight_after_def)
qed

lemma set_simps [simp]:
  "s_timer (set_for_idle cx s) = timer_set_for_idle (cx_now cx) (s_keep_alive s)"
  "s_state (set_for_idle cx s) = s_state s"
  "s_timer (set_for_close cx s) = timer_set_for_close (cx_now cx)"
  "s_state (set_for_close cx s) = s_state s"
  "s_state (tcp_set_state st s) = st"
  "s_timer (tcp_set_state st s) = s_timer s"
  by (simp_all add: set_for_idle_def set_for_close_def tcp_set_state_def)

lemma same_core_sets [simp]:
  "same_core s s"
  "same_core s (set_for_idle cx s') = same_core s s'"
  "same_core s (set_for_close cx s') = same_core s s'"
  "same_core s (tcp_set_state st s') = same_core s s'"
  "same_core s (s'\<lparr>s_remote_seq_no := q\<rparr>) = same_core s s'"
  "same_core s (s'\<lparr>s_rx_fin_received := b\<rparr>) = same_core s s'"
  by (simp_all add: same_core_def set_for_idle_def set_for_close_def tcp_set_state_def)

lemma timer_inv_sets [simp]:
  "timer_inv (set_for_idle cx s)"
  "timer_inv (set_for_close cx (tcp_set_state TimeWait s))"
  by (simp_all add: timer_inv_def timer_set_for_idle_def timer_set_for_close_def)

lemma receive_fin_eq [simp]:
  "receive_fin s = Some (s\<lparr>s_remote_seq_no := s_remote_seq_no s + 1, s_rx_fin_received := True\<rparr>)"
  by (simp add: receive_fin_def i32_max_def)

lemma unat_u16_le: "unat (m::u16) \<le> 65535"
proof -
  have "unat m < 2 ^ 16" by (rule unsigned_less [THEN order_less_le_trans]) simp
  then show ?thesis by simp
qed

text \<open>The two transitions of a SYN.\<close>

lemma transition_listen_syn_cases:
  assumes "tcp_inv s" "s_state s = Listen" "wf_segment repr"
  obtains (leave) "transition_listen_syn cx ip repr s = Some (Inl s)"
  | (opened) cx' s' where "transition_listen_syn cx ip repr s = Some (Inr (cx', s'))" "tcp_inv s'"
      "s_rx_buffer s' = s_rx_buffer s" "s_assembler s' = s_assembler s" "s_state s' = SynReceived"
      "cx_now cx' = cx_now cx" "s_remote_seq_no s' = r_seq_number repr + 1"
proof (cases "r_max_seg_size repr = Some 0")
  case True
  then show thesis using leave by (simp add: transition_listen_syn_def)
next
  case False
  note mss = unat_u16_le
  note inv = tcp_invD [OF assms(1)]
  have scale: "sc \<le> 14" if "r_window_scale repr = Some sc" for sc
    using assms(3) that by (simp add: wf_segment_def)
  obtain seq rnd where rnd: "rand_u32 (cx_rand cx) = (seq, rnd)" by fastforce
  define s1 where "s1 = s\<lparr>s_tuple := Some
            \<lparr>t_local = \<lparr>ep_addr = ip_dst_addr ip, ep_port = r_dst_port repr\<rparr>,
             t_remote = \<lparr>ep_addr = ip_src_addr ip, ep_port = r_src_port repr\<rparr>\<rparr>,
       s_local_seq_no := seq, s_remote_seq_no := r_seq_number repr + 1, s_remote_last_seq := seq,
       s_remote_has_sack := r_sack_permitted repr, s_remote_win_scale := r_window_scale repr,
       s_state := SynReceived, s_timer := timer_set_for_idle (cx_now cx) (s_keep_alive s)\<rparr>"
  obtain cc mss' shift where r: "transition_listen_syn cx ip repr s = Some (Inr (cx\<lparr>cx_rand := rnd\<rparr>,
      s1\<lparr>s_congestion_controller := cc, s_remote_mss := mss', s_remote_win_shift := shift\<rparr>))" "mss' \<le> 65535"
  proof (rule that)
    show "transition_listen_syn cx ip repr s = Some (Inr (cx\<lparr>cx_rand := rnd\<rparr>,
      s1\<lparr>s_congestion_controller := case r_max_seg_size repr of Some m \<Rightarrow> cc_set_mss (unat m) (s_congestion_controller s)
            | None \<Rightarrow> s_congestion_controller s,
         s_remote_mss := case r_max_seg_size repr of Some m \<Rightarrow> unat m | None \<Rightarrow> s_remote_mss s,
         s_remote_win_shift := if r_window_scale repr = None then 0 else s_remote_win_shift s\<rparr>))"
      using False by (cases "r_max_seg_size repr"; cases "r_window_scale repr")
        (simp_all add: transition_listen_syn_def Let_def random_seq_no_def rnd s1_def i32_max_def
          set_for_idle_def tcp_set_state_def)
    show "(case r_max_seg_size repr of Some m \<Rightarrow> unat m | None \<Rightarrow> s_remote_mss s) \<le> 65535"
      using inv(2) mss by (auto simp: peer_inv_def split: option.splits)
  qed
  show thesis
  proof (rule opened [OF r(1)])
    show "tcp_inv (s1\<lparr>s_congestion_controller := cc, s_remote_mss := mss', s_remote_win_shift := shift\<rparr>)"
      using inv assms(2) scale r(2) ip_repr_same_version [of ip]
      by (simp add: s1_def timer_set_for_idle_def tcp_inv_def buffers_inv_def peer_inv_def
        flight_inv_def handshake_inv_def timer_inv_def in_flight_def)
  qed (simp_all add: s1_def)
qed

lemma transition_synsent_syn_cases:
  assumes "tcp_inv s" "s_state s = SynSent" "wf_segment repr" "r_ack_number repr = Some (s_local_seq_no s + 1)"
  obtains (leave) "transition_synsent_syn cx repr s = Some (Inl s)"
  | (opened) s' where "transition_synsent_syn cx repr s = Some (Inr s')" "mid_inv (s_local_seq_no s + 1) 0 s'"
      "s_rx_buffer s' = s_rx_buffer s" "s_assembler s' = s_assembler s" "s_state s' = Established"
      "s_tx_buffer s' = s_tx_buffer s" "s_remote_seq_no s' = r_seq_number repr + 1"
proof (cases "r_max_seg_size repr = Some 0")
  case True
  then show thesis using leave by (simp add: transition_synsent_syn_def)
next
  case False
  note mss = unat_u16_le
  note inv = tcp_invD [OF assms(1)]
  have scale: "sc \<le> 14" if "r_window_scale repr = Some sc" for sc
    using assms(3) that by (simp add: wf_segment_def)
  define s1 where "s1 = s\<lparr>s_remote_seq_no := r_seq_number repr + 1, s_remote_last_seq := s_local_seq_no s + 1,
       s_remote_last_ack := Some (r_seq_number repr), s_remote_win_scale := r_window_scale repr,
       s_state := Established, s_timer := timer_set_for_idle (cx_now cx) (s_keep_alive s)\<rparr>"
  obtain cc mss' shift where r: "transition_synsent_syn cx repr s = Some (Inr
      (s1\<lparr>s_congestion_controller := cc, s_remote_mss := mss', s_remote_win_shift := shift\<rparr>))" "mss' \<le> 65535"
  proof (rule that)
    show "transition_synsent_syn cx repr s = Some (Inr
      (s1\<lparr>s_congestion_controller := case r_max_seg_size repr of Some m \<Rightarrow> cc_set_mss (unat m) (s_congestion_controller s)
            | None \<Rightarrow> s_congestion_controller s,
         s_remote_mss := case r_max_seg_size repr of Some m \<Rightarrow> unat m | None \<Rightarrow> s_remote_mss s,
         s_remote_win_shift := if r_window_scale repr = None then 0 else s_remote_win_shift s\<rparr>))"
      using False by (cases "r_max_seg_size repr"; cases "r_window_scale repr")
        (simp_all add: transition_synsent_syn_def Let_def s1_def i32_max_def
          set_for_idle_def tcp_set_state_def)
    show "(case r_max_seg_size repr of Some m \<Rightarrow> unat m | None \<Rightarrow> s_remote_mss s) \<le> 65535"
      using inv(2) mss by (auto simp: peer_inv_def split: option.splits)
  qed
  show thesis
  proof (rule opened [OF r(1)])
    show "mid_inv (s_local_seq_no s + 1) 0
        (s1\<lparr>s_congestion_controller := cc, s_remote_mss := mss', s_remote_win_shift := shift\<rparr>)"
      using inv assms(2) scale r(2)
      by (auto simp: s1_def timer_set_for_idle_def mid_inv_def synchronized_def handshaking_def
        flight_after_def buffers_inv_def peer_inv_def timer_inv_def)
  qed (simp_all add: s1_def)
qed

text \<open>The other transitions.\<close>

definition acked_by :: "tcp_repr \<Rightarrow> tcp_socket \<Rightarrow> nat \<Rightarrow> bool \<Rightarrow> bool \<Rightarrow> bool" where
  "acked_by repr s ack_len ack_of_fin ack_all \<longleftrightarrow>
     ack_acceptable repr s \<and> acked_result repr s = (ack_len, ack_of_fin, ack_all)"

lemma rst_transition:
  assumes "tcp_inv s"
  obtains s' where "process_transition cx ip repr Ctl_Rst ack_of_fin ack_all s = Some (Inl s')" "tcp_inv s'"
    "s_state s' = (if s_state s = Listen \<or> s_state s = SynReceived then Listen else Closed)"
    "s_rx_buffer s' = s_rx_buffer s" "s_assembler s' = s_assembler s" "s_remote_seq_no s' = s_remote_seq_no s"
proof -
  note inv = tcp_invD [OF assms]
  let ?closed = "(tcp_set_state Closed s)\<lparr>s_tuple := None\<rparr>"
  let ?listen = "tcp_set_state Listen (s\<lparr>s_tuple := None\<rparr>)"
  have "tcp_inv ?closed"
    using inv by (auto simp: tcp_set_state_def tcp_inv_def buffers_inv_def peer_inv_def flight_inv_def
        handshake_inv_def timer_inv_def handshaking_def)
  moreover have "tcp_inv ?listen" if "s_state s = SynReceived"
    using inv that by (auto simp: tcp_set_state_def tcp_inv_def buffers_inv_def peer_inv_def flight_inv_def
        handshake_inv_def timer_inv_def handshaking_def)
  ultimately have inv': "tcp_inv ?closed" "s_state s = SynReceived \<Longrightarrow> tcp_inv ?listen" by blast+
  consider "s_state s = Listen" | "s_state s = SynReceived" | "s_state s \<noteq> Listen" "s_state s \<noteq> SynReceived" by blast
  then show thesis
  proof cases
    case 1
    then show thesis using that [of s] assms by (simp add: process_transition_def)
  next
    case 2
    then show thesis using inv'(2) by (intro that [of ?listen]) (simp_all add: process_transition_def tcp_set_state_def)
  next
    case 3
    then show thesis using inv'(1) by (intro that [of ?closed]) (simp_all add: process_transition_def tcp_set_state_def)
  qed
qed

lemma established_transition:
  assumes "tcp_inv s" "s_state s = SynReceived" "r_ack_number repr = Some a" "acked_by repr s ack_len ack_of_fin ack_all"
    and "s' = set_for_idle cx (tcp_set_state st s'')" "same_core s s''" "st = Established \<or> st = CloseWait"
  shows "mid_inv a ack_len s'"
proof -
  note inv = tcp_invD [OF assms(1)]
  have a: "a = s_local_seq_no s + 1" "ack_len = 0"
    using assms(2-4) by (auto simp: acked_by_def ack_acceptable_def acked_result_def handshaking_def)
  have tx: "rb_length (s_tx_buffer s) = 0"
    using inv(4) assms(2) by (simp add: handshake_inv_def handshaking_def)
  have "in_flight s \<le> 1" using inv(3) assms(2) tx by (simp add: flight_inv_def)
  then have "flight_after a s = 0"
    unfolding a(1) by (subst flight_after_eq) (simp_all add: i32_max_def)
  then show ?thesis
    using inv(1,2,5) assms(2,5-7) a(2)
    by (auto simp: mid_inv_def same_core_def buffers_inv_def peer_inv_def synchronized_def handshaking_def
        flight_after_def set_for_idle_def tcp_set_state_def timer_inv_def timer_set_for_idle_def)
qed

lemma last_ack_closed_mid:
  assumes "tcp_inv s" "s_state s = LastAck" "r_ack_number repr = Some a" "acked_by repr s ack_len ack_of_fin ack_all"
  shows "mid_inv a ack_len ((tcp_set_state Closed s)\<lparr>s_tuple := None\<rparr>)"
proof -
  have "synchronized (s_state s)" using assms(2) by (simp add: synchronized_def handshaking_def)
  then have "ack_len \<le> rb_length (s_tx_buffer s)"
    using acked_result_synchronized(1) assms(3,4) by (metis acked_by_def)
  then show ?thesis
    using tcp_invD [OF assms(1)] assms(2)
    by (auto simp: mid_inv_def buffers_inv_def peer_inv_def synchronized_def handshaking_def
        tcp_set_state_def timer_inv_def)
qed

lemma same_core_buffers: "same_core s s' \<Longrightarrow> s_rx_buffer s' = s_rx_buffer s \<and> s_assembler s' = s_assembler s"
  by (simp add: same_core_def)

lemma process_transition_cases:
  fixes cx ip repr control ack_of_fin ack_all s
  defines "T \<equiv> process_transition cx ip repr control ack_of_fin ack_all s"
  assumes inv: "tcp_inv s" and wf: "wf_segment repr" and acked: "acked_by repr s ack_len ack_of_fin ack_all"
    and ctl: "control \<noteq> Ctl_Rst" and open': "s_state s \<noteq> Closed"
  obtains (leave) "T = Some (Inl s)"
  | (opened) cx' s' where "T = Some (Inr (cx', s'))" "r_ack_number repr = None" "s_state s = Listen" "ack_len = 0"
      "tcp_inv s'" "s_state s' = SynReceived" "s_rx_buffer s' = s_rx_buffer s" "s_assembler s' = s_assembler s"
      "cx_now cx' = cx_now cx"
  | (go) a s' where "T = Some (Inr (cx, s'))" "r_ack_number repr = Some a" "mid_inv a ack_len s'"
      "s_rx_buffer s' = s_rx_buffer s" "s_assembler s' = s_assembler s"
proof -
  have acc: "ack_acceptable repr s" and res: "acked_result repr s = (ack_len, ack_of_fin, ack_all)"
    using acked by (simp_all add: acked_by_def)
  show thesis
  proof (cases "r_ack_number repr")
    case None
    then have st: "s_state s = Listen" and len: "ack_len = 0"
      using acc res by (simp_all add: ack_acceptable_def acked_result_def)
    show thesis
    proof (cases "control = Ctl_Syn")
      case True
      then have T: "T = transition_listen_syn cx ip repr s"
        using st by (simp add: T_def process_transition_def)
      show thesis
        by (rule transition_listen_syn_cases [OF inv st wf, of cx ip])
          (use T leave opened None st len in auto)
    next
      case False
      then show thesis using leave st ctl by (simp add: T_def process_transition_def)
    qed
  next
    case (Some a)
    have nl: "s_state s \<noteq> Listen" using acc Some by (simp add: ack_acceptable_def)
    have sync: thesis
      if "T = Some (Inr (cx, s'))" "same_core s s'" "synchronized (s_state s)" "synchronized (s_state s')"
        "s_state s' \<noteq> Closed" "timer_inv s'" "ack_of_fin \<or> sent_control_len (s_state s) \<le> sent_control_len (s_state s')"
      for s'
      by (rule go [OF that(1) Some mid_invI [OF that(2) inv that(3) open' that(4-6) res Some acc that(7)]])
        (use same_core_buffers [OF that(2)] in simp_all)
    have est: thesis
      if "T = Some (Inr (cx, set_for_idle cx (tcp_set_state st s'')))" "s_state s = SynReceived" "same_core s s''"
        "st = Established \<or> st = CloseWait" for st s''
      by (rule go [OF that(1) Some established_transition [OF inv that(2) Some acked refl that(3,4)]])
        (use same_core_buffers [OF that(3)] in \<open>simp_all add: set_for_idle_def tcp_set_state_def\<close>)
    let ?fin = "s\<lparr>s_remote_seq_no := s_remote_seq_no s + 1, s_rx_fin_received := True\<rparr>"
    have tm: "timer_inv s" using inv by (simp add: tcp_inv_def)
    note ss = synchronized_def handshaking_def
    show thesis
    proof (cases control)
      case Ctl_None
      show thesis
      proof (cases "s_state s")
        case SynReceived
        then show thesis by (intro est [of Established s]) (simp_all add: T_def process_transition_def Ctl_None)
      next
        case Established
        then show thesis
          by (intro sync [of "if \<not> timer_is_retransmit (s_timer s) \<or> ack_all then set_for_idle cx s else s"])
            (use tm in \<open>simp_all add: T_def process_transition_def Ctl_None ss\<close>)
      next
        case FinWait1
        let ?s = "if ack_of_fin then tcp_set_state FinWait2 s else s"
        show thesis
          by (rule sync [of "if ack_all then set_for_idle cx ?s else ?s"])
            (use tm FinWait1 in \<open>simp_all add: T_def process_transition_def Ctl_None ss timer_inv_def timer_set_for_idle_def\<close>)
      next
        case Closing
        show thesis
          by (rule sync [of "if ack_of_fin then set_for_close cx (tcp_set_state TimeWait s) else set_for_idle cx s"])
            (use tm Closing in \<open>simp_all add: T_def process_transition_def Ctl_None ss\<close>)
      next
        case LastAck
        show thesis
        proof (cases ack_of_fin)
          case True
          then show thesis
            using LastAck by (intro go [OF _ Some last_ack_closed_mid [OF inv LastAck Some acked]])
              (simp_all add: T_def process_transition_def Ctl_None tcp_set_state_def)
        next
          case False
          then show thesis
            using LastAck by (intro sync [of "set_for_idle cx s"])
              (simp_all add: T_def process_transition_def Ctl_None ss)
        qed
      next
        case FinWait2
        then show thesis by (intro sync [of "set_for_idle cx s"]) (simp_all add: T_def process_transition_def Ctl_None ss)
      next
        case CloseWait
        then show thesis by (intro sync [of "set_for_idle cx s"]) (simp_all add: T_def process_transition_def Ctl_None ss)
      qed (use nl open' leave in \<open>simp_all add: T_def process_transition_def Ctl_None\<close>)
    next
      case Ctl_Fin
      show thesis
      proof (cases "s_state s")
        case SynReceived
        then show thesis by (intro est [of CloseWait ?fin]) (simp_all add: T_def process_transition_def Ctl_Fin)
      next
        case Established
        then show thesis
          by (intro sync [of "set_for_idle cx (tcp_set_state CloseWait ?fin)"])
            (simp_all add: T_def process_transition_def Ctl_Fin ss)
      next
        case FinWait1
        then show thesis
          by (intro sync [of "if ack_of_fin then set_for_close cx (tcp_set_state TimeWait ?fin)
                else set_for_idle cx (tcp_set_state Closing ?fin)"])
            (simp_all add: T_def process_transition_def Ctl_Fin ss)
      next
        case FinWait2
        then show thesis
          by (intro sync [of "set_for_close cx (tcp_set_state TimeWait ?fin)"])
            (simp_all add: T_def process_transition_def Ctl_Fin ss)
      qed (use nl open' leave in \<open>simp_all add: T_def process_transition_def Ctl_Fin\<close>)
    next
      case Ctl_Syn
      show thesis
      proof (cases "s_state s = SynSent")
        case True
        then have a: "r_ack_number repr = Some (s_local_seq_no s + 1)" and len: "ack_len = 0"
          using acc res Some by (auto simp: ack_acceptable_def acked_result_def handshaking_def)
        show thesis
          by (rule transition_synsent_syn_cases [OF inv True wf a, of cx])
            (use leave go a True len in \<open>simp_all add: T_def process_transition_def Ctl_Syn\<close>)
      next
        case False
        then show thesis using leave nl by (simp add: T_def process_transition_def Ctl_Syn)
      qed
    qed (use leave ctl in \<open>simp_all add: T_def process_transition_def\<close>)
  qed
qed

section \<open>The remote window, the transmit buffer and the sequence numbers\<close>

lemma scaled_bound:
  assumes "sc \<le> (14::u8)"
  shows "usize_shl (unat (w::u16)) (unat sc) = Some (unat w * 2 ^ unat sc)" "unat w * 2 ^ unat sc \<le> 2 ^ 30"
proof -
  have sc: "unat sc \<le> 14" using assms by (simp add: word_le_nat_alt)
  then have "(2::nat) ^ unat sc \<le> 2 ^ 14" by (intro power_increasing) simp_all
  then have "unat w * 2 ^ unat sc \<le> 65535 * 2 ^ 14" by (intro mult_mono unat_u16_le) simp_all
  then show le: "unat w * 2 ^ unat sc \<le> 2 ^ 30" by simp
  show "usize_shl (unat w) (unat sc) = Some (unat w * 2 ^ unat sc)"
    using sc le by (simp add: usize_shl_def)
qed

lemma process_remote_window_spec:
  assumes "peer_inv s"
  obtains upd n c where "process_remote_window cx repr s = Some (upd, s\<lparr>s_remote_last_ts := Some (cx_now cx),
      s_remote_win_len := n, s_congestion_controller := c\<rparr>)" "n \<le> 2 ^ 30"
proof -
  define sc where "sc = (if r_control repr = Ctl_Syn then 0
                   else case s_remote_win_scale s of Some sc \<Rightarrow> sc | None \<Rightarrow> 0)"
  have "sc \<le> 14" using assms by (auto simp: sc_def peer_inv_def split: option.splits)
  note bound = scaled_bound [OF this, of "r_window_len repr"]
  have "process_remote_window cx repr s =
      do { n \<leftarrow> usize_shl (unat (r_window_len repr)) (unat sc);
           Some (n \<noteq> s_remote_win_len s, s\<lparr>s_remote_last_ts := Some (cx_now cx), s_remote_win_len := n,
             s_congestion_controller := cc_set_remote_window n (s_congestion_controller s)\<rparr>) }"
    by (simp add: process_remote_window_def Let_def sc_def)
  with bound that show thesis by simp
qed

lemma process_dequeue_acked_spec:
  assumes "buffers_inv s" "n \<le> rb_length (s_tx_buffer s)"
  obtains tx where "process_dequeue_acked n s = Some (s\<lparr>s_tx_buffer := tx\<rparr>)" "rb_inv tx"
    "rb_capacity tx = rb_capacity (s_tx_buffer s)" "rb_length tx = rb_length (s_tx_buffer s) - n"
    "rb_contents tx = drop n (rb_contents (s_tx_buffer s))"
proof (cases "n = 0")
  case True
  then show thesis
    using that [of "s_tx_buffer s"] buffers_invD(2) [OF assms(1)] by (simp add: process_dequeue_acked_def)
next
  case False
  from rb_dequeue_allocated_spec [OF buffers_invD(2) [OF assms(1)] assms(2)]
  obtain tx where tx: "rb_dequeue_allocated n (s_tx_buffer s) = Some tx" "rb_inv tx"
    "rb_capacity tx = rb_capacity (s_tx_buffer s)" "rb_contents tx = drop n (rb_contents (s_tx_buffer s))"
    by blast
  have "rb_length tx = rb_length (s_tx_buffer s) - n"
    using arg_cong [OF tx(4), of length] tx(2) buffers_invD(2) [OF assms(1)] by simp
  then show thesis
    using that [of tx] tx False assms(2) by (simp add: process_dequeue_acked_def rb_len_def)
qed

text \<open>Duplicate acknowledgements change the counters, the controller and the timer only.\<close>

lemma process_dup_ack_fields:
  obtains n c la t where "process_dup_ack cx repr upd a s
      = s\<lparr>s_local_rx_dup_acks := n, s_congestion_controller := c, s_local_rx_last_ack := la, s_timer := t\<rparr>"
    "t = s_timer s \<or> t = Timer_FastRetransmit"
proof -
  define dup where "dup \<longleftrightarrow> (case s_local_rx_last_ack s of
            Some last_rx_ack \<Rightarrow> r_payload repr = [] \<and> last_rx_ack = a
              \<and> seq_lt a (s_remote_last_seq s) \<and> \<not> upd
          | None \<Rightarrow> False)"
  define n where "n = (if s_local_rx_dup_acks s = 255 then 255 else s_local_rx_dup_acks s + 1)"
  show thesis
  proof (cases dup)
    case True
    then show thesis
      by (intro that [of "if n = 3 then Timer_FastRetransmit else s_timer s" "s_local_rx_last_ack s"
            "cc_on_duplicate_ack (cx_now cx) (s_congestion_controller s)" n])
        (simp_all add: process_dup_ack_def dup_def [symmetric] Let_def timer_set_for_fast_retransmit_def n_def)
  next
    case False
    then show thesis
      by (intro that [of "s_timer s" "Some a" "s_congestion_controller s" 0])
        (simp_all add: process_dup_ack_def dup_def [symmetric] Let_def word_neq_0_conv [symmetric])
  qed
qed

lemma process_advance_local_inv:
  assumes "buffers_inv s" "peer_inv s" "timer_inv s" "synchronized (s_state s)" "r_ack_number repr = Some a"
    "s_state s = Closed \<or> flight_after a s \<le> rb_length (s_tx_buffer s) + sent_control_len (s_state s)"
  obtains n c la t rls where "process_advance_local cx repr upd s = s\<lparr>s_local_rx_dup_acks := n,
       s_congestion_controller := c, s_local_rx_last_ack := la, s_timer := t, s_local_seq_no := a,
       s_remote_last_seq := rls\<rparr>" "tcp_inv (process_advance_local cx repr upd s)"
proof -
  obtain n c la t where d: "process_dup_ack cx repr upd a s
      = s\<lparr>s_local_rx_dup_acks := n, s_congestion_controller := c, s_local_rx_last_ack := la, s_timer := t\<rparr>"
    "t = s_timer s \<or> t = Timer_FastRetransmit" by (rule process_dup_ack_fields)
  define rls where "rls = (if seq_lt (s_remote_last_seq s) a then a else s_remote_last_seq s)"
  have eq: "process_advance_local cx repr upd s = s\<lparr>s_local_rx_dup_acks := n,
       s_congestion_controller := c, s_local_rx_last_ack := la, s_timer := t, s_local_seq_no := a,
       s_remote_last_seq := rls\<rparr>"
    by (simp add: process_advance_local_def assms(5) d(1) rls_def Let_def)
  have fl: "unat (rls - a) = flight_after a s" by (simp add: rls_def flight_after_def)
  have "tcp_inv (process_advance_local cx repr upd s)"
    unfolding eq
  proof (rule tcp_invI)
    let ?s = "s\<lparr>s_local_rx_dup_acks := n, s_congestion_controller := c, s_local_rx_last_ack := la, s_timer := t,
       s_local_seq_no := a, s_remote_last_seq := rls\<rparr>"
    show "buffers_inv ?s" using assms(1) by (simp add: buffers_inv_def)
    show "peer_inv ?s" using assms(2) by (simp add: peer_inv_def)
    show "flight_inv ?s" using assms(6) fl by (auto simp: flight_inv_def in_flight_def)
    show "handshake_inv ?s" using assms(4) by (simp add: handshake_inv_def synchronized_def)
    show "timer_inv ?s" using assms(3) d(2) by (elim disjE) (simp_all add: timer_inv_def)
  qed
  with eq show thesis by (rule that)
qed

section \<open>The payload\<close>

text \<open>Reassembly of arbitrary octets, inside the window: total, and the invariant stays.\<close>

lemma tcp_reassemble_total:
  assumes "rb_inv rb" "asm_inv a" "\<And>i. i \<in> asm_present a \<Longrightarrow> i < rb_window rb"
    and len: "off + length data \<le> rb_window rb"
  obtains (err) e where "tcp_reassemble off data a rb = Some (Inl e, a, rb)"
  | (ok) m a' rb' where "tcp_reassemble off data a rb = Some (Inr m, a', rb')" "rb_inv rb'" "asm_inv a'"
      "\<And>i. i \<in> asm_present a' \<Longrightarrow> i < rb_window rb'" "rb_capacity rb' = rb_capacity rb"
proof (rule asm_add_then_remove_front_cases [OF assms(2), of off "length data"])
  assume "asm_add_then_remove_front off (length data) a = Some (Inl TooManyHolesError, a)"
  then show thesis using err by (simp add: tcp_reassemble_def reassemble_def)
next
  fix m a'
  assume add: "asm_add_then_remove_front off (length data) a = Some (Inr m, a')" "asm_inv a'"
    and run: "front_run (asm_present a \<union> {off ..< off + length data}) m"
    and pres: "asm_present a' = shift_down m (asm_present a \<union> {off ..< off + length data})"
  have bound: "i < rb_window rb" if "i \<in> asm_present a \<union> {off ..< off + length data}" for i
    using that assms(3) len by auto
  have m: "m \<le> rb_window rb"
  proof (cases m)
    case (Suc k)
    then have "k \<in> asm_present a \<union> {off ..< off + length data}" using run by (auto simp: front_run_def)
    then show ?thesis using bound Suc by fastforce
  qed simp
  obtain rb1 where w: "rb_write_unallocated off data rb = (length data, rb1)" "rb_inv rb1"
    "rb_capacity rb1 = rb_capacity rb" "rb_length rb1 = rb_length rb"
    using rb_write_unallocated_spec [OF assms(1), of off data] min_absorb1 [of "length data" "rb_window rb - off"] len
    by fastforce
  have m1: "m \<le> rb_window rb1" using m w(3,4) by (simp add: rb_window_def rb_len_def)
  obtain rb2 where e: "rb_enqueue_unallocated m rb1 = Some rb2" "rb_inv rb2" "rb_capacity rb2 = rb_capacity rb1"
    "rb_free rb2 = drop m (rb_free rb1)"
    using rb_enqueue_unallocated_spec [OF w(2) m1] by blast
  have win: "rb_window rb2 = rb_window rb - m"
    using arg_cong [OF e(4), of length] w(3,4) by (simp add: rb_window_def rb_len_def)
  have "rb2 = rb1" if "m = 0" using e(1) that by (simp add: rb_enqueue_unallocated_def)
  then have "tcp_reassemble off data a rb = Some (Inr m, a', rb2)"
    using add w(1) e(1) by (simp add: tcp_reassemble_def reassemble_def)
  moreover have "i < rb_window rb2" if "i \<in> asm_present a'" for i
    using that bound [of "m + i"] pres win by (simp add: shift_down_def)
  ultimately show thesis using ok add(2) e(2,3) w(3) by simp
qed

lemma ack_to_transmit_total:
  assumes "buffers_inv s"
  shows "\<exists>b. ack_to_transmit s = Some b"
  using buffers_invD(10) [OF assms]
  by (cases "s_remote_last_ack s") (auto simp: ack_to_transmit_def rb_len_def)

lemma process_delayed_ack_spec:
  assumes "buffers_inv s"
  obtains d where "process_delayed_ack cx s = Some (s\<lparr>s_ack_delay_timer := d\<rparr>)"
proof (cases "s_ack_delay s")
  case None
  then show thesis using that [of "s_ack_delay_timer s"] by (simp add: process_delayed_ack_def)
next
  case (Some ad)
  obtain b where b: "ack_to_transmit s = Some b" using ack_to_transmit_total [OF assms] by blast
  show thesis
  proof (cases "b \<or> window_to_update s")
    case True
    then show thesis
      by (intro that [of "next_ack_delay_timer cx ad (s_ack_delay_timer s)"])
        (simp add: process_delayed_ack_def Some b)
  next
    case False
    then show thesis
      by (intro that [of "s_ack_delay_timer s"]) (simp add: process_delayed_ack_def Some b)
  qed
qed

lemma rx_update_inv:
  assumes "tcp_inv s" "synchronized (s_state s)" "rb_inv rx" "asm_inv asm"
    "\<And>i. i \<in> asm_present asm \<Longrightarrow> i < rb_window rx" "rb_capacity rx = rb_capacity (s_rx_buffer s)"
  shows "tcp_inv (s\<lparr>s_assembler := asm, s_rx_buffer := rx\<rparr>)"
  using assms by (auto simp: tcp_inv_def buffers_inv_def peer_inv_def flight_inv_def handshake_inv_def
      synchronized_def timer_inv_def in_flight_def)

lemma process_payload_inv:
  assumes "tcp_inv s" "off + length payload \<le> rb_window (s_rx_buffer s)"
    "payload \<noteq> [] \<Longrightarrow> synchronized (s_state s)"
  obtains reply s' where "process_payload cx ip repr payload off s = Some (reply, s')" "tcp_inv s'"
    "\<And>ip' r. reply = Some (ip', r) \<Longrightarrow> r_control r = Ctl_None" "s_state s' = s_state s"
proof (cases "payload = []")
  case True
  then show thesis using that assms(1) by (simp add: process_payload_def)
next
  case ne: False
  note b = buffers_invD [OF tcp_invD(1) [OF assms(1)]]
  from b(1,3,4) assms(2) show thesis
  proof (rule tcp_reassemble_total)
    fix e assume "tcp_reassemble off payload (s_assembler s) (s_rx_buffer s) = Some (Inl e, s_assembler s, s_rx_buffer s)"
    then show thesis using that [of None s] assms(1) ne by (simp add: process_payload_def Let_def)
  next
    fix m asm rx
    assume r: "tcp_reassemble off payload (s_assembler s) (s_rx_buffer s) = Some (Inr m, asm, rx)" "rb_inv rx"
      "asm_inv asm" "\<And>i. i \<in> asm_present asm \<Longrightarrow> i < rb_window rx" "rb_capacity rx = rb_capacity (s_rx_buffer s)"
    let ?s = "s\<lparr>s_assembler := asm, s_rx_buffer := rx\<rparr>"
    have inv: "tcp_inv ?s"
      by (rule rx_update_inv [OF assms(1) assms(3) [OF ne] r(2-5)])
    obtain d where d: "process_delayed_ack cx ?s = Some (?s\<lparr>s_ack_delay_timer := d\<rparr>)"
      using process_delayed_ack_spec [OF tcp_invD(1) [OF inv]] .
    let ?s2 = "?s\<lparr>s_ack_delay_timer := d\<rparr>"
    have inv2: "tcp_inv ?s2" using inv by simp
    obtain ip' r' where a: "tcp_ack_reply ip repr ?s2 = Some ((ip', r'), ack_sent ?s2)" "r_control r' = Ctl_None"
      using tcp_ack_reply_spec [OF tcp_invD(1) [OF inv2]] by blast
    show thesis
    proof (cases "\<not> asm_is_empty asm \<or> \<not> asm_is_empty (s_assembler s)")
      case True
      then show thesis
        using ne r(1) d a ack_sent_inv [OF inv2]
        by (intro that [of "Some (ip', r')" "ack_sent ?s2"])
          (simp_all add: process_payload_def Let_def ack_sent_def)
    next
      case False
      then show thesis
        using ne r(1) d inv2
        by (intro that [of None ?s2]) (simp_all add: process_payload_def Let_def)
    qed
  qed
qed

section \<open>The whole function\<close>

text \<open>The window phase in every state: before the peer is synchronized there is no payload.\<close>

definition window_start :: "tcp_socket \<Rightarrow> seq_number" where
  "window_start s = s_remote_seq_no s + of_nat (rb_length (s_rx_buffer s))"

definition overlap :: "tcp_repr \<Rightarrow> tcp_socket \<Rightarrow> u8 list \<Rightarrow> nat \<Rightarrow> bool" where
  "overlap repr s payload off \<longleftrightarrow> off + length payload \<le> rb_window (s_rx_buffer s)
     \<and> (payload \<noteq> [] \<longrightarrow> s_state s \<noteq> Listen \<and> s_state s \<noteq> SynSent)
     \<and> (\<exists>first. first + length payload \<le> length (r_payload repr)
          \<and> payload = take (length payload) (drop first (r_payload repr))
          \<and> (payload \<noteq> [] \<longrightarrow> window_start s + of_nat off = r_seq_number repr + of_nat first))"

lemma overlap_bound: "overlap repr s payload off \<Longrightarrow> off + length payload \<le> rb_window (s_rx_buffer s)"
  by (simp add: overlap_def)

lemma process_payload_ex:
  assumes "tcp_inv s" "off + length payload \<le> rb_window (s_rx_buffer s)"
    "payload \<noteq> [] \<Longrightarrow> synchronized (s_state s)"
  shows "\<exists>reply s'. process_payload cx ip repr payload off s = Some (reply, s') \<and> tcp_inv s'"
  by (rule process_payload_inv [OF assms, of cx ip repr]) blast+

definition noted :: "tcp_repr \<Rightarrow> tcp_socket \<Rightarrow> tcp_socket" where
  "noted repr s = (if s_state s = Listen \<or> s_state s = SynSent then s
     else s\<lparr>s_local_rx_last_seq := Some (r_seq_number repr)\<rparr>)"

lemma noted_fields [simp]:
  "s_state (noted repr s) = s_state s" "s_rx_buffer (noted repr s) = s_rx_buffer s"
  "s_assembler (noted repr s) = s_assembler s" "s_tx_buffer (noted repr s) = s_tx_buffer s"
  "s_local_seq_no (noted repr s) = s_local_seq_no s" "s_remote_last_seq (noted repr s) = s_remote_last_seq s"
  "s_remote_seq_no (noted repr s) = s_remote_seq_no s" "s_tuple (noted repr s) = s_tuple s"
  "s_challenge_ack_timer (noted repr s) = s_challenge_ack_timer s"
  "tcp_inv (noted repr s) = tcp_inv s"
  by (simp_all add: noted_def)

lemma process_window_total:
  assumes inv: "buffers_inv s" and wf: "wf_segment repr"
  obtains (outside) reply where "process_window cx ip repr (window_start s)
        (s_remote_seq_no s + of_nat (rb_capacity (s_rx_buffer s))) s
        = Some (Inl (reply, challenge_result cx (time_wait_restart cx s)))"
      "\<And>ip' r. reply = Some (ip', r) \<Longrightarrow> r_control r = Ctl_None \<and> r_payload r = []"
      "reply = None \<longleftrightarrow> cx_now cx < s_challenge_ack_timer s" "s_state s \<noteq> Listen" "s_state s \<noteq> SynSent"
  | (inside) payload off where "process_window cx ip repr (window_start s)
        (s_remote_seq_no s + of_nat (rb_capacity (s_rx_buffer s))) s = Some (Inr (payload, off, noted repr s))"
      "overlap repr s payload off"
proof (cases "s_state s = Listen \<or> s_state s = SynSent")
  case True
  have "length (r_payload repr) \<le> i32_max" using wf by (simp add: wf_segment_def i32_max_def)
  with True show thesis
    by (intro inside [of "[]" 0]) (auto simp: process_window_def noted_def overlap_def Let_def)
next
  case False
  then have st: "s_state s \<noteq> Listen" "s_state s \<noteq> SynSent" by auto
  show thesis
  proof (rule process_window_cases [OF inv wf st, of cx ip, folded window_start_def])
    fix reply assume "process_window cx ip repr (window_start s)
        (s_remote_seq_no s + of_nat (rb_capacity (s_rx_buffer s))) s
        = Some (Inl (reply, challenge_result cx (time_wait_restart cx s)))"
      "\<And>ip' r. reply = Some (ip', r) \<Longrightarrow> r_control r = Ctl_None \<and> r_payload r = []"
      "(reply = None) = (cx_now cx < s_challenge_ack_timer s)"
    then show thesis using st by (rule outside)
  next
    fix payload off first assume a: "process_window cx ip repr (window_start s)
        (s_remote_seq_no s + of_nat (rb_capacity (s_rx_buffer s))) s
        = Some (Inr (payload, off, s\<lparr>s_local_rx_last_seq := Some (r_seq_number repr)\<rparr>))"
      "off + length payload \<le> rb_window (s_rx_buffer s)" "first + length payload \<le> length (r_payload repr)"
      "payload = take (length payload) (drop first (r_payload repr))"
      "window_start s + of_nat off = r_seq_number repr + of_nat first"
    show thesis
    proof (rule inside)
      show "process_window cx ip repr (window_start s)
        (s_remote_seq_no s + of_nat (rb_capacity (s_rx_buffer s))) s = Some (Inr (payload, off, noted repr s))"
        using a(1) st by (simp add: noted_def)
      show "overlap repr s payload off"
        unfolding overlap_def using a(2-5) st by blast
    qed
  qed
qed

text \<open>The three steps between the transition and the payload.\<close>

lemma process_tail:
  assumes "r_ack_number repr = None \<and> tcp_inv s \<and> ack_len = 0 \<or> (\<exists>a. r_ack_number repr = Some a \<and> mid_inv a ack_len s)"
  obtains upd sa sb where "process_remote_window cx repr s = Some (upd, sa)"
    "process_dequeue_acked ack_len sa = Some sb" "tcp_inv (process_advance_local cx repr upd sb)"
    "s_state (process_advance_local cx repr upd sb) = s_state s"
    "s_rx_buffer (process_advance_local cx repr upd sb) = s_rx_buffer s"
    "s_assembler (process_advance_local cx repr upd sb) = s_assembler s"
    "s_remote_seq_no (process_advance_local cx repr upd sb) = s_remote_seq_no s"
proof -
  have peer: "peer_inv s" using assms by (auto simp: tcp_inv_def mid_inv_def)
  obtain upd n c where w: "process_remote_window cx repr s = Some (upd, s\<lparr>s_remote_last_ts := Some (cx_now cx),
      s_remote_win_len := n, s_congestion_controller := c\<rparr>)" "n \<le> 2 ^ 30"
    using process_remote_window_spec [OF peer] .
  let ?sa = "s\<lparr>s_remote_last_ts := Some (cx_now cx), s_remote_win_len := n, s_congestion_controller := c\<rparr>"
  from assms show thesis
  proof (elim disjE exE conjE)
    assume a: "r_ack_number repr = None" "tcp_inv s" "ack_len = 0"
    have deq: "process_dequeue_acked ack_len ?sa = Some ?sa" by (simp add: process_dequeue_acked_def a(3))
    have "tcp_inv ?sa"
      using a(2) w(2) by (simp add: tcp_inv_def buffers_inv_def peer_inv_def flight_inv_def handshake_inv_def
          timer_inv_def in_flight_def syn_quiet_def ack_to_transmit_def window_to_update_def scaled_window_def
          cong: option.case_cong tcp_state.case_cong)
    then show thesis
      by (intro that [OF w(1) deq]) (simp_all add: process_advance_local_def a(1))
  next
    fix a assume a: "r_ack_number repr = Some a" "mid_inv a ack_len s"
    note mid = a(2) [unfolded mid_inv_def]
    have b: "buffers_inv ?sa" using mid by (simp add: buffers_inv_def)
    have len: "ack_len \<le> rb_length (s_tx_buffer ?sa)" using mid by simp
    obtain tx where tx: "process_dequeue_acked ack_len ?sa = Some (?sa\<lparr>s_tx_buffer := tx\<rparr>)" "rb_inv tx"
      "rb_capacity tx = rb_capacity (s_tx_buffer ?sa)" "rb_length tx = rb_length (s_tx_buffer ?sa) - ack_len"
      using process_dequeue_acked_spec [OF b len] .
    let ?sb = "?sa\<lparr>s_tx_buffer := tx\<rparr>"
    have sb: "buffers_inv ?sb" "peer_inv ?sb" "timer_inv ?sb" "synchronized (s_state ?sb)"
      "s_state ?sb = Closed \<or> flight_after a ?sb \<le> rb_length (s_tx_buffer ?sb) + sent_control_len (s_state ?sb)"
      using mid tx(2-4) w(2)
      by (auto simp: buffers_inv_def peer_inv_def timer_inv_def flight_after_def)
    obtain n' c' la t rls where adv: "process_advance_local cx repr upd ?sb = ?sb\<lparr>s_local_rx_dup_acks := n',
       s_congestion_controller := c', s_local_rx_last_ack := la, s_timer := t, s_local_seq_no := a,
       s_remote_last_seq := rls\<rparr>" "tcp_inv (process_advance_local cx repr upd ?sb)"
      using process_advance_local_inv [OF sb(1-4) a(1) sb(5)] .
    show thesis
      by (rule that [OF w(1) tx(1) adv(2)]) (simp_all add: adv(1))
  qed
qed

lemma ack_cong:
  assumes "s_state s' = s_state s" "s_local_seq_no s' = s_local_seq_no s" "s_tx_buffer s' = s_tx_buffer s"
    "s_remote_last_seq s' = s_remote_last_seq s"
  shows "ack_acceptable repr s' = ack_acceptable repr s" "acked_result repr s' = acked_result repr s"
  unfolding ack_acceptable_def acked_result_def assms by (rule refl)+

lemma acked_noted [simp]:
  "ack_acceptable repr (noted repr s) = ack_acceptable repr s"
  "acked_result repr (noted repr s) = acked_result repr s"
  "acked_by repr ((noted repr s)\<lparr>s_rtte := e, s_congestion_controller := c\<rparr>) = acked_by repr s"
  by (simp_all add: fun_eq_iff acked_by_def ack_cong [of "noted repr s" s]
      ack_cong [of "(noted repr s)\<lparr>s_rtte := e, s_congestion_controller := c\<rparr>" s])

text \<open>
  What \<open>process\<close> does with a segment: it rejects it, answers it with a challenge ACK, takes it as a
  reset or has no use for it (\<open>dropped\<close>), or processes it: then \<open>s3\<close> is the socket just before the payload.
\<close>

lemma tcp_process_cases:
  assumes inv: "tcp_inv s" and acc: "tcp_accepts s ip repr" and wf: "wf_segment repr"
  obtains (rejected) reply where "tcp_process cx ip repr s = Some (reply, cx, s)"
      "\<And>ip' r. reply = Some (ip', r) \<Longrightarrow> r_control repr \<noteq> Ctl_Rst"
  | (challenged) reply s0 where "tcp_process cx ip repr s = Some (reply, cx, challenge_result cx s0)"
      "s0 = s \<or> s0 = time_wait_restart cx s"
      "\<And>ip' r. reply = Some (ip', r) \<Longrightarrow> r_control r = Ctl_None \<and> r_payload r = []"
      "reply = None \<longleftrightarrow> cx_now cx < s_challenge_ack_timer s"
  | (reset) s' where "tcp_process cx ip repr s = Some (None, cx, s')" "r_control repr = Ctl_Rst" "tcp_inv s'"
      "s_state s' = (if s_state s = Listen \<or> s_state s = SynReceived then Listen else Closed)"
      "s_rx_buffer s' = s_rx_buffer s" "s_assembler s' = s_assembler s"
  | (dropped) e c where "tcp_process cx ip repr s
        = Some (None, cx, (noted repr s)\<lparr>s_rtte := e, s_congestion_controller := c\<rparr>)" "r_control repr \<noteq> Ctl_Rst"
  | (processed) cx' payload off ack_len ack_of_fin ack_all e c s2 s3 reply s' where
      "tcp_process cx ip repr s = Some (reply, cx', s')" "r_control repr \<noteq> Ctl_Rst"
      "overlap repr s payload off" "acked_by repr s ack_len ack_of_fin ack_all"
      "process_transition cx ip repr (effective_control repr (window_start s)) ack_of_fin ack_all
         ((noted repr s)\<lparr>s_rtte := e, s_congestion_controller := c\<rparr>) = Some (Inr (cx', s2))"
      "tcp_inv s3" "s_state s3 = s_state s2" "s_rx_buffer s3 = s_rx_buffer s" "s_assembler s3 = s_assembler s"
      "s_remote_seq_no s3 = s_remote_seq_no s2" "cx_now cx' = cx_now cx"
      "payload \<noteq> [] \<Longrightarrow> synchronized (s_state s3)"
      "process_payload cx' ip repr payload off s3 = Some (reply, s')"
proof -
  note b = tcp_invD(1) [OF inv]
  have open': "s_state s \<noteq> Closed" using acc by (auto simp: tcp_accepts_def)
  let ?we = "s_remote_seq_no s + of_nat (rb_capacity (s_rx_buffer s))"
  have we: "seq_add (s_remote_seq_no s) (rb_len (s_rx_buffer s)) = Some (window_start s)"
    "seq_add (s_remote_seq_no s) (rb_capacity (s_rx_buffer s)) = Some ?we"
    using buffers_invD(9,10) [OF b] by (simp_all add: seq_add_def rb_len_def window_start_def)
  show thesis
  proof (rule process_check_ack_cases [OF b acc, of cx])
    fix reply assume "process_check_ack cx ip repr s = Some (Inl (reply, s))"
      "\<And>ip' r. reply = Some (ip', r) \<Longrightarrow> r_control repr \<noteq> Ctl_Rst"
    then show thesis using acc by (intro rejected [of reply]) (simp_all add: tcp_process_def)
  next
    fix reply assume "process_check_ack cx ip repr s = Some (Inl (reply, challenge_result cx s))"
      "\<And>ip' r. reply = Some (ip', r) \<Longrightarrow> r_control r = Ctl_None \<and> r_payload r = []"
      "(reply = None) = (cx_now cx < s_challenge_ack_timer s)"
    then show thesis using acc by (intro challenged [of reply s]) (simp_all add: tcp_process_def)
  next
    assume ok: "process_check_ack cx ip repr s = Some (Inr ())" "r_control repr \<noteq> Ctl_Rst \<Longrightarrow> ack_acceptable repr s"
    show thesis
    proof (rule process_window_total [OF b wf, of cx ip])
      fix reply assume "process_window cx ip repr (window_start s) ?we s
          = Some (Inl (reply, challenge_result cx (time_wait_restart cx s)))"
        "\<And>ip' r. reply = Some (ip', r) \<Longrightarrow> r_control r = Ctl_None \<and> r_payload r = []"
        "(reply = None) = (cx_now cx < s_challenge_ack_timer s)"
      then show thesis using acc ok(1) we
        by (intro challenged [of reply "time_wait_restart cx s"]) (simp_all add: tcp_process_def)
    next
      fix payload off assume win: "process_window cx ip repr (window_start s) ?we s = Some (Inr (payload, off, noted repr s))"
        and ov: "overlap repr s payload off"
      show thesis
      proof (cases "r_control repr = Ctl_Rst")
        case True
        then have "process_acked cx repr (noted repr s) = Some ((0, False, False), noted repr s)"
          by (simp add: process_acked_def split_beta Let_def)
        moreover have "effective_control repr (window_start s) = Ctl_Rst"
          by (simp add: effective_control_def True)
        moreover have "tcp_inv (noted repr s)" using inv by simp
        then obtain s' where "process_transition cx ip repr Ctl_Rst False False (noted repr s) = Some (Inl s')" "tcp_inv s'"
          "s_state s' = (if s_state s = Listen \<or> s_state s = SynReceived then Listen else Closed)"
          "s_rx_buffer s' = s_rx_buffer s" "s_assembler s' = s_assembler s"
          by (rule rst_transition [of "noted repr s" cx ip repr False False]) simp_all
        ultimately show thesis
          using acc ok(1) we win True by (intro reset [of s']) (simp_all add: tcp_process_def)
      next
        case False
        have b1: "buffers_inv (noted repr s)" using b by (simp add: buffers_inv_def)
        have "ack_acceptable repr (noted repr s)" using ok(2) False by simp
        then obtain e c where ack: "process_acked cx repr (noted repr s)
            = Some (acked_result repr (noted repr s), (noted repr s)\<lparr>s_rtte := e, s_congestion_controller := c\<rparr>)"
          using process_acked_spec [OF b1 False] by blast
        obtain n f l where nfl: "acked_result repr (noted repr s) = (n, f, l)" by (cases "acked_result repr (noted repr s)")
        let ?s1 = "(noted repr s)\<lparr>s_rtte := e, s_congestion_controller := c\<rparr>"
        have inv1: "tcp_inv ?s1" using inv by simp
        have by1: "acked_by repr s n f l"
          using nfl ok(2) False by (simp add: acked_by_def)
        have ctl: "effective_control repr (window_start s) \<noteq> Ctl_Rst"
          using False by (cases "r_control repr") (simp_all add: effective_control_def Let_def)
        have finish: thesis
          if T: "process_transition cx ip repr (effective_control repr (window_start s)) f l ?s1 = Some (Inr (cx', s2))"
            and mid: "r_ack_number repr = None \<and> tcp_inv s2 \<and> n = 0 \<or> (\<exists>a. r_ack_number repr = Some a \<and> mid_inv a n s2)"
            and keep: "s_rx_buffer s2 = s_rx_buffer s" "s_assembler s2 = s_assembler s" "cx_now cx' = cx_now cx"
              "payload \<noteq> [] \<Longrightarrow> synchronized (s_state s2)"
          for cx' s2
        proof -
          obtain upd sa sb where tail: "process_remote_window cx' repr s2 = Some (upd, sa)"
            "process_dequeue_acked n sa = Some sb" "tcp_inv (process_advance_local cx' repr upd sb)"
            "s_state (process_advance_local cx' repr upd sb) = s_state s2"
            "s_rx_buffer (process_advance_local cx' repr upd sb) = s_rx_buffer s2"
            "s_assembler (process_advance_local cx' repr upd sb) = s_assembler s2"
            "s_remote_seq_no (process_advance_local cx' repr upd sb) = s_remote_seq_no s2"
            using process_tail [OF mid] .
          let ?s3 = "process_advance_local cx' repr upd sb"
          obtain reply s' where pl: "process_payload cx' ip repr payload off ?s3 = Some (reply, s')"
            using process_payload_ex [OF tail(3), of off payload cx' ip repr] overlap_bound [OF ov] keep tail(4,5)
            by auto
          show thesis
            by (rule processed [OF _ False ov by1 T tail(3,4) _ _ tail(7) keep(3) _ pl])
              (use acc ok(1) we win ack nfl T tail pl keep in \<open>simp_all add: tcp_process_def\<close>)
        qed
        show thesis
        proof (rule process_transition_cases [OF inv1 wf _ ctl, of n f l cx ip])
          show "acked_by repr ?s1 n f l" using by1 by simp
          show "s_state ?s1 \<noteq> Closed" using open' by simp
        next
          assume "process_transition cx ip repr (effective_control repr (window_start s)) f l ?s1 = Some (Inl ?s1)"
          then show thesis
            using acc ok(1) we win ack nfl False by (intro dropped [of c e]) (simp_all add: tcp_process_def)
        next
          fix cx' s2
          assume a: "process_transition cx ip repr (effective_control repr (window_start s)) f l ?s1 = Some (Inr (cx', s2))"
            "r_ack_number repr = None" "s_state ?s1 = Listen" "n = 0" "tcp_inv s2" "s_rx_buffer s2 = s_rx_buffer ?s1"
            "s_assembler s2 = s_assembler ?s1" "cx_now cx' = cx_now cx"
          then show thesis using ov by (intro finish [OF a(1)]) (simp_all add: overlap_def)
        next
          fix a s2
          assume a: "process_transition cx ip repr (effective_control repr (window_start s)) f l ?s1 = Some (Inr (cx, s2))"
            "r_ack_number repr = Some a" "mid_inv a n s2" "s_rx_buffer s2 = s_rx_buffer ?s1"
            "s_assembler s2 = s_assembler ?s1"
          have "synchronized (s_state s2)" using a(3) by (simp add: mid_inv_def)
          with a show thesis by (intro finish [OF a(1)]) simp_all
        qed
      qed
    qed
  qed
qed

lemma tcp_process_inv:
  assumes "tcp_inv s" "tcp_accepts s ip repr" "wf_segment repr"
  obtains reply cx' s' where "tcp_process cx ip repr s = Some (reply, cx', s')" "tcp_inv s'" "cx_now cx' = cx_now cx"
proof (rule tcp_process_cases [OF assms, of cx])
  fix reply s0 assume a: "tcp_process cx ip repr s = Some (reply, cx, challenge_result cx s0)"
    "s0 = s \<or> s0 = time_wait_restart cx s"
  then have "tcp_inv (challenge_result cx s0)"
    using challenge_result_inv time_wait_restart_inv assms(1) by blast
  with a(1) show thesis by (intro that) simp_all
next
  fix e c
  assume "tcp_process cx ip repr s = Some (None, cx, (noted repr s)\<lparr>s_rtte := e, s_congestion_controller := c\<rparr>)"
  then show thesis by (rule that) (simp_all add: assms(1))
next
  fix cx' payload off s3 reply s'
  assume a: "tcp_process cx ip repr s = Some (reply, cx', s')" "overlap repr s payload off" "tcp_inv s3"
    "s_rx_buffer s3 = s_rx_buffer s" "payload \<noteq> [] \<Longrightarrow> synchronized (s_state s3)" "cx_now cx' = cx_now cx"
    "process_payload cx' ip repr payload off s3 = Some (reply, s')"
  have "tcp_inv s'"
    using process_payload_ex [OF a(3), of off payload cx' ip repr] overlap_bound [OF a(2)] a(4,5,7) by auto
  with a(1,6) show thesis by (intro that)
qed (use assms(1) that in auto)

end
