(* ===== verification/Tcp_Transmit.thy ===== *)
theory Tcp_Transmit
  imports Tcp_Receive_Main
begin

text \<open>
  The transmit path under the invariant: when the socket has something to send, which segment it
  sends, and that sending keeps the invariant.
\<close>

section \<open>When there is something to send\<close>

lemma local_mss_eq: "h + 20 \<le> cx_ip_mtu cx \<Longrightarrow> local_mss cx h = Some (cx_ip_mtu cx - h - 20)"
  by (simp add: local_mss_def TCP_HEADER_LEN_def checked_sub_def)

lemma addr_header_len_le: "addr_header_len a \<le> 40"
  by (cases a) (simp_all add: IPV4_HEADER_LEN_def IPV6_HEADER_LEN_def)

definition mss_of :: "tcp_context \<Rightarrow> tcp_tuple \<Rightarrow> nat" where
  "mss_of cx t = cx_ip_mtu cx - addr_header_len (ep_addr (t_local t)) - 20"

lemma local_mss_tuple:
  "60 \<le> cx_ip_mtu cx \<Longrightarrow> local_mss cx (addr_header_len (ep_addr (t_local t))) = Some (mss_of cx t)"
  using addr_header_len_le [of "ep_addr (t_local t)"] by (simp add: local_mss_eq mss_of_def)

lemma min_win_le: "buffers_inv s \<Longrightarrow> min (s_remote_win_len s) (rb_len (s_tx_buffer s)) \<le> i32_max"
  using buffers_invD(11) [of s] by (simp add: rb_len_def)

lemma seq_to_transmit_total:
  assumes "buffers_inv s" "s_tuple s = Some t" "60 \<le> cx_ip_mtu cx"
  shows "\<exists>b. seq_to_transmit cx s = Some b"
proof -
  have "rb_len (s_tx_buffer s) \<le> i32_max" using buffers_invD(11) [OF assms(1)] by (simp add: rb_len_def)
  then show ?thesis
    using min_win_le [OF assms(1)]
    by (auto simp: seq_to_transmit_def assms(2) local_mss_tuple [OF assms(3)] Let_def seq_ge_offset seq_diff_eq)
qed

text \<open>The condition in terms of what is in flight.\<close>

definition sendable :: "tcp_socket \<Rightarrow> nat" where
  "sendable s = min (s_remote_win_len s) (rb_length (s_tx_buffer s)) - in_flight s"

definition connected :: "tcp_state \<Rightarrow> bool" where
  "connected st \<longleftrightarrow> st \<noteq> Closed \<and> st \<noteq> Listen"

lemma in_flight_le:
  assumes "tcp_inv s" "connected (s_state s)"
  shows "in_flight s \<le> rb_length (s_tx_buffer s) + sent_control_len (s_state s)" "in_flight s \<le> i32_max"
proof -
  show 1: "in_flight s \<le> rb_length (s_tx_buffer s) + sent_control_len (s_state s)"
    using tcp_invD(3) [OF assms(1)] assms(2) by (simp add: flight_inv_def connected_def)
  then show "in_flight s \<le> i32_max"
    using buffers_invD(11) [OF tcp_invD(1) [OF assms(1)]] sent_control_len_le [of "s_state s"] by linarith
qed

lemma remote_last_seq_eq: "s_remote_last_seq s = s_local_seq_no s + of_nat (in_flight s)"
  by (simp add: in_flight_def)

lemma seq_offset_inj:
  assumes "i \<le> i32_max" "j \<le> i32_max"
  shows "(b::u32) + of_nat i = b + of_nat j \<longleftrightarrow> i = j"
proof
  assume "b + of_nat i = b + of_nat j"
  then have "(of_nat i :: u32) = of_nat j" by simp
  then have "unat (of_nat i :: u32) = unat (of_nat j :: u32)" by simp
  then show "i = j" using assms by (simp add: unat_of_nat i32_max_def)
qed simp

lemma seq_to_transmit_eq:
  assumes inv: "tcp_inv s" and st: "connected (s_state s)" and t: "s_tuple s = Some t" and mtu: "60 \<le> cx_ip_mtu cx"
  shows "seq_to_transmit cx s = Some (
     if handshaking (s_state s) \<and> in_flight s = 0 then True
     else let m = min (sendable s) (cc_window (s_congestion_controller s))
          in m \<noteq> 0 \<and> \<not> (s_nagle s \<and> in_flight s \<noteq> 0 \<and> m < min (mss_of cx t) (s_remote_mss s) \<and> \<not> want_fin (s_state s))
             \<or> want_fin (s_state s) \<and> in_flight s = rb_length (s_tx_buffer s))"
proof -
  note b = tcp_invD(1) [OF inv]
  let ?d = "in_flight s" and ?l = "s_local_seq_no s" and ?n = "min (s_remote_win_len s) (rb_length (s_tx_buffer s))"
  note d = in_flight_le(2) [OF inv st]
  have tx: "rb_length (s_tx_buffer s) \<le> i32_max" using buffers_invD(11) [OF b] by simp
  have n: "?n \<le> i32_max" using tx by simp
  have neq: "s_remote_last_seq s \<noteq> ?l \<longleftrightarrow> ?d \<noteq> 0"
    by (auto simp: in_flight_def unat_eq_0)
  have fin: "s_remote_last_seq s = ?l + of_nat (rb_length (s_tx_buffer s)) \<longleftrightarrow> ?d = rb_length (s_tx_buffer s)"
    unfolding remote_last_seq_eq [of s] by (rule seq_offset_inj [OF d tx])
  have send: "(if seq_ge (?l + of_nat ?n) (s_remote_last_seq s)
      then seq_diff (?l + of_nat ?n) (s_remote_last_seq s) else Some 0) = Some (sendable s)"
  proof (cases "?d \<le> ?n")
    case True
    have "seq_diff (?l + of_nat ?n) (?l + of_nat ?d) = Some (?n - ?d)"
      by (rule seq_offset_diff) (use True n in simp_all)
    moreover have "seq_ge (?l + of_nat ?n) (?l + of_nat ?d)"
      using seq_lt_offset(4) [OF n d] True by simp
    ultimately show ?thesis by (simp add: remote_last_seq_eq [of s] sendable_def)
  next
    case False
    then have "\<not> seq_ge (?l + of_nat ?n) (?l + of_nat ?d)"
      using seq_lt_offset(4) [OF n d] by simp
    moreover have "sendable s = 0" using False unfolding sendable_def by linarith
    ultimately show ?thesis by (simp add: remote_last_seq_eq [of s])
  qed
  show ?thesis
    using n tx
    by (auto simp: seq_to_transmit_def t local_mss_tuple [OF mtu] rb_len_def send neq fin handshaking_def Let_def not_le)
qed

section \<open>Timers and the decision\<close>

lemma inv_connected_tuple: "tcp_inv s \<Longrightarrow> connected (s_state s) \<Longrightarrow> \<exists>t. s_tuple s = Some t"
  by (auto simp: tcp_inv_def peer_inv_def connected_def)

lemma inv_tuple_not_listen: "tcp_inv s \<Longrightarrow> s_tuple s = Some t \<Longrightarrow> s_state s \<noteq> Listen"
  by (simp add: tcp_inv_def peer_inv_def)

lemma close_inv:
  assumes "tcp_inv s" "s_tuple s = Some t"
  shows "tcp_inv (tcp_set_state Closed s)"
  using assms by (simp add: tcp_set_state_def tcp_inv_def buffers_inv_def peer_inv_def flight_inv_def
      handshake_inv_def timer_inv_def handshaking_def)

definition retransmit_result :: "tcp_context \<Rightarrow> tcp_socket \<Rightarrow> tcp_socket" where
  "retransmit_result cx s = s\<lparr>s_remote_last_seq := s_local_seq_no s,
     s_timer := timer_set_for_idle (cx_now cx) (s_keep_alive s), s_rtte := rtte_on_retransmit (s_rtte s),
     s_congestion_controller := cc_on_retransmit (cx_now cx) (s_congestion_controller s)\<rparr>"

lemma retransmit_result_inv: "tcp_inv s \<Longrightarrow> tcp_inv (retransmit_result cx s)"
  by (simp add: retransmit_result_def tcp_inv_def buffers_inv_def peer_inv_def flight_inv_def
      handshake_inv_def timer_inv_def in_flight_def timer_set_for_idle_def)

definition stamped :: "tcp_context \<Rightarrow> tcp_socket \<Rightarrow> tcp_socket" where
  "stamped cx s = (if s_remote_last_ts s = None then s\<lparr>s_remote_last_ts := Some (cx_now cx)\<rparr> else s)"

lemma seq_to_transmit_cong:
  assumes "s_tuple s' = s_tuple s" "s_remote_mss s' = s_remote_mss s" "s_remote_last_seq s' = s_remote_last_seq s"
    "s_local_seq_no s' = s_local_seq_no s" "s_state s' = s_state s" "s_remote_win_len s' = s_remote_win_len s"
    "s_tx_buffer s' = s_tx_buffer s" "s_congestion_controller s' = s_congestion_controller s" "s_nagle s' = s_nagle s"
  shows "seq_to_transmit cx s' = seq_to_transmit cx s"
  unfolding seq_to_transmit_def assms by (rule refl)

lemma stamped_simps [simp]:
  "s_tuple (stamped cx s) = s_tuple s" "tcp_inv (stamped cx s) = tcp_inv s" "s_timer (stamped cx s) = s_timer s"
  "s_state (stamped cx s) = s_state s"
  by (simp_all add: stamped_def)

lemma seq_to_transmit_stamped [simp]: "seq_to_transmit cx (stamped cx s) = seq_to_transmit cx s"
  by (rule seq_to_transmit_cong) (simp_all add: stamped_def)

lemma dispatch_timers_cases:
  assumes "tcp_inv s" "s_tuple s = Some t" "60 \<le> cx_ip_mtu cx"
  obtains (timeout) "dispatch_timers cx s = Some (tcp_set_state Closed (stamped cx s))" "timed_out (stamped cx s) (cx_now cx)"
  | (retransmit) delta where "dispatch_timers cx s = Some (retransmit_result cx (stamped cx s))"
      "seq_to_transmit cx s = Some False" "timer_should_retransmit (s_timer s) (cx_now cx) = Some delta"
      "\<not> timed_out (stamped cx s) (cx_now cx)"
  | (nothing) b where "dispatch_timers cx s = Some (stamped cx s)" "seq_to_transmit cx s = Some b"
      "b \<or> timer_should_retransmit (s_timer s) (cx_now cx) = None" "\<not> timed_out (stamped cx s) (cx_now cx)"
proof -
  obtain b where tr: "seq_to_transmit cx s = Some b"
    using seq_to_transmit_total [OF tcp_invD(1) [OF assms(1)] assms(2,3)] by blast
  have same: "s\<lparr>s_congestion_controller := s_congestion_controller s\<rparr> = s" for s :: tcp_socket
    by (cases s) simp
  have eq: "dispatch_timers cx s =
     (if timed_out (stamped cx s) (cx_now cx) then Some (tcp_set_state Closed (stamped cx s))
      else Some (if \<not> b then case timer_should_retransmit (s_timer s) (cx_now cx) of
                     Some d \<Rightarrow> retransmit_result cx (stamped cx s) | None \<Rightarrow> stamped cx s
                 else stamped cx s))"
    unfolding dispatch_timers_def Let_def cc_pre_transmit_def stamped_def [symmetric] same
    by (simp add: tr retransmit_result_def split: option.splits)
  consider "timed_out (stamped cx s) (cx_now cx)"
    | d where "\<not> timed_out (stamped cx s) (cx_now cx)" "\<not> b" "timer_should_retransmit (s_timer s) (cx_now cx) = Some d"
    | "\<not> timed_out (stamped cx s) (cx_now cx)" "b \<or> timer_should_retransmit (s_timer s) (cx_now cx) = None"
    by (cases "timer_should_retransmit (s_timer s) (cx_now cx)") auto
  then show thesis
  proof cases
    case 1
    then show thesis using eq by (intro timeout) simp_all
  next
    case 2
    then show thesis using eq tr by (intro retransmit) simp_all
  next
    case 3
    show thesis by (rule nothing) (use eq 3 tr in auto)
  qed
qed

lemma dispatch_timers_inv:
  assumes "tcp_inv s" "s_tuple s = Some t" "60 \<le> cx_ip_mtu cx"
  obtains s' where "dispatch_timers cx s = Some s'" "tcp_inv s'" "s_tuple s' = Some t"
proof (rule dispatch_timers_cases [OF assms])
  assume "dispatch_timers cx s = Some (tcp_set_state Closed (stamped cx s))"
  then show thesis
    by (rule that) (use close_inv [of "stamped cx s" t] assms(1,2) in \<open>simp_all add: tcp_set_state_def\<close>)
next
  assume "dispatch_timers cx s = Some (retransmit_result cx (stamped cx s))"
  then show thesis
    by (rule that) (use retransmit_result_inv [of "stamped cx s" cx] assms(1,2) in \<open>simp_all add: retransmit_result_def\<close>)
next
  assume "dispatch_timers cx s = Some (stamped cx s)"
  then show thesis by (rule that) (use assms(1,2) in simp_all)
qed

lemma dispatch_decide_total:
  assumes "tcp_inv s" "s_tuple s = Some t" "60 \<le> cx_ip_mtu cx"
  shows "\<exists>d. dispatch_decide cx s = Some d"
proof -
  obtain b where "seq_to_transmit cx s = Some b"
    using seq_to_transmit_total [OF tcp_invD(1) [OF assms(1)] assms(2,3)] by blast
  moreover obtain b' where "ack_to_transmit s = Some b'"
    using ack_to_transmit_total [OF tcp_invD(1) [OF assms(1)]] by blast
  ultimately show ?thesis by (auto simp: dispatch_decide_def)
qed

text \<open>A SYN is only sent when none is in flight.\<close>

lemma retransmit_timer_quiet:
  assumes "timer_is_retransmit tm"
  shows "\<not> timer_should_keep_alive tm now" "\<not> timer_should_close tm now"
  using assms by (cases tm; simp)+

lemma handshaking_send:
  assumes "tcp_inv s" "s_tuple s = Some t" "60 \<le> cx_ip_mtu cx" "dispatch_decide cx s = Some Send"
    "handshaking (s_state s)"
  shows "in_flight s = 0"
proof (rule ccontr)
  assume d: "in_flight s \<noteq> 0"
  have q: "syn_quiet s" and tx: "rb_length (s_tx_buffer s) = 0"
    using tcp_invD(4) [OF assms(1)] assms(5) d by (simp_all add: handshake_inv_def)
  have c: "connected (s_state s)" "\<not> want_fin (s_state s)" "s_state s \<noteq> Closed"
    using assms(5) by (auto simp: connected_def handshaking_def want_fin_def)
  have "seq_to_transmit cx s = Some False"
    using d c(2) by (simp add: seq_to_transmit_eq [OF assms(1) c(1) assms(2,3)] sendable_def tx)
  then show False
    using q c(3) assms(4) retransmit_timer_quiet [of "s_timer s" "cx_now cx"]
    by (simp add: dispatch_decide_def syn_quiet_def)
qed

section \<open>The segment\<close>

definition data_state :: "tcp_state \<Rightarrow> bool" where
  "data_state st \<longleftrightarrow> st = Established \<or> st = CloseWait \<or> want_fin st"

definition data_payload :: "tcp_context \<Rightarrow> tcp_tuple \<Rightarrow> tcp_socket \<Rightarrow> u8 list" where
  "data_payload cx t s = rb_get_allocated (s_tx_buffer s) (in_flight s)
     (min (min (s_remote_win_len s - in_flight s) (s_remote_mss s)) (mss_of cx t))"

definition data_control :: "tcp_context \<Rightarrow> tcp_tuple \<Rightarrow> tcp_socket \<Rightarrow> tcp_control" where
  "data_control cx t s =
     (if in_flight s + length (data_payload cx t s) = rb_length (s_tx_buffer s)
      then if want_fin (s_state s) then Ctl_Fin
           else if data_payload cx t s \<noteq> [] then Ctl_Psh else Ctl_None
      else Ctl_None)"

text \<open>The segment that each state sends.\<close>

definition segment_of :: "tcp_context \<Rightarrow> tcp_tuple \<Rightarrow> tcp_socket \<Rightarrow> tcp_repr" where
  "segment_of cx t s = \<lparr>r_src_port = ep_port (t_local t), r_dst_port = ep_port (t_remote t),
     r_control = (if s_state s = Closed then Ctl_Rst else if handshaking (s_state s) then Ctl_Syn
                  else if data_state (s_state s) then data_control cx t s else Ctl_None),
     r_seq_number = s_remote_last_seq s,
     r_ack_number = (if s_state s = SynSent then None else Some (window_start s)),
     r_window_len = (if handshaking (s_state s) then of_nat (min (rb_window (s_rx_buffer s)) 65535)
                     else scaled_window s),
     r_window_scale = (if s_state s = SynSent then Some (s_remote_win_shift s)
                       else if s_state s = SynReceived
                       then map_option (\<lambda>_. s_remote_win_shift s) (s_remote_win_scale s) else None),
     r_max_seg_size = (if handshaking (s_state s) then Some (of_nat (mss_of cx t)) else None),
     r_sack_permitted = (s_state s = SynSent \<or> s_state s = SynReceived \<and> s_remote_has_sack s),
     r_sack_ranges = (None, None, None),
     r_payload = (if data_state (s_state s) then data_payload cx t s else [])\<rparr>"

lemma ip_repr_new_header: "ip_repr_new src dst p n h = Some ip \<Longrightarrow> ip_header_len ip = addr_header_len src"
  by (cases src; cases dst) (auto simp: ipv4_buffer_len_def ipv6_buffer_len_def)

lemma dispatch_base_repr_eq:
  assumes "buffers_inv s"
  shows "dispatch_base_repr t s = Some \<lparr>r_src_port = ep_port (t_local t), r_dst_port = ep_port (t_remote t),
                r_control = Ctl_None, r_seq_number = s_remote_last_seq s,
                r_ack_number = Some (window_start s), r_window_len = scaled_window s,
                r_window_scale = None, r_max_seg_size = None, r_sack_permitted = False,
                r_sack_ranges = (None, None, None), r_payload = []\<rparr>"
  using buffers_invD(10) [OF assms] by (simp add: dispatch_base_repr_def rb_len_def window_start_def)

lemma dispatch_data_repr_eq:
  assumes inv: "tcp_inv s" and st: "data_state (s_state s)" and mtu: "60 \<le> cx_ip_mtu cx"
    and ip: "ip_header_len ip = addr_header_len (ep_addr (t_local t))" and "r_control repr = Ctl_None"
  shows "dispatch_data_repr cx ip s repr
     = Some (repr\<lparr>r_payload := data_payload cx t s, r_control := data_control cx t s\<rparr>)"
proof -
  have c: "connected (s_state s)" using st by (auto simp: data_state_def connected_def want_fin_def)
  note d = in_flight_le(2) [OF inv c]
  have w: "s_remote_win_len s \<le> i32_max"
    using tcp_invD(2) [OF inv] by (simp add: peer_inv_def i32_max_def)
  let ?l = "s_local_seq_no s" and ?d = "in_flight s" and ?w = "s_remote_win_len s"
  have lim: "(if seq_ge (?l + of_nat ?w) (s_remote_last_seq s)
      then seq_diff (?l + of_nat ?w) (s_remote_last_seq s) else Some 0) = Some (?w - ?d)"
  proof (cases "?d \<le> ?w")
    case True
    have "seq_diff (?l + of_nat ?w) (?l + of_nat ?d) = Some (?w - ?d)"
      by (rule seq_offset_diff) (use True w in simp_all)
    moreover have "seq_ge (?l + of_nat ?w) (?l + of_nat ?d)"
      using seq_lt_offset(4) [OF w d] True by simp
    ultimately show ?thesis by (simp add: remote_last_seq_eq [of s])
  next
    case False
    then have "\<not> seq_ge (?l + of_nat ?w) (?l + of_nat ?d)"
      using seq_lt_offset(4) [OF w d] by simp
    then show ?thesis using False by (simp add: remote_last_seq_eq [of s])
  qed
  have off: "seq_diff (s_remote_last_seq s) ?l = Some ?d"
    using d by (simp add: seq_diff_eq in_flight_def)
  have mss: "local_mss cx (ip_header_len ip) = Some (mss_of cx t)"
    using local_mss_tuple [OF mtu] ip by simp
  have pay: "r_payload (repr\<lparr>r_payload := p\<rparr>) = p" for p by simp
  have eq: "dispatch_data_repr cx ip s repr =
      Some (if ?d + length (data_payload cx t s) = rb_length (s_tx_buffer s)
        then case s_state s of
            FinWait1 \<Rightarrow> repr\<lparr>r_payload := data_payload cx t s, r_control := Ctl_Fin\<rparr>
          | LastAck \<Rightarrow> repr\<lparr>r_payload := data_payload cx t s, r_control := Ctl_Fin\<rparr>
          | Closing \<Rightarrow> repr\<lparr>r_payload := data_payload cx t s, r_control := Ctl_Fin\<rparr>
          | Established \<Rightarrow> if data_payload cx t s \<noteq> [] then repr\<lparr>r_payload := data_payload cx t s, r_control := Ctl_Psh\<rparr>
              else repr\<lparr>r_payload := data_payload cx t s\<rparr>
          | CloseWait \<Rightarrow> if data_payload cx t s \<noteq> [] then repr\<lparr>r_payload := data_payload cx t s, r_control := Ctl_Psh\<rparr>
              else repr\<lparr>r_payload := data_payload cx t s\<rparr>
          | _ \<Rightarrow> repr\<lparr>r_payload := data_payload cx t s\<rparr>
        else repr\<lparr>r_payload := data_payload cx t s\<rparr>)"
    unfolding dispatch_data_repr_def seq_add_Some [OF w] bind.bind_lunit lim off mss Let_def rb_len_def
      data_payload_def [symmetric] pay by (rule refl)
  show ?thesis
    using st assms(5) unfolding eq
    by (cases "s_state s"; cases repr) (simp_all add: data_control_def data_state_def want_fin_def)
qed

lemma segment_of_data_payload: "\<not> data_state (s_state s) \<Longrightarrow> r_payload (segment_of cx t s) = []"
  by (simp add: segment_of_def)

lemma dispatch_packet_eq:
  assumes inv: "tcp_inv s" and t: "s_tuple s = Some t" and mtu: "60 \<le> cx_ip_mtu cx"
  obtains ip where "dispatch_packet cx s = Some (Some
      (if timer_should_keep_alive (s_timer s) (cx_now cx) \<and> repr_is_empty (segment_of cx t s)
       then let r = (segment_of cx t s)\<lparr>r_seq_number := s_remote_last_seq s - 1, r_payload := [0]\<rparr>
            in (ip_set_payload_len (repr_buffer_len r) ip, r, True)
       else (ip_set_payload_len (repr_buffer_len (segment_of cx t s)) ip, segment_of cx t s, False)))"
    "ip_src_addr ip = ep_addr (t_local t)" "ip_dst_addr ip = ep_addr (t_remote t)"
    "ip_header_len ip = addr_header_len (ep_addr (t_local t))" "ip_next_header ip = Tcp"
    "ip_hop_limit ip = (case s_hop_limit s of Some h \<Rightarrow> h | None \<Rightarrow> 64)"
proof -
  note b = tcp_invD(1) [OF inv]
  have nl: "s_state s \<noteq> Listen" by (rule inv_tuple_not_listen [OF inv t])
  have "addr_version (ep_addr (t_local t)) = addr_version (ep_addr (t_remote t))"
    using tcp_invD(2) [OF inv] t by (simp add: peer_inv_def)
  then obtain ip where ip: "ip_repr_new (ep_addr (t_local t)) (ep_addr (t_remote t)) Tcp 0
        (case s_hop_limit s of Some h \<Rightarrow> h | None \<Rightarrow> 64) = Some ip"
    "ip_src_addr ip = ep_addr (t_local t)" "ip_dst_addr ip = ep_addr (t_remote t)" "ip_next_header ip = Tcp"
    "ip_hop_limit ip = (case s_hop_limit s of Some h \<Rightarrow> h | None \<Rightarrow> 64)"
    using ip_repr_new_eq by blast
  note hdr = ip_repr_new_header [OF ip(1)]
  have mss: "local_mss cx (ip_header_len ip) = Some (mss_of cx t)"
    using local_mss_tuple [OF mtu] hdr by simp
  let ?base = "\<lparr>r_src_port = ep_port (t_local t), r_dst_port = ep_port (t_remote t),
                r_control = Ctl_None, r_seq_number = s_remote_last_seq s,
                r_ack_number = Some (window_start s), r_window_len = scaled_window s,
                r_window_scale = None, r_max_seg_size = None, r_sack_permitted = False,
                r_sack_ranges = (None, None, None), r_payload = []\<rparr>"
  let ?shaped = "(segment_of cx t s)\<lparr>r_max_seg_size := None\<rparr>"
  have shaped: "dispatch_state_repr cx ip s ?base = Some (Some ?shaped)"
  proof (cases "data_state (s_state s)")
    case True
    then have "dispatch_state_repr cx ip s ?base = map_option Some (dispatch_data_repr cx ip s ?base)"
      by (auto simp: dispatch_state_repr_def data_state_def want_fin_def split: tcp_state.splits)
    also have "dispatch_data_repr cx ip s ?base
        = Some (?base\<lparr>r_payload := data_payload cx t s, r_control := data_control cx t s\<rparr>)"
      by (rule dispatch_data_repr_eq [OF inv True mtu hdr]) simp
    also have "\<dots> = Some ?shaped"
      using True by (auto simp: segment_of_def data_state_def want_fin_def handshaking_def split: tcp_state.splits)
    finally show ?thesis by simp
  next
    case False
    then show ?thesis
      using nl by (cases "s_state s")
        (simp_all add: dispatch_state_repr_def data_state_def want_fin_def segment_of_def dispatch_syn_repr_def
          handshaking_def)
  qed
  have empty: "repr_is_empty ?shaped = repr_is_empty (segment_of cx t s)"
    by (simp add: repr_is_empty_def cong: tcp_control.case_cong)
  have syn: "r_control (segment_of cx t s) = Ctl_Syn \<longleftrightarrow> handshaking (s_state s)"
    by (auto simp: segment_of_def data_control_def handshaking_def)
  have nosyn: "r_control (segment_of cx t s) \<noteq> Ctl_Syn" if "repr_is_empty (segment_of cx t s)"
    using that by (auto simp: repr_is_empty_def split: if_splits)
  have plain: "?shaped = segment_of cx t s" if "\<not> handshaking (s_state s)"
    using that by (simp add: segment_of_def)
  have filled: "?shaped\<lparr>r_max_seg_size := Some (of_nat (mss_of cx t))\<rparr> = segment_of cx t s" if "handshaking (s_state s)"
    using that by (simp add: segment_of_def)
  have opt: "dispatch_mss_option cx ip ?shaped = Some (segment_of cx t s)"
    using syn plain filled by (cases "handshaking (s_state s)") (simp_all add: dispatch_mss_option_def mss)
  let ?ka = "(segment_of cx t s)\<lparr>r_seq_number := s_remote_last_seq s - 1, r_payload := [0]\<rparr>"
  have seq: "r_seq_number (segment_of cx t s) = s_remote_last_seq s" by (simp add: segment_of_def)
  have packet: "dispatch_packet cx s = do { (repr, k) \<leftarrow> dispatch_keep_alive cx s ?shaped;
      repr \<leftarrow> dispatch_mss_option cx ip repr;
      Some (Some (ip_set_payload_len (repr_buffer_len repr) ip, repr, k)) }"
    by (simp add: dispatch_packet_def t ip(1) dispatch_base_repr_eq [OF b] shaped)
  have "dispatch_packet cx s = Some (Some
      (if timer_should_keep_alive (s_timer s) (cx_now cx) \<and> repr_is_empty (segment_of cx t s)
       then let r = ?ka in (ip_set_payload_len (repr_buffer_len r) ip, r, True)
       else (ip_set_payload_len (repr_buffer_len (segment_of cx t s)) ip, segment_of cx t s, False)))"
  proof (cases "timer_should_keep_alive (s_timer s) (cx_now cx) \<and> repr_is_empty (segment_of cx t s)")
    case True
    then have nh: "\<not> handshaking (s_state s)" using nosyn syn by blast
    have "dispatch_keep_alive cx s ?shaped = Some (?ka, True)"
      using True by (simp add: dispatch_keep_alive_def plain [OF nh] seq i32_max_def)
    moreover have "dispatch_mss_option cx ip ?ka = Some ?ka"
      using nosyn True by (simp add: dispatch_mss_option_def)
    ultimately show ?thesis using True by (simp add: packet Let_def)
  next
    case False
    then have "dispatch_keep_alive cx s ?shaped = Some (?shaped, False)"
      unfolding dispatch_keep_alive_def empty by (rule if_not_P)
    then show ?thesis using False opt by (auto simp: packet)
  qed
  then show thesis using ip hdr that by blast
qed

section \<open>After sending\<close>

lemma data_payload_len:
  assumes "buffers_inv s"
  shows "length (data_payload cx t s) \<le> rb_length (s_tx_buffer s) - in_flight s"
    "length (data_payload cx t s) \<le> s_remote_win_len s - in_flight s"
    "length (data_payload cx t s) \<le> s_remote_mss s" "length (data_payload cx t s) \<le> mss_of cx t"
proof -
  have "length (data_payload cx t s) = min (rb_length (s_tx_buffer s) - in_flight s)
      (min (min (min (s_remote_win_len s - in_flight s) (s_remote_mss s)) (mss_of cx t))
        (until_end (s_tx_buffer s) (in_flight s)))"
    using buffers_invD(2) [OF assms] by (simp add: data_payload_def rb_get_allocated_eq)
  then show "length (data_payload cx t s) \<le> rb_length (s_tx_buffer s) - in_flight s"
    "length (data_payload cx t s) \<le> s_remote_win_len s - in_flight s"
    "length (data_payload cx t s) \<le> s_remote_mss s" "length (data_payload cx t s) \<le> mss_of cx t"
    by linarith+
qed

lemma segment_len_le:
  assumes "tcp_inv s"
  shows "repr_segment_len (segment_of cx t s) \<le> 65536"
proof -
  have "length (data_payload cx t s) \<le> 65535"
    using data_payload_len(3) [OF tcp_invD(1) [OF assms], of cx t] tcp_invD(2) [OF assms] by (simp add: peer_inv_def)
  then show ?thesis
    using control_len_le [of "r_control (segment_of cx t s)"]
    by (auto simp: repr_segment_len_def segment_of_def)
qed

definition sent_result :: "tcp_context \<Rightarrow> tcp_repr \<Rightarrow> bool \<Rightarrow> tcp_socket \<Rightarrow> tcp_socket" where
  "sent_result cx repr pending s =
     (let len = repr_segment_len repr; seq = r_seq_number repr + of_nat len;
          e = (if len > 0 then rtte_on_send (cx_now cx) seq (s_rtte s) else s_rtte s);
          tm = timer_rewind_keep_alive (cx_now cx) (s_keep_alive s) (s_timer s)
      in s\<lparr>s_ack_delay_timer := Ack_Idle, s_remote_last_seq := seq, s_remote_last_ack := r_ack_number repr,
           s_remote_last_win := r_window_len repr, s_rtte := e,
           s_timer := if \<not> pending \<and> len > 0
                      then timer_set_for_retransmit (cx_now cx) (retransmission_timeout e) tm else tm,
           s_tuple := if s_state s = Closed then None else s_tuple s\<rparr>)"

lemma dispatch_finish_eq:
  assumes inv: "buffers_inv s" and t: "s_tuple s = Some t" and mtu: "60 \<le> cx_ip_mtu cx"
    and len: "repr_segment_len repr \<le> i32_max"
  obtains pending where "dispatch_finish cx repr False s = Some (sent_result cx repr pending s)"
    "seq_to_transmit cx (s\<lparr>s_remote_last_seq := r_seq_number repr + of_nat (repr_segment_len repr)\<rparr>) = Some pending"
proof -
  let ?seq = "r_seq_number repr + of_nat (repr_segment_len repr)"
  let ?s = "s\<lparr>s_remote_last_seq := ?seq\<rparr>"
  have "buffers_inv ?s" "s_tuple ?s = Some t" using inv t by (simp_all add: buffers_inv_def)
  then obtain pending where pending: "seq_to_transmit cx ?s = Some pending"
    using seq_to_transmit_total mtu by blast
  let ?e = "if repr_segment_len repr > 0 then rtte_on_send (cx_now cx) ?seq (s_rtte s) else s_rtte s"
  let ?s2 = "s\<lparr>s_timer := timer_rewind_keep_alive (cx_now cx) (s_keep_alive s) (s_timer s),
      s_ack_delay_timer := Ack_Idle, s_remote_last_seq := ?seq, s_remote_last_ack := r_ack_number repr,
      s_remote_last_win := r_window_len repr, s_rtte := ?e\<rparr>"
  have "seq_to_transmit cx ?s2 = Some pending"
    using pending by (subst seq_to_transmit_cong [of _ ?s]) simp_all
  moreover have "dispatch_finish cx repr False s = do {
      transmit \<leftarrow> seq_to_transmit cx ?s2;
      let s = (if \<not> transmit \<and> repr_segment_len repr > 0
                    then ?s2\<lparr>s_timer := timer_set_for_retransmit (cx_now cx)
                            (retransmission_timeout (s_rtte ?s2)) (s_timer ?s2)\<rparr>
                    else ?s2);
      Some (if s_state s = Closed then s\<lparr>s_tuple := None\<rparr> else s) }"
    by (cases s, cases "repr_segment_len repr > 0")
      (simp_all add: dispatch_finish_def seq_add_Some [OF len] cc_post_transmit_def Let_def cong: if_cong)
  moreover have "(let s = (if \<not> pending \<and> repr_segment_len repr > 0
                    then ?s2\<lparr>s_timer := timer_set_for_retransmit (cx_now cx)
                            (retransmission_timeout (s_rtte ?s2)) (s_timer ?s2)\<rparr>
                    else ?s2) in if s_state s = Closed then s\<lparr>s_tuple := None\<rparr> else s) = sent_result cx repr pending s"
    by (cases s) (simp add: sent_result_def Let_def)
  ultimately have "dispatch_finish cx repr False s = Some (sent_result cx repr pending s)"
    by (simp only: bind.bind_lunit Let_def)
  then show thesis using pending that by blast
qed

lemma rewind_keep_alive_close: "timer_rewind_keep_alive now ka tm = Timer_Close t \<Longrightarrow> tm = Timer_Close t"
  by (cases tm) simp_all

lemma set_for_retransmit_close: "timer_set_for_retransmit now d tm = Timer_Close t \<Longrightarrow> tm = Timer_Close t"
  by (cases tm) (simp_all split: if_splits)

lemma set_for_retransmit_is: "\<forall>t. tm \<noteq> Timer_Close t \<Longrightarrow> timer_is_retransmit (timer_set_for_retransmit now d tm)"
  by (cases tm) (simp_all split: if_splits)

lemma scaled_window_le: "scaled_window s \<le> of_nat (min (rb_window (s_rx_buffer s)) 65535)"
proof -
  have "rb_window (s_rx_buffer s) div 2 ^ unat (s_remote_win_shift s) \<le> rb_window (s_rx_buffer s)" by simp
  then have "min (rb_window (s_rx_buffer s) div 2 ^ unat (s_remote_win_shift s)) 65535
      \<le> min (rb_window (s_rx_buffer s)) 65535" by linarith
  then show ?thesis
    unfolding scaled_window_def word_le_nat_alt by (simp add: unat_of_nat)
qed

lemma seq_to_transmit_syn:
  assumes "handshaking (s_state s)" "rb_length (s_tx_buffer s) = 0" "s_remote_last_seq s = s_local_seq_no s + 1"
    "s_tuple s = Some t" "60 \<le> cx_ip_mtu cx"
  shows "seq_to_transmit cx s = Some False"
proof -
  have "\<not> seq_ge (s_local_seq_no s) (s_local_seq_no s + 1)" using seq_lt_offset(4) [of 0 1 "s_local_seq_no s"] by (simp add: i32_max_def)
  moreover have "\<not> want_fin (s_state s)" using assms(1) by (auto simp: handshaking_def want_fin_def)
  ultimately show ?thesis
    by (simp add: seq_to_transmit_def assms(2-4) local_mss_tuple [OF assms(5)] rb_len_def Let_def)
qed

lemma unat_of_nat_small: "n \<le> i32_max \<Longrightarrow> unat (of_nat n :: u32) = n"
  by (simp add: unat_of_nat i32_max_def)

text \<open>In flight after the segment of a connected state.\<close>

lemma segment_flight:
  assumes inv: "tcp_inv s" and c: "connected (s_state s)" and hs: "handshaking (s_state s) \<Longrightarrow> in_flight s = 0"
  shows "in_flight s + repr_segment_len (segment_of cx t s)
      \<le> rb_length (s_tx_buffer s) + sent_control_len (s_state s)"
proof -
  let ?P = "data_payload cx t s" and ?tx = "rb_length (s_tx_buffer s)"
  note d = in_flight_le(1) [OF inv c]
  note p = data_payload_len(1) [OF tcp_invD(1) [OF inv], of cx t]
  consider "handshaking (s_state s)" | "data_state (s_state s)" "\<not> handshaking (s_state s)"
    | "\<not> data_state (s_state s)" "\<not> handshaking (s_state s)" by blast
  then show ?thesis
  proof cases
    case 1
    then have "\<not> data_state (s_state s)" "s_state s \<noteq> Closed" "sent_control_len (s_state s) = 1"
      by (auto simp: handshaking_def data_state_def want_fin_def)
    then show ?thesis
      using 1 hs by (simp add: repr_segment_len_def segment_of_def)
  next
    case 2
    then have wf: "want_fin (s_state s) \<longleftrightarrow> sent_control_len (s_state s) = 1" "s_state s \<noteq> Closed"
      using want_fin_control_len [of "s_state s"] c by (simp_all add: synchronized_def connected_def)
    have len: "repr_segment_len (segment_of cx t s) = length ?P + control_len (data_control cx t s)"
      using 2 wf(2) by (simp add: repr_segment_len_def segment_of_def)
    have "control_len (data_control cx t s) = (if in_flight s + length ?P = ?tx \<and> want_fin (s_state s) then 1 else 0)"
      by (simp add: data_control_def)
    with len wf(1) d p show ?thesis
      using sent_control_len_le [of "s_state s"] by (auto split: if_splits)
  next
    case 3
    then show ?thesis
      using d c by (simp add: repr_segment_len_def segment_of_def connected_def)
  qed
qed

lemma sent_result_closed_inv:
  assumes "tcp_inv s" "s_tuple s = Some t" "s_state s = Closed"
  shows "tcp_inv (sent_result cx repr pending s)"
  using assms by (simp add: sent_result_def Let_def tcp_inv_def buffers_inv_def peer_inv_def flight_inv_def
      handshake_inv_def timer_inv_def handshaking_def)

lemma sent_result_inv:
  assumes inv: "tcp_inv s" and t: "s_tuple s = Some t" and hs: "handshaking (s_state s) \<Longrightarrow> in_flight s = 0"
    and mtu: "60 \<le> cx_ip_mtu cx'"
    and pending: "seq_to_transmit cx' (s\<lparr>s_remote_last_seq := s_remote_last_seq s
        + of_nat (repr_segment_len (segment_of cx t s))\<rparr>) = Some pending"
  shows "tcp_inv (sent_result cx' (segment_of cx t s) pending s)" (is "tcp_inv ?s'")
proof (cases "s_state s = Closed")
  case True
  then show ?thesis by (rule sent_result_closed_inv [OF inv t])
next
  case False
  then have c: "connected (s_state s)" using inv_tuple_not_listen [OF inv t] by (simp add: connected_def)
  let ?n = "repr_segment_len (segment_of cx t s)"
  note b = tcp_invD(1) [OF inv]
  note fl = segment_flight [OF inv c hs, of cx t]
  have seq: "r_seq_number (segment_of cx t s) = s_remote_last_seq s" by (simp add: segment_of_def)
  have small: "in_flight s + ?n \<le> i32_max"
    using fl buffers_invD(11) [OF b] sent_control_len_le [of "s_state s"] by linarith
  have flight: "unat (s_remote_last_seq s + of_nat ?n - s_local_seq_no s) = in_flight s + ?n"
  proof -
    have "s_remote_last_seq s + of_nat ?n - s_local_seq_no s = (of_nat (in_flight s + ?n) :: u32)"
      by (simp add: in_flight_def)
    then show ?thesis using unat_of_nat_small [OF small] by (simp only:)
  qed
  have fields: "s_state ?s' = s_state s" "s_rx_buffer ?s' = s_rx_buffer s" "s_tx_buffer ?s' = s_tx_buffer s"
    "s_assembler ?s' = s_assembler s" "s_tuple ?s' = s_tuple s" "s_remote_win_scale ?s' = s_remote_win_scale s"
    "s_remote_win_len ?s' = s_remote_win_len s" "s_remote_mss ?s' = s_remote_mss s"
    "s_local_seq_no ?s' = s_local_seq_no s" "s_remote_last_seq ?s' = s_remote_last_seq s + of_nat ?n"
    "s_remote_seq_no ?s' = s_remote_seq_no s" "s_remote_win_shift ?s' = s_remote_win_shift s"
    "s_remote_last_ack ?s' = r_ack_number (segment_of cx t s)" "s_remote_last_win ?s' = r_window_len (segment_of cx t s)"
    using False by (simp_all add: sent_result_def Let_def seq)
  have fl': "in_flight ?s' = in_flight s + ?n"
    unfolding in_flight_def fields using flight by (simp add: in_flight_def)
  show ?thesis
  proof (rule tcp_invI)
    show "buffers_inv ?s'" using b by (simp add: buffers_inv_def fields)
    show "peer_inv ?s'" using tcp_invD(2) [OF inv] by (simp add: peer_inv_def fields)
    show "flight_inv ?s'" using fl by (simp add: flight_inv_def fields fl')
    show "timer_inv ?s'"
      unfolding timer_inv_def fields(1)
    proof (intro allI impI)
      fix c assume "s_timer ?s' = Timer_Close c"
      then have "s_timer s = Timer_Close c"
        unfolding sent_result_def Let_def
        by (simp split: if_splits) (blast dest: set_for_retransmit_close rewind_keep_alive_close)+
      then show "s_state s = TimeWait \<or> s_state s = Closed"
        using tcp_invD(5) [OF inv] by (simp add: timer_inv_def)
    qed
    show "handshake_inv ?s'"
    proof (cases "handshaking (s_state s)")
      case True
      have rest: "rb_length (s_rx_buffer s) = 0" "rb_length (s_tx_buffer s) = 0" "asm_present (s_assembler s) = {}"
        using tcp_invD(4) [OF inv] True by (simp_all add: handshake_inv_def)
      have n: "?n = 1"
        using True by (auto simp: repr_segment_len_def segment_of_def handshaking_def data_state_def want_fin_def)
      have "s_remote_last_seq s = s_local_seq_no s"
        using hs [OF True] by (simp add: in_flight_def unat_eq_0)
      then have "\<not> pending"
        using pending seq_to_transmit_syn [of "s\<lparr>s_remote_last_seq := s_remote_last_seq s + of_nat ?n\<rparr>" t cx'] True rest(2) t mtu n
        by simp
      then have tm: "timer_is_retransmit (s_timer ?s')"
        using n tcp_invD(5) [OF inv] True
        by (auto simp: sent_result_def Let_def timer_inv_def handshaking_def intro!: set_for_retransmit_is
            dest: rewind_keep_alive_close)
      have seg: "r_ack_number (segment_of cx t s) = (if s_state s = SynSent then None else Some (window_start s))"
        "r_window_len (segment_of cx t s) = of_nat (min (rb_window (s_rx_buffer s)) 65535)"
        using True by (simp_all add: segment_of_def)
      have "ack_to_transmit ?s' = Some False"
        unfolding ack_to_transmit_def fields seg
        using buffers_invD(10) [OF b] by (simp add: rb_len_def window_start_def seq_lt_def)
      moreover have "scaled_window ?s' \<le> of_nat (min (rb_window (s_rx_buffer s)) 65535)"
        using scaled_window_le [of ?s'] by (simp only: fields)
      then have "\<not> window_to_update ?s'"
        unfolding window_to_update_def fields seg using True by (auto simp: handshaking_def not_less)
      ultimately show ?thesis using tm rest by (simp add: handshake_inv_def fields syn_quiet_def)
    next
      case False
      then show ?thesis using tcp_invD(4) [OF inv] by (simp add: handshake_inv_def fields)
    qed
  qed
qed

section \<open>The whole function\<close>

lemma tcp_reset_inv:
  assumes "buffers_inv s"
  shows "tcp_inv (tcp_reset s)"
proof -
  have "rb_inv (rb_clear rb)" "rb_capacity (rb_clear rb) = rb_capacity rb" for rb :: socket_buffer
    by (auto simp: rb_clear_def rb_inv_def)
  then show ?thesis
    using assms by (simp add: tcp_reset_def tcp_inv_def buffers_inv_def peer_inv_def flight_inv_def
        handshake_inv_def timer_inv_def handshaking_def timer_new_def DEFAULT_MSS_def ASSEMBLER_MAX_SEGMENT_COUNT_def)
qed

lemma dispatch_prepare_cases:
  assumes inv: "tcp_inv s" and mtu: "60 \<le> cx_ip_mtu cx"
  obtains (no_peer) "dispatch_prepare cx s = Some (s, None)" "s_tuple s = None"
  | (quiet) t s1 where "s_tuple s = Some t" "dispatch_timers cx s = Some s1" "tcp_inv s1" "s_tuple s1 = Some t"
      "dispatch_decide cx s1 = Some Quiet" "dispatch_prepare cx s = Some (s1, None)"
  | (reset) t s1 where "s_tuple s = Some t" "dispatch_timers cx s = Some s1" "tcp_inv s1" "s_tuple s1 = Some t"
      "dispatch_decide cx s1 = Some Reset_Socket" "dispatch_prepare cx s = Some (tcp_reset s1, None)"
  | (keep_alive) t s1 ip where "s_tuple s = Some t" "dispatch_timers cx s = Some s1" "tcp_inv s1" "s_tuple s1 = Some t"
      "dispatch_decide cx s1 = Some Send"
      "dispatch_prepare cx s = Some (s1, Some (ip, (segment_of cx t s1)
          \<lparr>r_seq_number := s_remote_last_seq s1 - 1, r_payload := [0]\<rparr>, True))"
      "repr_is_empty (segment_of cx t s1)" "timer_should_keep_alive (s_timer s1) (cx_now cx)"
      "ip_src_addr ip = ep_addr (t_local t)" "ip_dst_addr ip = ep_addr (t_remote t)"
      "ip_header_len ip = addr_header_len (ep_addr (t_local t))" "ip_payload_len ip = 21"
  | (segment) t s1 ip where "s_tuple s = Some t" "dispatch_timers cx s = Some s1" "tcp_inv s1" "s_tuple s1 = Some t"
      "dispatch_decide cx s1 = Some Send"
      "dispatch_prepare cx s = Some (s1, Some (ip, segment_of cx t s1, False))"
      "\<not> (timer_should_keep_alive (s_timer s1) (cx_now cx) \<and> repr_is_empty (segment_of cx t s1))"
      "ip_src_addr ip = ep_addr (t_local t)" "ip_dst_addr ip = ep_addr (t_remote t)"
      "ip_header_len ip = addr_header_len (ep_addr (t_local t))"
      "ip_payload_len ip = repr_buffer_len (segment_of cx t s1)"
proof (cases "s_tuple s")
  case None
  then show thesis using no_peer by (simp add: dispatch_prepare_def)
next
  case (Some t)
  obtain s1 where s1: "dispatch_timers cx s = Some s1" "tcp_inv s1" "s_tuple s1 = Some t"
    using dispatch_timers_inv [OF inv Some mtu] .
  obtain d where d: "dispatch_decide cx s1 = Some d"
    using dispatch_decide_total [OF s1(2,3) mtu] by blast
  show thesis
  proof (cases d)
    case Quiet
    then show thesis using Some s1 d by (intro quiet) (simp_all add: dispatch_prepare_def)
  next
    case Reset_Socket
    then show thesis using Some s1 d by (intro reset) (simp_all add: dispatch_prepare_def)
  next
    case Send
    obtain ip where ip: "dispatch_packet cx s1 = Some (Some
      (if timer_should_keep_alive (s_timer s1) (cx_now cx) \<and> repr_is_empty (segment_of cx t s1)
       then let r = (segment_of cx t s1)\<lparr>r_seq_number := s_remote_last_seq s1 - 1, r_payload := [0]\<rparr>
            in (ip_set_payload_len (repr_buffer_len r) ip, r, True)
       else (ip_set_payload_len (repr_buffer_len (segment_of cx t s1)) ip, segment_of cx t s1, False)))"
      "ip_src_addr ip = ep_addr (t_local t)" "ip_dst_addr ip = ep_addr (t_remote t)"
      "ip_header_len ip = addr_header_len (ep_addr (t_local t))"
      using dispatch_packet_eq [OF s1(2,3) mtu] by metis
    have prep: "dispatch_prepare cx s = do { packet \<leftarrow> dispatch_packet cx s1; Some (s1, packet) }"
      using Some s1 d Send by (simp add: dispatch_prepare_def)
    show thesis
    proof (cases "timer_should_keep_alive (s_timer s1) (cx_now cx) \<and> repr_is_empty (segment_of cx t s1)")
      case True
      let ?r = "(segment_of cx t s1)\<lparr>r_seq_number := s_remote_last_seq s1 - 1, r_payload := [0]\<rparr>"
      have "r_control (segment_of cx t s1) \<noteq> Ctl_Syn" using True by (auto simp: repr_is_empty_def split: if_splits)
      then have "\<not> handshaking (s_state s1)" by (auto simp: segment_of_def data_control_def handshaking_def split: if_splits)
      then have "repr_options_len ?r = 0"
        by (auto simp: repr_options_len_def segment_of_def sack_range_len_def handshaking_def)
      then have len: "repr_buffer_len ?r = 21"
        by (simp add: repr_buffer_len_def repr_header_len_eq)
      have "dispatch_prepare cx s = Some (s1, Some (ip_set_payload_len (repr_buffer_len ?r) ip, ?r, True))"
        using True ip(1) prep by (simp add: Let_def)
      then show thesis
        by (rule keep_alive [OF Some s1 d [unfolded Send]]) (use True ip(2-4) len in simp_all)
    next
      case False
      have "dispatch_prepare cx s = Some (s1, Some (ip_set_payload_len (repr_buffer_len (segment_of cx t s1)) ip,
          segment_of cx t s1, False))"
        using False ip(1) prep by auto
      then show thesis
        by (rule segment [OF Some s1 d [unfolded Send] _ False]) (use ip(2-4) in simp_all)
    qed
  qed
qed

text \<open>\<open>emit\<close> leaves the MTU of the context alone.\<close>

definition keeps_mtu :: "(tcp_context \<Rightarrow> ip_repr \<times> tcp_repr \<Rightarrow> ('e + unit) \<times> tcp_context) \<Rightarrow> bool" where
  "keeps_mtu emit \<longleftrightarrow> (\<forall>cx p. cx_ip_mtu (snd (emit cx p)) = cx_ip_mtu cx)"

lemma keep_alive_finish_inv:
  assumes "tcp_inv s"
  shows "\<exists>s'. dispatch_finish cx repr True s = Some s' \<and> tcp_inv s'"
proof -
  let ?tm = "timer_rewind_keep_alive (cx_now cx) (s_keep_alive s) (s_timer s)"
  have "\<exists>t. ?tm = Timer_Close t \<longrightarrow> s_timer s = Timer_Close t" using rewind_keep_alive_close by blast
  have tm: "timer_is_retransmit ?tm = timer_is_retransmit (s_timer s)" by (cases "s_timer s") simp_all
  note inv = tcp_invD [OF assms]
  have "tcp_inv (s\<lparr>s_timer := ?tm\<rparr>)"
  proof (rule tcp_invI)
    show "buffers_inv (s\<lparr>s_timer := ?tm\<rparr>)" using inv(1) by (simp add: buffers_inv_def)
    show "peer_inv (s\<lparr>s_timer := ?tm\<rparr>)" using inv(2) by (simp add: peer_inv_def)
    show "flight_inv (s\<lparr>s_timer := ?tm\<rparr>)" using inv(3) by (simp add: flight_inv_def in_flight_def)
    show "timer_inv (s\<lparr>s_timer := ?tm\<rparr>)" using inv(5) rewind_keep_alive_close by (fastforce simp: timer_inv_def)
    have "ack_to_transmit (s\<lparr>s_timer := ?tm\<rparr>) = ack_to_transmit s" "window_to_update (s\<lparr>s_timer := ?tm\<rparr>) = window_to_update s"
      by (rule ack_window_cong; simp)+
    then show "handshake_inv (s\<lparr>s_timer := ?tm\<rparr>)"
      using inv(4) tm by (simp add: handshake_inv_def syn_quiet_def in_flight_def)
  qed
  then show ?thesis by (simp add: dispatch_finish_def Let_def)
qed

lemma tcp_dispatch_inv:
  assumes inv: "tcp_inv s" and mtu: "60 \<le> cx_ip_mtu cx" and emit: "keeps_mtu emit"
  shows "\<exists>r cx' s'. tcp_dispatch emit cx s = Some (r, cx', s') \<and> tcp_inv s'"
proof (rule dispatch_prepare_cases [OF inv mtu])
  assume "dispatch_prepare cx s = Some (s, None)"
  then show ?thesis using inv by (simp add: tcp_dispatch_def)
next
  fix t s1 assume "dispatch_prepare cx s = Some (s1, None)" "tcp_inv s1"
  then show ?thesis by (simp add: tcp_dispatch_def)
next
  fix t s1 assume "dispatch_prepare cx s = Some (tcp_reset s1, None)" "tcp_inv s1"
  then show ?thesis using tcp_reset_inv [OF tcp_invD(1)] by (simp add: tcp_dispatch_def)
next
  fix t s1 ip
  assume a: "tcp_inv s1" "dispatch_prepare cx s = Some (s1, Some (ip, (segment_of cx t s1)
          \<lparr>r_seq_number := s_remote_last_seq s1 - 1, r_payload := [0]\<rparr>, True))"
  let ?r = "(segment_of cx t s1)\<lparr>r_seq_number := s_remote_last_seq s1 - 1, r_payload := [0]\<rparr>"
  obtain r cx' where e: "emit cx (ip, ?r) = (r, cx')" by fastforce
  then show ?thesis
    using a keep_alive_finish_inv [OF a(1), of cx' ?r] by (cases r) (auto simp: tcp_dispatch_def)
next
  fix t s1 ip
  assume a: "tcp_inv s1" "s_tuple s1 = Some t" "dispatch_decide cx s1 = Some Send"
    "dispatch_prepare cx s = Some (s1, Some (ip, segment_of cx t s1, False))"
  obtain r cx' where e: "emit cx (ip, segment_of cx t s1) = (r, cx')" by fastforce
  have mtu': "60 \<le> cx_ip_mtu cx'" using emit mtu e by (metis keeps_mtu_def snd_conv)
  have len: "repr_segment_len (segment_of cx t s1) \<le> i32_max"
    using segment_len_le [OF a(1), of cx t] by (simp add: i32_max_def)
  obtain pending where p: "dispatch_finish cx' (segment_of cx t s1) False s1
      = Some (sent_result cx' (segment_of cx t s1) pending s1)"
    "seq_to_transmit cx' (s1\<lparr>s_remote_last_seq := r_seq_number (segment_of cx t s1)
        + of_nat (repr_segment_len (segment_of cx t s1))\<rparr>) = Some pending"
    using dispatch_finish_eq [OF tcp_invD(1) [OF a(1)] a(2) mtu' len] .
  have seq: "r_seq_number (segment_of cx t s1) = s_remote_last_seq s1" by (simp add: segment_of_def)
  have "tcp_inv (sent_result cx' (segment_of cx t s1) pending s1)"
    by (rule sent_result_inv [OF a(1,2) handshaking_send [OF a(1,2) mtu a(3)] mtu' p(2) [unfolded seq]])
  then show ?thesis
    using a e p by (cases r) (auto simp: tcp_dispatch_def)
qed

end
