(* ===== verification/Tcp_Reachable.thy ===== *)
theory Tcp_Reachable
  imports Tcp_Transmit
begin

text \<open>
  The application's operations keep the invariant, and so does every history of a socket: the
  step relation of a socket with its environment, the sockets it reaches, and what holds of them.
\<close>

section \<open>The operations of the application\<close>

lemma tcp_new_inv:
  assumes "tcp_new reno rx tx = Some s" "rb_inv rx" "rb_inv tx" "rb_capacity tx < i32_max"
  shows "tcp_inv s"
  using assms by (auto simp: tcp_new_def Let_def tcp_inv_def buffers_inv_def peer_inv_def flight_inv_def
      handshake_inv_def timer_inv_def handshaking_def timer_new_def DEFAULT_MSS_def
      ASSEMBLER_MAX_SEGMENT_COUNT_def split: if_splits)

lemma reset_fields:
  "s_state (tcp_reset s) = Closed" "rb_length (s_rx_buffer (tcp_reset s)) = 0"
  "rb_length (s_tx_buffer (tcp_reset s)) = 0" "asm_present (s_assembler (tcp_reset s)) = {}"
  "s_tuple (tcp_reset s) = None" "s_timer (tcp_reset s) = Timer_Idle None"
  "s_remote_win_scale (tcp_reset s) = None" "s_remote_win_len (tcp_reset s) = 0" "s_remote_mss (tcp_reset s) = 536"
  by (simp_all add: tcp_reset_def rb_clear_def timer_new_def DEFAULT_MSS_def)

lemma tcp_listen_inv:
  assumes "tcp_inv s"
  shows "tcp_inv (snd (tcp_listen ep s))"
proof -
  have "tcp_inv (tcp_reset s)" by (rule tcp_reset_inv [OF tcp_invD(1) [OF assms]])
  then have "tcp_inv (tcp_set_state Listen ((tcp_reset s)\<lparr>s_listen_endpoint := ep, s_tuple := None\<rparr>))"
    using reset_fields [of s]
    by (simp add: tcp_set_state_def tcp_inv_def buffers_inv_def peer_inv_def flight_inv_def
        handshake_inv_def timer_inv_def handshaking_def)
  then show ?thesis using assms by (simp add: tcp_listen_def Let_def)
qed

lemma tcp_connect_inv:
  assumes "tcp_inv s" "tcp_connect gsa cx r l s = (res, cx', s')"
  shows "tcp_inv s'"
proof (cases "s' = s")
  case False
  have reset: "tcp_inv (tcp_reset s)" by (rule tcp_reset_inv [OF tcp_invD(1) [OF assms(1)]])
  obtain t seq where s': "s' = (tcp_reset s)\<lparr>s_tuple := Some t, s_state := SynSent, s_local_seq_no := seq,
      s_remote_last_seq := seq\<rparr>" "addr_version (ep_addr (t_local t)) = addr_version (ep_addr (t_remote t))"
    using assms(2) False
    by (auto simp: tcp_connect_def Let_def tcp_set_state_def split: if_splits option.splits prod.splits)
  show ?thesis
    using reset reset_fields [of s] s'
    by (simp add: tcp_inv_def buffers_inv_def peer_inv_def flight_inv_def handshake_inv_def timer_inv_def
        in_flight_def)
qed (use assms in simp)

lemma tcp_abort_inv: "tcp_inv s \<Longrightarrow> tcp_inv (tcp_abort s)"
  by (simp add: tcp_abort_def tcp_set_state_def tcp_inv_def buffers_inv_def peer_inv_def flight_inv_def
      handshake_inv_def timer_inv_def handshaking_def)

lemma tcp_close_inv:
  assumes "tcp_inv s"
  shows "tcp_inv (tcp_close s)"
proof -
  note inv = tcp_invD [OF assms]
  have step: "tcp_inv (tcp_set_state st s)"
    if "s_state s = SynReceived \<or> s_state s = Established \<or> s_state s = CloseWait" "st = FinWait1 \<or> st = LastAck" for st
  proof (rule tcp_invI)
    show "buffers_inv (tcp_set_state st s)" using inv(1) by (simp add: tcp_set_state_def buffers_inv_def)
    show "peer_inv (tcp_set_state st s)" using inv(2) that by (auto simp: tcp_set_state_def peer_inv_def)
    show "flight_inv (tcp_set_state st s)"
      using inv(3) that by (auto simp: tcp_set_state_def flight_inv_def in_flight_def)
    show "handshake_inv (tcp_set_state st s)"
      using that(2) by (auto simp: tcp_set_state_def handshake_inv_def handshaking_def)
    show "timer_inv (tcp_set_state st s)" using inv(5) that by (auto simp: tcp_set_state_def timer_inv_def)
  qed
  show ?thesis
    using step tcp_abort_inv [OF assms] assms
    by (cases "s_state s") (simp_all add: tcp_close_def tcp_abort_def)
qed

text \<open>A closure as the API documents it: it fills a prefix of the slice and returns its length.\<close>

definition well_behaved :: "(u8 list \<Rightarrow> u8 list \<times> nat \<times> 'r) \<Rightarrow> bool" where
  "well_behaved f \<longleftrightarrow> (\<forall>buf. length (fst (f buf)) = length buf \<and> fst (snd (f buf)) \<le> length buf)"

lemma enqueue_many_with_inv:
  assumes "rb_inv rb" "well_behaved f"
  obtains n r rb' where "rb_enqueue_many_with f rb = Some ((n, r), rb')" "rb_inv rb'"
    "rb_capacity rb' = rb_capacity rb" "rb_length rb' = rb_length rb + n"
proof -
  let ?w = "rb_contiguous_window (rb_norm rb)"
  obtain buf n r where f: "f (take ?w (rb_free (rb_norm rb))) = (buf, n, r)"
    using prod_cases3 by blast
  have "?w \<le> rb_window rb"
    using rb_contiguous_window_le(1) [of "rb_norm rb"] assms(1) by (simp add: rb_window_def rb_len_def)
  then have len: "length buf = ?w" "n \<le> ?w"
    using assms(2) [unfolded well_behaved_def, rule_format, of "take ?w (rb_free (rb_norm rb))"] f by simp_all
  note at = rb_enqueue_at_end [OF assms(1) len]
  show thesis
    by (rule that [OF rb_enqueue_many_with_eq [where f = f and rb = rb, OF f assms(1) len(2)] at(1,2)]) simp
qed

lemma dequeue_many_with_inv:
  assumes "rb_inv rb" "well_behaved f"
  obtains n r rb' where "rb_dequeue_many_with f rb = Some ((n, r), rb')" "rb_inv rb'"
    "rb_capacity rb' = rb_capacity rb" "rb_length rb' = rb_length rb - n" "n \<le> rb_length rb"
proof -
  let ?m = "min (rb_length rb) (rb_capacity rb - rb_read_at rb)"
  obtain buf n r where f: "f (take ?m (rb_contents rb)) = (buf, n, r)"
    using prod_cases3 by blast
  have len: "length buf = ?m" "n \<le> ?m"
    using assms(2) [unfolded well_behaved_def, rule_format, of "take ?m (rb_contents rb)"] f assms(1) by simp_all
  note at = rb_dequeue_at_front [OF assms(1) len]
  show thesis
    by (rule that [OF rb_dequeue_many_with_eq [where f = f and rb = rb, OF f assms(1) len(2,1)] at(1,2)]) (use len in simp_all)
qed

lemma tx_update_inv:
  assumes "tcp_inv s" "may_send s" "rb_inv tx" "rb_capacity tx = rb_capacity (s_tx_buffer s)"
    "rb_length (s_tx_buffer s) \<le> rb_length tx"
  shows "tcp_inv (s\<lparr>s_tx_buffer := tx\<rparr>)"
proof -
  have "s_state s = Established \<or> s_state s = CloseWait"
    using assms(2) by (cases "s_state s") (simp_all add: may_send_def)
  note st = this and inv = tcp_invD [OF assms(1)]
  show ?thesis
  proof (rule tcp_invI)
    show "buffers_inv (s\<lparr>s_tx_buffer := tx\<rparr>)" using inv(1) assms(3,4) by (simp add: buffers_inv_def)
    show "peer_inv (s\<lparr>s_tx_buffer := tx\<rparr>)" using inv(2) by (simp add: peer_inv_def)
    show "flight_inv (s\<lparr>s_tx_buffer := tx\<rparr>)"
      using inv(3) assms(5) st by (auto simp: flight_inv_def in_flight_def)
    show "handshake_inv (s\<lparr>s_tx_buffer := tx\<rparr>)" using st by (auto simp: handshake_inv_def handshaking_def)
    show "timer_inv (s\<lparr>s_tx_buffer := tx\<rparr>)" using inv(5) by (simp add: timer_inv_def)
  qed
qed

lemma tcp_send_impl_inv:
  assumes "tcp_inv s" "f (s_tx_buffer s) = Some ((n, r), tx)" "rb_inv tx"
    "rb_capacity tx = rb_capacity (s_tx_buffer s)" "rb_length (s_tx_buffer s) \<le> rb_length tx"
  shows "\<exists>res s'. tcp_send_impl f s = Some (res, s') \<and> tcp_inv s'"
proof (cases "may_send s")
  case True
  then have "tcp_inv (s\<lparr>s_tx_buffer := tx\<rparr>)" by (rule tx_update_inv [OF assms(1) _ assms(3-5)])
  with True assms(2) show ?thesis by (simp add: tcp_send_impl_def Let_def)
qed (use assms(1) in \<open>simp add: tcp_send_impl_def\<close>)

lemma tcp_send_inv:
  assumes "tcp_inv s" "well_behaved f"
  shows "\<exists>res s'. tcp_send f s = Some (res, s') \<and> tcp_inv s'"
proof -
  note b = buffers_invD(2) [OF tcp_invD(1) [OF assms(1)]]
  obtain n r tx where tx: "rb_enqueue_many_with f (s_tx_buffer s) = Some ((n, r), tx)" "rb_inv tx"
    "rb_capacity tx = rb_capacity (s_tx_buffer s)" "rb_length tx = rb_length (s_tx_buffer s) + n"
    using enqueue_many_with_inv [OF b assms(2)] .
  show ?thesis unfolding tcp_send_def by (rule tcp_send_impl_inv [where f = "rb_enqueue_many_with f", OF assms(1) tx(1-3)]) (simp add: tx(4))
qed

lemma tcp_send_slice_inv:
  assumes "tcp_inv s"
  shows "\<exists>res s'. tcp_send_slice data s = Some (res, s') \<and> tcp_inv s'"
proof -
  note b = buffers_invD(2) [OF tcp_invD(1) [OF assms]]
  obtain tx where tx: "rb_enqueue_slice data (s_tx_buffer s)
      = Some (min (rb_window (s_tx_buffer s)) (length data), tx)" "rb_inv tx"
    "rb_capacity tx = rb_capacity (s_tx_buffer s)"
    "rb_contents tx = rb_contents (s_tx_buffer s) @ take (rb_window (s_tx_buffer s)) data"
    using rb_enqueue_slice_spec [OF b, of data] by blast
  have "rb_length (s_tx_buffer s) \<le> rb_length tx"
    using arg_cong [OF tx(4), of length] tx(2) b by simp
  then show ?thesis
    unfolding tcp_send_slice_def by (intro tcp_send_impl_inv [OF assms _ tx(2,3)]) (simp_all add: tx(1))
qed

lemma rx_read_inv:
  assumes "tcp_inv s" "may_recv s" "rb_inv rx" "rb_capacity rx = rb_capacity (s_rx_buffer s)"
    "rb_length rx \<le> rb_length (s_rx_buffer s)"
  shows "tcp_inv (s\<lparr>s_rx_buffer := rx, s_remote_seq_no := q\<rparr>)"
proof -
  note inv = tcp_invD [OF assms(1)]
  have st: "\<not> handshaking (s_state s)" "s_state s \<noteq> Listen"
    using assms(2) inv(4) by (auto simp: may_recv_def handshake_inv_def handshaking_def rb_is_empty_def rb_len_def
        split: tcp_state.splits)
  have "rb_window (s_rx_buffer s) \<le> rb_window rx"
    using assms(4,5) by (simp add: rb_window_def rb_len_def)
  note win = this
  let ?s = "s\<lparr>s_rx_buffer := rx, s_remote_seq_no := q\<rparr>"
  show ?thesis
  proof (rule tcp_invI)
    show "buffers_inv ?s"
      using inv(1) assms(3,4) win by (auto simp: buffers_inv_def intro: order_less_le_trans)
    show "peer_inv ?s" using inv(2) by (simp add: peer_inv_def)
    show "flight_inv ?s" using inv(3) by (simp add: flight_inv_def in_flight_def)
    show "handshake_inv ?s" using st by (simp add: handshake_inv_def)
    show "timer_inv ?s" using inv(5) by (simp add: timer_inv_def)
  qed
qed

lemma tcp_recv_impl_inv:
  assumes "tcp_inv s" "f (s_rx_buffer s) = Some ((n, r), rx)" "rb_inv rx"
    "rb_capacity rx = rb_capacity (s_rx_buffer s)" "rb_length rx = rb_length (s_rx_buffer s) - n"
    "n \<le> rb_length (s_rx_buffer s)"
  shows "\<exists>res s'. tcp_recv_impl f s = Some (res, s') \<and> tcp_inv s'"
proof (cases "may_recv s")
  case True
  have "n \<le> i32_max" using buffers_invD(10) [OF tcp_invD(1) [OF assms(1)]] assms(6) by simp
  moreover have "tcp_inv (s\<lparr>s_rx_buffer := rx, s_remote_seq_no := s_remote_seq_no s + of_nat n\<rparr>)"
    by (rule rx_read_inv [OF assms(1) True assms(3,4)]) (use assms(5) in simp)
  ultimately show ?thesis
    using True assms(2) by (simp add: tcp_recv_impl_def recv_error_check_def)
qed (use assms(1) in \<open>simp add: tcp_recv_impl_def recv_error_check_def\<close>)

lemma tcp_recv_inv:
  assumes "tcp_inv s" "well_behaved f"
  shows "\<exists>res s'. tcp_recv f s = Some (res, s') \<and> tcp_inv s'"
proof -
  note b = buffers_invD(1) [OF tcp_invD(1) [OF assms(1)]]
  obtain n r rx where rx: "rb_dequeue_many_with f (s_rx_buffer s) = Some ((n, r), rx)" "rb_inv rx"
    "rb_capacity rx = rb_capacity (s_rx_buffer s)" "rb_length rx = rb_length (s_rx_buffer s) - n"
    "n \<le> rb_length (s_rx_buffer s)"
    using dequeue_many_with_inv [OF b assms(2)] .
  show ?thesis unfolding tcp_recv_def by (rule tcp_recv_impl_inv [where f = "rb_dequeue_many_with f", OF assms(1) rx])
qed

lemma tcp_recv_slice_inv:
  assumes "tcp_inv s"
  shows "\<exists>res s'. tcp_recv_slice data s = Some (res, s') \<and> tcp_inv s'"
proof -
  note b = buffers_invD(1) [OF tcp_invD(1) [OF assms]]
  obtain rx where rx: "rb_dequeue_slice data (s_rx_buffer s)
       = Some (min (rb_length (s_rx_buffer s)) (length data),
           take (length data) (rb_contents (s_rx_buffer s)) @ drop (rb_length (s_rx_buffer s)) data, rx)"
    "rb_inv rx" "rb_capacity rx = rb_capacity (s_rx_buffer s)"
    "rb_contents rx = drop (length data) (rb_contents (s_rx_buffer s))"
    using rb_dequeue_slice_spec [OF b, of data] by blast
  have "rb_length rx = rb_length (s_rx_buffer s) - min (rb_length (s_rx_buffer s)) (length data)"
    using arg_cong [OF rx(4), of length] rx(2) b by simp
  from tcp_recv_impl_inv [OF assms _ rx(2,3) this min.cobounded1] show ?thesis
    unfolding tcp_recv_slice_def by this (simp add: rx(1))
qed

lemma tcp_set_keep_alive_inv:
  assumes "tcp_inv s"
  shows "tcp_inv (tcp_set_keep_alive interval s)"
proof -
  let ?tm = "timer_set_keep_alive (s_timer s)"
  have tm: "timer_is_retransmit ?tm = timer_is_retransmit (s_timer s)"
    "\<And>t. ?tm = Timer_Close t \<Longrightarrow> s_timer s = Timer_Close t"
    by (cases "s_timer s" rule: timer_set_keep_alive.cases; simp)+
  note inv = tcp_invD [OF assms]
  have cong: "ack_to_transmit (s\<lparr>s_keep_alive := interval, s_timer := ?tm\<rparr>) = ack_to_transmit s"
    "window_to_update (s\<lparr>s_keep_alive := interval, s_timer := ?tm\<rparr>) = window_to_update s"
    by (rule ack_window_cong; simp)+
  let ?s = "s\<lparr>s_keep_alive := interval, s_timer := ?tm\<rparr>"
  have "tcp_inv ?s"
  proof (rule tcp_invI)
    show "buffers_inv ?s" using inv(1) by (simp add: buffers_inv_def)
    show "peer_inv ?s" using inv(2) by (simp add: peer_inv_def)
    show "flight_inv ?s" using inv(3) by (simp add: flight_inv_def in_flight_def)
    show "handshake_inv ?s" using inv(4) tm(1) cong by (simp add: handshake_inv_def syn_quiet_def in_flight_def)
    show "timer_inv ?s" using inv(5) tm(2) by (auto simp: timer_inv_def)
  qed
  with assms show ?thesis by (simp add: tcp_set_keep_alive_def Let_def)
qed

section \<open>Histories of a socket\<close>

text \<open>
  A step is a call of the application, the arrival of a segment that the socket accepts, or a call
  of \<open>dispatch\<close> by the interface, whose device may refuse the packet.
\<close>

inductive tcp_step :: "tcp_socket \<Rightarrow> tcp_socket \<Rightarrow> bool" where
  listen: "tcp_step s (snd (tcp_listen local_endpoint s))"
| connect: "tcp_connect get_source_address cx remote_endpoint local_endpoint s = (res, cx', s') \<Longrightarrow> tcp_step s s'"
| close: "tcp_step s (tcp_close s)"
| abort: "tcp_step s (tcp_abort s)"
| send_slice: "tcp_send_slice data s = Some (res, s') \<Longrightarrow> tcp_step s s'"
| send: "well_behaved (f :: u8 list \<Rightarrow> u8 list \<times> nat \<times> unit) \<Longrightarrow> tcp_send f s = Some (sent, s') \<Longrightarrow> tcp_step s s'"
| recv_slice: "tcp_recv_slice data s = Some (got, s') \<Longrightarrow> tcp_step s s'"
| recv: "well_behaved (f :: u8 list \<Rightarrow> u8 list \<times> nat \<times> unit) \<Longrightarrow> tcp_recv f s = Some (recvd, s') \<Longrightarrow> tcp_step s s'"
| set_timeout: "tcp_step s (tcp_set_timeout duration s)"
| set_keep_alive: "tcp_step s (tcp_set_keep_alive interval s)"
| set_ack_delay: "tcp_step s (tcp_set_ack_delay duration s)"
| set_nagle: "tcp_step s (tcp_set_nagle_enabled b s)"
| set_hop_limit: "tcp_set_hop_limit h s = Some s' \<Longrightarrow> tcp_step s s'"
| set_congestion_control: "tcp_step s (tcp_set_congestion_control c s)"
| set_bound_endpoint: "tcp_step s (tcp_set_bound_endpoint e s)"
| process: "tcp_accepts s ip repr \<Longrightarrow> wf_segment repr \<Longrightarrow> tcp_process cx ip repr s = Some (reply, cx', s')
    \<Longrightarrow> tcp_step s s'"
| dispatch: "60 \<le> cx_ip_mtu cx \<Longrightarrow> keeps_mtu (emit :: _ \<Rightarrow> _ \<Rightarrow> (unit + unit) \<times> _)
    \<Longrightarrow> tcp_dispatch emit cx s = Some (r, cx', s') \<Longrightarrow> tcp_step s s'"

inductive tcp_reachable :: "tcp_socket \<Rightarrow> bool" where
  new: "rb_inv rx \<Longrightarrow> rb_inv tx \<Longrightarrow> rb_capacity tx < i32_max \<Longrightarrow> tcp_new reno rx tx = Some s \<Longrightarrow> tcp_reachable s"
| step: "tcp_reachable s \<Longrightarrow> tcp_step s s' \<Longrightarrow> tcp_reachable s'"

lemma tcp_step_inv:
  assumes "tcp_step s s'" "tcp_inv s"
  shows "tcp_inv s'"
  using assms(1)
proof cases
  case (connect get_source_address cx remote_endpoint local_endpoint res cx')
  then show ?thesis using tcp_connect_inv assms(2) by blast
next
  case (send_slice data res)
  then show ?thesis using tcp_send_slice_inv [OF assms(2), of data] by auto
next
  case (send f sent)
  then show ?thesis using tcp_send_inv [OF assms(2), of f] by auto
next
  case (recv_slice data got)
  then show ?thesis using tcp_recv_slice_inv [OF assms(2), of data] by auto
next
  case (recv f recvd)
  then show ?thesis using tcp_recv_inv [OF assms(2), of f] by auto
next
  case (set_hop_limit h)
  then show ?thesis using assms(2) by (auto simp: tcp_set_hop_limit_def split: if_splits)
next
  case (set_congestion_control c)
  then show ?thesis using assms(2) by (cases c) simp_all
next
  case (process ip repr cx reply cx')
  then show ?thesis using tcp_process_inv [OF assms(2) process(1,2), of cx] by (metis option.inject prod.inject)
next
  case (dispatch cx emit r cx')
  then show ?thesis using tcp_dispatch_inv [OF assms(2) dispatch(1,2)] by auto
qed (use assms(2) in \<open>auto simp: tcp_listen_inv tcp_close_inv tcp_abort_inv tcp_set_keep_alive_inv
    tcp_set_timeout_def tcp_set_ack_delay_def tcp_set_nagle_enabled_def tcp_set_bound_endpoint_def\<close>)

lemma tcp_reachable_inv: "tcp_reachable s \<Longrightarrow> tcp_inv s"
  by (induction rule: tcp_reachable.induct) (auto intro: tcp_new_inv tcp_step_inv)

lemma tcp_poll_at_total:
  assumes "tcp_inv s" "60 \<le> cx_ip_mtu cx"
  shows "\<exists>p. tcp_poll_at cx s = Some p"
proof (cases "s_tuple s")
  case (Some t)
  obtain b b' where "seq_to_transmit cx s = Some b" "ack_to_transmit s = Some b'"
    using seq_to_transmit_total [OF tcp_invD(1) [OF assms(1)] Some assms(2)]
      ack_to_transmit_total [OF tcp_invD(1) [OF assms(1)]] by blast
  then show ?thesis by (auto simp: tcp_poll_at_def)
qed (simp add: tcp_poll_at_def)

text \<open>C3. The socket's invariant holds in every history: whatever sequence of calls, of accepted segments
  and of dispatches a new socket goes through, the ring buffers and the assembler stay well formed
  with all out-of-order data inside of the receive window, the sequence numbers in flight are at most
  the octets in the transmit buffer and one control flag, a connected socket has a peer of its own
  IP version, no data is buffered before the handshake is over, and while a SYN is in flight nothing
  but the retransmission timer makes the socket transmit.\<close>

theorem tcp_socket_invariant:
  assumes "tcp_reachable s"
  shows "buffers_inv s \<and> peer_inv s \<and> flight_inv s \<and> handshake_inv s \<and> timer_inv s"
  using tcp_reachable_inv [OF assms] by (simp add: tcp_inv_def)


end
