(* ===== verification/Tcp_Properties.thy ===== *)
theory Tcp_Properties
  imports Tcp_Reachable
begin

text \<open>
  What the TCP socket does, on top of the invariant: when it is to be polled, what it transmits,
  what it delivers, and how its state moves.
\<close>

section \<open>An example\<close>

text \<open>A connection on a small socket, with four octets to send, used by the witnesses.\<close>

definition example_buffer :: socket_buffer where
  "example_buffer = rb_new [0, 0, 0, 0, 0, 0, 0, 0]"

definition example_tuple :: tcp_tuple where
  "example_tuple = \<lparr>t_local = \<lparr>ep_addr = Ipv4 [10, 0, 0, 1], ep_port = 80\<rparr>,
                    t_remote = \<lparr>ep_addr = Ipv4 [10, 0, 0, 2], ep_port = 5000\<rparr>\<rparr>"

definition example_socket :: tcp_socket where
  "example_socket = (the (tcp_new False example_buffer example_buffer))
     \<lparr>s_state := Established, s_tuple := Some example_tuple, s_local_seq_no := 1000, s_remote_last_seq := 1000,
      s_remote_seq_no := 500, s_remote_last_ack := Some 500, s_remote_win_len := 1000,
      s_remote_last_ts := Some 0, s_tx_buffer := example_buffer\<lparr>rb_storage := [1, 2, 3, 4, 0, 0, 0, 0], rb_length := 4\<rparr>\<rparr>"

definition example_context :: tcp_context where
  "example_context = \<lparr>cx_now = 5, cx_ip_mtu = 1500, cx_rand = rand_new 1\<rparr>"

definition example_ip :: ip_repr where
  "example_ip = Ipv4_Repr \<lparr>v4_src_addr = [10, 0, 0, 2], v4_dst_addr = [10, 0, 0, 1], v4_next_header = Tcp,
     v4_payload_len = 20, v4_hop_limit = 64\<rparr>"

definition example_segment :: "tcp_control \<Rightarrow> seq_number \<Rightarrow> u8 list \<Rightarrow> tcp_repr" where
  "example_segment control seq payload = \<lparr>r_src_port = 5000, r_dst_port = 80, r_control = control,
     r_seq_number = seq, r_ack_number = Some 1000, r_window_len = 1000, r_window_scale = None,
     r_max_seg_size = None, r_sack_permitted = False, r_sack_ranges = (None, None, None), r_payload = payload\<rparr>"

lemma example_inv: "tcp_inv example_socket"
  by (simp add: example_socket_def tcp_new_def example_buffer_def rb_new_def rb_capacity_def tcp_inv_def
      buffers_inv_def rb_inv_def peer_inv_def flight_inv_def handshake_inv_def timer_inv_def handshaking_def
      timer_new_def example_tuple_def DEFAULT_MSS_def ASSEMBLER_MAX_SEGMENT_COUNT_def i32_max_def in_flight_def
      Let_def del: length_rb_storage)

lemma example_accepts: "tcp_accepts example_socket example_ip (example_segment c q p)"
  by (simp add: tcp_accepts_def example_socket_def example_ip_def example_segment_def example_tuple_def)

lemma example_wf: "length p \<le> 65535 \<Longrightarrow> wf_segment (example_segment c q p)"
  by (simp add: wf_segment_def example_segment_def)

lemma example_reachable: "tcp_reachable (the (tcp_new False example_buffer example_buffer))"
  by (rule tcp_reachable.new [of example_buffer example_buffer False])
    (simp_all add: example_buffer_def rb_new_def rb_inv_def rb_capacity_def i32_max_def tcp_new_def
      del: length_rb_storage)

theorem tcp_socket_invariant_witness:
  "let s = the (tcp_new False example_buffer example_buffer)
   in buffers_inv s \<and> peer_inv s \<and> flight_inv s \<and> handshake_inv s \<and> timer_inv s"
  unfolding Let_def by (rule tcp_socket_invariant [OF example_reachable])

definition example_listener :: tcp_socket where
  "example_listener = snd (tcp_listen \<lparr>lep_addr = None, lep_port = 80\<rparr> (the (tcp_new False example_buffer example_buffer)))"

lemma example_listener_fields:
  "s_state example_listener = Listen" "s_tuple example_listener = None"
  "s_listen_endpoint example_listener = \<lparr>lep_addr = None, lep_port = 80\<rparr>"
  by (simp_all add: example_listener_def example_buffer_def tcp_new_def tcp_set_state_def
      rb_new_def rb_capacity_def tcp_listen_def is_open_def Let_def del: length_rb_storage)

lemma example_listener_accepts:
  "tcp_accepts example_listener example_ip ((example_segment Ctl_Syn 500 [])\<lparr>r_ack_number := None\<rparr>)"
  by (simp add: example_listener_fields tcp_accepts_def example_ip_def example_segment_def)


section \<open>Polling\<close>

lemma delayed_ack_due:
  "due (delayed_ack_poll_at w (s_ack_delay_timer s)) now \<longleftrightarrow> w \<and> delayed_ack_expired s now"
  by (cases "s_ack_delay_timer s") (auto simp: delayed_ack_poll_at_def delayed_ack_expired_def)

lemma timeout_due: "due (timeout_poll_at s) now \<longleftrightarrow> timed_out s now"
  by (auto simp: timeout_poll_at_def timed_out_def split: option.splits)

lemma prepare_idle_iff:
  assumes inv: "tcp_inv s" and t: "s_tuple s = Some t" and mtu: "60 \<le> cx_ip_mtu cx"
  shows "dispatch_prepare cx s = Some (s, None) \<longleftrightarrow>
     dispatch_timers cx s = Some s \<and> dispatch_decide cx s = Some Quiet"
proof (rule dispatch_prepare_cases [OF inv mtu])
  fix t' s1 assume "dispatch_timers cx s = Some s1" "dispatch_decide cx s1 = Some Quiet"
    "dispatch_prepare cx s = Some (s1, None)"
  then show ?thesis by auto
next
  fix t' s1 assume "dispatch_timers cx s = Some s1" "dispatch_decide cx s1 = Some Reset_Socket"
    "dispatch_prepare cx s = Some (tcp_reset s1, None)"
  moreover have "tcp_reset s1 \<noteq> s" using t reset_fields(5) [of s1] by auto
  ultimately show ?thesis by auto
qed (use t in auto)

lemma decide_closed:
  assumes "tcp_inv s" "s_tuple s = Some t" "60 \<le> cx_ip_mtu cx" "s_state s = Closed"
  shows "dispatch_decide cx s = Some Send"
proof -
  obtain tr ack where "seq_to_transmit cx s = Some tr" "ack_to_transmit s = Some ack"
    using seq_to_transmit_total [OF tcp_invD(1) [OF assms(1)] assms(2,3)]
      ack_to_transmit_total [OF tcp_invD(1) [OF assms(1)]] by blast
  then show ?thesis using assms(4) by (simp add: dispatch_decide_def)
qed

lemma dispatch_timers_idle_iff:
  assumes inv: "tcp_inv s" and t: "s_tuple s = Some t" and mtu: "60 \<le> cx_ip_mtu cx"
    and tr: "seq_to_transmit cx s = Some tr" and st: "s_state s \<noteq> Closed"
  shows "dispatch_timers cx s = Some s \<longleftrightarrow> s_remote_last_ts s \<noteq> None \<and> \<not> timed_out s (cx_now cx)
     \<and> (tr \<or> timer_should_retransmit (s_timer s) (cx_now cx) = None)"
proof -
  have st1: "stamped cx s = s \<longleftrightarrow> s_remote_last_ts s \<noteq> None"
    by (cases s) (auto simp: stamped_def)
  have "s_timer (retransmit_result cx (stamped cx s)) \<noteq> s_timer s"
    if "timer_should_retransmit (s_timer s) (cx_now cx) = Some d" for d
    using that by (cases "s_timer s") (auto simp: retransmit_result_def timer_set_for_idle_def)
  then have re: "retransmit_result cx (stamped cx s) \<noteq> s"
    if "timer_should_retransmit (s_timer s) (cx_now cx) = Some d" for d using that by metis
  have cl: "tcp_set_state Closed (stamped cx s) \<noteq> s"
    using st by (metis set_simps(5))
  show ?thesis
    by (rule dispatch_timers_cases [OF inv t mtu])
      (use st1 re cl tr in \<open>auto simp: stamped_def split: if_splits\<close>)
qed

text \<open>C10. \<open>poll_at\<close> and \<open>dispatch\<close> agree: at every instant the poll time of a socket is due exactly when
  \<open>dispatch\<close> has something to do, that is, when it would emit a packet or change the socket. So a
  caller that sleeps until the poll time misses nothing, and a caller that polls when the time is due
  never spins without progress.\<close>

theorem poll_at_agrees_with_dispatch:
  assumes inv: "tcp_inv s" and mtu: "60 \<le> cx_ip_mtu cx"
  shows "\<exists>p. tcp_poll_at cx s = Some p \<and> (due p (cx_now cx) \<longleftrightarrow> dispatch_prepare cx s \<noteq> Some (s, None))"
proof (cases "s_tuple s")
  case None
  then show ?thesis by (simp add: tcp_poll_at_def dispatch_prepare_def)
next
  case (Some t)
  note b = tcp_invD(1) [OF inv]
  obtain tr ack where tr: "seq_to_transmit cx s = Some tr" and ack: "ack_to_transmit s = Some ack"
    using seq_to_transmit_total [OF b Some mtu] ack_to_transmit_total [OF b] by blast
  show ?thesis
  proof (cases "s_remote_last_ts s = None \<or> s_state s = Closed \<or> tr")
    case True
    then have now: "tcp_poll_at cx s = Some PollNow"
      using Some tr by (auto simp: tcp_poll_at_def)
    have "\<not> (dispatch_timers cx s = Some s \<and> dispatch_decide cx s = Some Quiet)"
    proof (cases "s_state s = Closed")
      case True
      then show ?thesis using decide_closed [OF inv Some mtu] by simp
    next
      case False
      then show ?thesis
        using \<open>s_remote_last_ts s = None \<or> s_state s = Closed \<or> tr\<close> tr
        by (auto simp: dispatch_timers_idle_iff [OF inv Some mtu tr] dispatch_decide_def)
    qed
    then show ?thesis using now prepare_idle_iff [OF inv Some mtu] by auto
  next
    case False
    let ?p = "min (timer_poll_at (s_timer s))
        (min (timeout_poll_at s) (delayed_ack_poll_at (ack \<or> window_to_update s) (s_ack_delay_timer s)))"
    have p: "tcp_poll_at cx s = Some ?p"
      using False Some tr ack by (auto simp: tcp_poll_at_def)
    have "due ?p (cx_now cx) \<longleftrightarrow> \<not> (dispatch_timers cx s = Some s \<and> dispatch_decide cx s = Some Quiet)"
      using False tr ack
      by (auto simp: due_min timer_poll_at_due timeout_due delayed_ack_due
          dispatch_timers_idle_iff [OF inv Some mtu tr] dispatch_decide_def)
    then show ?thesis using p prepare_idle_iff [OF inv Some mtu] by auto
  qed
qed

theorem poll_at_agrees_with_dispatch_witness:
  "\<exists>p. tcp_poll_at example_context example_socket = Some p
     \<and> (due p (cx_now example_context) \<longleftrightarrow> dispatch_prepare example_context example_socket \<noteq> Some (example_socket, None))"
  by (rule poll_at_agrees_with_dispatch [OF example_inv]) (simp add: example_context_def)

section \<open>What is transmitted\<close>

lemma data_payload_eq:
  assumes "buffers_inv s"
  shows "data_payload cx t s = take (length (data_payload cx t s)) (drop (in_flight s) (rb_contents (s_tx_buffer s)))"
proof -
  obtain k where k: "data_payload cx t s = take k (drop (in_flight s) (rb_contents (s_tx_buffer s)))"
    using buffers_invD(2) [OF assms] by (simp add: data_payload_def rb_get_allocated_eq)
  then show ?thesis by (metis length_take min.absorb_iff2 min_def nat_le_linear take_all)
qed

lemma dispatch_timers_tx:
  assumes "tcp_inv s" "s_tuple s = Some t" "60 \<le> cx_ip_mtu cx" "dispatch_timers cx s = Some s1"
  shows "s_tx_buffer s1 = s_tx_buffer s" "s_local_seq_no s1 = s_local_seq_no s" "s_remote_win_len s1 = s_remote_win_len s"
    "s_remote_mss s1 = s_remote_mss s"
  by (rule dispatch_timers_cases [OF assms(1-3)];
      use assms(4) in \<open>auto simp: tcp_set_state_def stamped_def retransmit_result_def\<close>)+

lemma transmitted_stream:
  assumes inv: "tcp_inv s" and mtu: "60 \<le> cx_ip_mtu cx"
    and prep: "dispatch_prepare cx s = Some (s', Some (ip, repr, False))"
  shows "\<exists>d. r_seq_number repr = s_local_seq_no s + of_nat d
     \<and> r_payload repr = take (length (r_payload repr)) (drop d (rb_contents (s_tx_buffer s)))
     \<and> (r_payload repr \<noteq> [] \<longrightarrow> d + length (r_payload repr) \<le> min (s_remote_win_len s) (rb_length (s_tx_buffer s)))
     \<and> length (r_payload repr) \<le> s_remote_mss s
     \<and> (r_control repr = Ctl_Fin \<longrightarrow> want_fin (s_state s') \<and> d + length (r_payload repr) = rb_length (s_tx_buffer s))"
proof (rule dispatch_prepare_cases [OF inv mtu])
  fix t s1 ip'
  assume a: "s_tuple s = Some t" "dispatch_timers cx s = Some s1" "tcp_inv s1" "s_tuple s1 = Some t"
    "dispatch_prepare cx s = Some (s1, Some (ip', segment_of cx t s1, False))"
  then have eq: "s' = s1" "repr = segment_of cx t s1" using prep by simp_all
  note tx = dispatch_timers_tx [OF inv a(1) mtu a(2)]
  note b = tcp_invD(1) [OF a(3)]
  note len = data_payload_len [OF b, of cx t]
  let ?P = "r_payload (segment_of cx t s1)"
  have P: "?P = data_payload cx t s1 \<or> ?P = []" by (simp add: segment_of_def)
  have seq: "r_seq_number (segment_of cx t s1) = s_local_seq_no s + of_nat (in_flight s1)"
    using remote_last_seq_eq [of s1] tx(2) by (simp add: segment_of_def)
  have stream: "?P = take (length ?P) (drop (in_flight s1) (rb_contents (s_tx_buffer s)))"
    using P data_payload_eq [OF b, of cx t] tx(1) by auto
  have win: "in_flight s1 + length ?P \<le> min (s_remote_win_len s) (rb_length (s_tx_buffer s))" if "?P \<noteq> []"
  proof -
    have P: "?P = data_payload cx t s1" "0 < length (data_payload cx t s1)" using P that by auto
    show ?thesis unfolding P(1) using P(2) len(1,2) unfolding tx by linarith
  qed
  have mss: "length ?P \<le> s_remote_mss s" using P len(3) tx(4) by auto
  have fin: "want_fin (s_state s1) \<and> in_flight s1 + length ?P = rb_length (s_tx_buffer s)"
    if "r_control (segment_of cx t s1) = Ctl_Fin"
    using that tx(1) by (auto simp: segment_of_def data_control_def split: if_splits)
  show ?thesis
    unfolding eq by (rule exI [of _ "in_flight s1"]) (use seq stream win mss fin in blast)
qed (use prep in auto)

lemmas example_defs = example_socket_def example_context_def example_tuple_def example_buffer_def tcp_new_def rb_new_def

lemma example_dispatch: "dispatch_prepare example_context example_socket = Some (example_socket, Some (
     Ipv4_Repr \<lparr>v4_src_addr = [10, 0, 0, 1], v4_dst_addr = [10, 0, 0, 2], v4_next_header = Tcp,
       v4_payload_len = 24, v4_hop_limit = 64\<rparr>,
     \<lparr>r_src_port = 80, r_dst_port = 5000, r_control = Ctl_Psh, r_seq_number = 1000, r_ack_number = Some 500,
      r_window_len = 8, r_window_scale = None, r_max_seg_size = None, r_sack_permitted = False,
      r_sack_ranges = (None, None, None), r_payload = [1, 2, 3, 4]\<rparr>, False))"
  by (simp add: example_defs dispatch_prepare_def dispatch_timers_def cc_pre_transmit_def timed_out_def
      seq_to_transmit_def local_mss_eq TCP_HEADER_LEN_def IPV4_HEADER_LEN_def seq_ge_def seq_diff_def seq_add_def i32_max_def
      any_controller_new_def usize_max_def want_fin_def rb_len_def rb_capacity_def Let_def dispatch_decide_def
      dispatch_packet_def dispatch_base_repr_def dispatch_state_repr_def dispatch_data_repr_def
      dispatch_keep_alive_def dispatch_mss_option_def ipv4_buffer_len_def DEFAULT_MSS_def timer_new_def
      rb_get_allocated_def rb_get_idx_def sub_slice_def repr_is_empty_def repr_buffer_len_def repr_header_len_def
      sack_range_len_def scaled_window_def window_shift_def rb_window_def bit_length.simps
      del: length_rb_storage)

lemma example_mtu: "60 \<le> cx_ip_mtu example_context" "72 \<le> cx_ip_mtu example_context"
  by (simp_all add: example_context_def)

text \<open>C2. The octets of a segment are those of the stream: a packet that \<open>dispatch\<close> hands to the device and that
  is no keep-alive probe starts at some distance \<open>d\<close> from the first unacknowledged sequence number
  (nothing is skipped or sent twice at a wrong place), its payload is what the transmit buffer holds
  from position \<open>d\<close> on, all of it inside of the window the peer announced and no longer than the
  segment size it announced; and a FIN is sent only after the last octet the application wrote, in
  a state in which it has closed its side.\<close>

theorem transmitted_data_is_the_stream:
  assumes inv: "tcp_inv s" and mtu: "60 \<le> cx_ip_mtu cx"
    and prep: "dispatch_prepare cx s = Some (s', Some (ip, repr, False))"
  shows "\<exists>d. r_seq_number repr = s_local_seq_no s + of_nat d
     \<and> r_payload repr = take (length (r_payload repr)) (drop d (rb_contents (s_tx_buffer s)))
     \<and> (r_payload repr \<noteq> [] \<longrightarrow> d + length (r_payload repr) \<le> min (s_remote_win_len s) (rb_length (s_tx_buffer s)))
     \<and> length (r_payload repr) \<le> s_remote_mss s
     \<and> (r_control repr = Ctl_Fin \<longrightarrow> want_fin (s_state s') \<and> d + length (r_payload repr) = rb_length (s_tx_buffer s))"
  using assms by (rule transmitted_stream)

theorem transmitted_data_is_the_stream_witness:
  "\<exists>s' ip repr. dispatch_prepare example_context example_socket = Some (s', Some (ip, repr, False))
     \<and> r_payload repr = [1, 2, 3, 4]
     \<and> (\<exists>d. r_seq_number repr = s_local_seq_no example_socket + of_nat d
         \<and> r_payload repr = take (length (r_payload repr)) (drop d (rb_contents (s_tx_buffer example_socket)))
         \<and> (r_payload repr \<noteq> [] \<longrightarrow>
              d + length (r_payload repr) \<le> min (s_remote_win_len example_socket) (rb_length (s_tx_buffer example_socket)))
         \<and> length (r_payload repr) \<le> s_remote_mss example_socket
         \<and> (r_control repr = Ctl_Fin \<longrightarrow>
              want_fin (s_state s') \<and> d + length (r_payload repr) = rb_length (s_tx_buffer example_socket)))"
  by (rule exI, rule exI, rule exI, rule conjI, rule example_dispatch, rule conjI, simp,
      rule transmitted_data_is_the_stream [OF example_inv example_mtu(1) example_dispatch])

lemma emitted_fits:
  assumes inv: "tcp_inv s" and mtu: "72 \<le> cx_ip_mtu cx"
    and prep: "dispatch_prepare cx s = Some (s', Some (ip, repr, keep_alive))"
  shows "ip_payload_len ip = repr_buffer_len repr \<and> ip_buffer_len ip \<le> cx_ip_mtu cx"
proof -
  have mtu': "60 \<le> cx_ip_mtu cx" using mtu by simp
  show ?thesis
  proof (rule dispatch_prepare_cases [OF inv mtu'])
    fix t s1 ip'
    assume a: "tcp_inv s1" "dispatch_prepare cx s = Some (s1, Some (ip', segment_of cx t s1, False))"
      "ip_header_len ip' = addr_header_len (ep_addr (t_local t))"
      "ip_payload_len ip' = repr_buffer_len (segment_of cx t s1)"
    then have eq: "ip = ip'" "repr = segment_of cx t s1" using prep by simp_all
    note h = addr_header_len_le [of "ep_addr (t_local t)"]
    have "repr_options_len (segment_of cx t s1) \<le> (if handshaking (s_state s1) then 9 else 0)"
      by (auto simp: repr_options_len_def segment_of_def sack_range_len_def handshaking_def)
    then have o: "repr_header_len (segment_of cx t s1) \<le> (if handshaking (s_state s1) then 32 else 20)"
      unfolding repr_header_len_eq Let_def by (auto split: if_splits)
    have p: "length (r_payload (segment_of cx t s1)) \<le> (if handshaking (s_state s1) then 0 else mss_of cx t)"
      using data_payload_len(4) [OF tcp_invD(1) [OF a(1)], of cx t]
      by (auto simp: segment_of_def handshaking_def data_state_def want_fin_def)
    have "repr_buffer_len (segment_of cx t s1) + addr_header_len (ep_addr (t_local t)) \<le> cx_ip_mtu cx"
      using o p mtu h by (cases "handshaking (s_state s1)") (simp_all add: repr_buffer_len_def mss_of_def)
    then show ?thesis unfolding eq using a(3,4) by (simp add: ip_buffer_len_def)
  next
    fix t s1 ip'
    assume a: "dispatch_prepare cx s = Some (s1, Some (ip', (segment_of cx t s1)
          \<lparr>r_seq_number := s_remote_last_seq s1 - 1, r_payload := [0]\<rparr>, True))"
      "ip_header_len ip' = addr_header_len (ep_addr (t_local t))" "ip_payload_len ip' = 21"
      "repr_is_empty (segment_of cx t s1)"
    then have eq: "ip = ip'" "repr = (segment_of cx t s1)\<lparr>r_seq_number := s_remote_last_seq s1 - 1, r_payload := [0]\<rparr>"
      using prep by simp_all
    have "r_control (segment_of cx t s1) \<noteq> Ctl_Syn" using a(4) by (auto simp: repr_is_empty_def split: if_splits)
    then have "\<not> handshaking (s_state s1)" by (auto simp: segment_of_def data_control_def handshaking_def split: if_splits)
    then have "repr_options_len repr = 0"
      unfolding eq by (auto simp: repr_options_len_def segment_of_def sack_range_len_def handshaking_def)
    then have "repr_buffer_len repr = 21"
      by (simp add: repr_buffer_len_def repr_header_len_eq eq)
    then show ?thesis
      unfolding eq using a(2,3) mtu addr_header_len_le [of "ep_addr (t_local t)"] by (simp add: ip_buffer_len_def)
  qed (use prep in auto)
qed

text \<open>C15. No packet is larger than the MTU: what \<open>dispatch\<close> hands to the device, be it a SYN with its options, data, a
  bare ACK, a RST or a keep-alive probe, fits into the IP MTU together with its IP header, which
  announces the length that the segment has.\<close>

theorem emitted_packet_fits_mtu:
  assumes inv: "tcp_inv s" and mtu: "72 \<le> cx_ip_mtu cx"
    and prep: "dispatch_prepare cx s = Some (s', Some (ip, repr, keep_alive))"
  shows "ip_payload_len ip = repr_buffer_len repr \<and> ip_buffer_len ip \<le> cx_ip_mtu cx"
  using assms by (rule emitted_fits)

theorem emitted_packet_fits_mtu_witness:
  "\<exists>s' ip repr k. dispatch_prepare example_context example_socket = Some (s', Some (ip, repr, k))
     \<and> ip_payload_len ip = repr_buffer_len repr \<and> ip_buffer_len ip \<le> cx_ip_mtu example_context"
  using emitted_packet_fits_mtu [OF example_inv example_mtu(2) example_dispatch] example_dispatch by blast

section \<open>What is delivered\<close>

text \<open>
  \<open>carries stream n ws repr\<close>: where the octets of the segment lie at or after position 0 of the stream, they are
  the stream's octets, when sequence number \<open>ws\<close> is position \<open>n\<close> of the stream.
\<close>

definition stream_position :: "nat \<Rightarrow> seq_number \<Rightarrow> seq_number \<Rightarrow> int" where
  "stream_position n ws q = int n + sint (q - ws)"

definition carries :: "(nat \<Rightarrow> u8) \<Rightarrow> nat \<Rightarrow> seq_number \<Rightarrow> tcp_repr \<Rightarrow> bool" where
  "carries stream n ws repr \<longleftrightarrow> (\<forall>j<length (r_payload repr).
     let p = stream_position n ws (r_seq_number repr + of_nat j)
     in p \<ge> 0 \<longrightarrow> r_payload repr ! j = stream (nat p))"

lemma overlap_carries:
  assumes "overlap repr s payload off" "carries stream n (window_start s) repr" "buffers_inv s" "j < length payload"
  shows "payload ! j = stream (n + (off + j))"
proof -
  obtain first where f: "first + length payload \<le> length (r_payload repr)"
    "payload = take (length payload) (drop first (r_payload repr))"
    "window_start s + of_nat off = r_seq_number repr + of_nat first"
    and off: "off + length payload \<le> rb_window (s_rx_buffer s)"
    using assms(1,4) by (auto simp: overlap_def)
  have "rb_window (s_rx_buffer s) \<le> i32_max"
    using buffers_invD(9) [OF assms(3)] by (simp add: rb_window_def)
  then have small: "off + j \<le> i32_max" using off assms(4) by simp
  have e1: "r_seq_number repr + of_nat (first + j) - window_start s = (window_start s + of_nat (off + j)) - (window_start s + of_nat 0)"
    using f(3) by (simp add: algebra_simps)
  have e2: "sint ((window_start s + of_nat (off + j)) - (window_start s + of_nat 0)) = int (off + j) - int 0"
    by (rule seq_offset_sint) (use small in \<open>simp add: i32_max_def\<close>)
  have "stream_position n (window_start s) (r_seq_number repr + of_nat (first + j)) = int (n + (off + j))"
    unfolding stream_position_def e1 e2 by simp
  moreover have "first + j < length (r_payload repr)" using f(1) assms(4) by simp
  ultimately have "r_payload repr ! (first + j) = stream (n + (off + j))"
    using assms(2) unfolding carries_def Let_def by (metis nat_int of_nat_0_le_iff)
  moreover have "payload ! j = r_payload repr ! (first + j)"
    using f(1,2) assms(4) by (metis nth_drop nth_take le_add1 order_trans)
  ultimately show ?thesis by simp
qed

lemma process_payload_stream:
  assumes inv: "tcp_inv s" and off: "off + length payload \<le> rb_window (s_rx_buffer s)"
    and data: "\<forall>j<length payload. payload ! j = stream (off + j)"
    and coh: "rx_coherent stream (s_assembler s) (s_rx_buffer s)"
    and res: "process_payload cx ip repr payload off s = Some (reply, s')"
  shows "\<exists>m. rb_contents (s_rx_buffer s') = rb_contents (s_rx_buffer s) @ map stream [0..<m]
     \<and> rx_coherent (\<lambda>i. stream (m + i)) (s_assembler s') (s_rx_buffer s')
     \<and> s_remote_seq_no s' = s_remote_seq_no s \<and> (off = 0 \<longrightarrow> length payload \<le> m)"
proof (cases "payload = []")
  case True
  then show ?thesis using res coh by (intro exI [of _ 0]) (simp add: process_payload_def)
next
  case ne: False
  from coh off data show ?thesis
  proof (rule tcp_reassemble_cases)
    fix e assume "tcp_reassemble off payload (s_assembler s) (s_rx_buffer s) = Some (Inl e, s_assembler s, s_rx_buffer s)"
      "0 < off"
    then show ?thesis using res ne coh by (intro exI [of _ 0]) (auto simp: process_payload_def Let_def)
  next
    fix m a' rb'
    assume r: "tcp_reassemble off payload (s_assembler s) (s_rx_buffer s) = Some (Inr m, a', rb')"
      "rx_coherent (\<lambda>i. stream (m + i)) a' rb'" "rb_contents rb' = rb_contents (s_rx_buffer s) @ map stream [0..<m]"
      "rb_capacity rb' = rb_capacity (s_rx_buffer s)"
      "front_run (asm_present (s_assembler s) \<union> {off ..< off + length payload}) m"
    have all: "length payload \<le> m" if "off = 0" using r(5) that by (auto simp: front_run_def)
    let ?s = "s\<lparr>s_assembler := a', s_rx_buffer := rb'\<rparr>"
    have b: "buffers_inv ?s"
      using r(2,4) tcp_invD(1) [OF inv] by (auto simp: buffers_inv_def rx_coherent_def)
    obtain d where d: "process_delayed_ack cx ?s = Some (?s\<lparr>s_ack_delay_timer := d\<rparr>)"
      using process_delayed_ack_spec [OF b] .
    let ?s2 = "?s\<lparr>s_ack_delay_timer := d\<rparr>"
    have "buffers_inv ?s2" using b by (simp add: buffers_inv_def)
    from tcp_ack_reply_spec [OF this, of ip repr]
    have "s' = ?s2 \<or> s' = ack_sent ?s2"
      using res ne r(1) d by (auto simp: process_payload_def Let_def split: if_splits)
    then show ?thesis using r(2,3) all by (intro exI [of _ m]) (auto simp: ack_sent_def)
  qed
qed

lemma received_stream:
  assumes inv: "tcp_inv s" and acc: "tcp_accepts s ip repr" and wf: "wf_segment repr"
    and coh: "rx_coherent (\<lambda>i. stream (n + i)) (s_assembler s) (s_rx_buffer s)"
    and seg: "carries stream n (window_start s) repr"
  shows "\<exists>reply cx' s' m. tcp_process cx ip repr s = Some (reply, cx', s')
     \<and> rb_contents (s_rx_buffer s') = rb_contents (s_rx_buffer s) @ map (\<lambda>i. stream (n + i)) [0..<m]
     \<and> rx_coherent (\<lambda>i. stream (n + m + i)) (s_assembler s') (s_rx_buffer s')"
proof (rule tcp_process_cases [OF inv acc wf, of cx])
  fix reply assume "tcp_process cx ip repr s = Some (reply, cx, s)"
  then show ?thesis using coh by (intro exI [of _ reply] exI [of _ cx] exI [of _ s] exI [of _ 0]) simp
next
  fix reply s0 assume a: "tcp_process cx ip repr s = Some (reply, cx, challenge_result cx s0)"
    "s0 = s \<or> s0 = time_wait_restart cx s"
  have "s_rx_buffer (challenge_result cx s0) = s_rx_buffer s" "s_assembler (challenge_result cx s0) = s_assembler s"
    using a(2) by (auto simp: challenge_result_def ack_sent_def time_wait_restart_def)
  with a(1) show ?thesis
    using coh by (intro exI [of _ reply] exI [of _ cx] exI [of _ "challenge_result cx s0"] exI [of _ 0]) simp
next
  fix s' assume "tcp_process cx ip repr s = Some (None, cx, s')" "s_rx_buffer s' = s_rx_buffer s" "s_assembler s' = s_assembler s"
  then show ?thesis using coh by (intro exI [of _ None] exI [of _ cx] exI [of _ s'] exI [of _ 0]) simp
next
  fix e c assume "tcp_process cx ip repr s = Some (None, cx, (noted repr s)\<lparr>s_rtte := e, s_congestion_controller := c\<rparr>)"
  then show ?thesis using coh
    by (intro exI [of _ None] exI [of _ cx] exI [of _ "(noted repr s)\<lparr>s_rtte := e, s_congestion_controller := c\<rparr>"]
        exI [of _ 0]) simp
next
  fix cx' payload off s3 reply s'
  assume a: "tcp_process cx ip repr s = Some (reply, cx', s')" "overlap repr s payload off" "tcp_inv s3"
    "s_rx_buffer s3 = s_rx_buffer s" "s_assembler s3 = s_assembler s"
    "process_payload cx' ip repr payload off s3 = Some (reply, s')"
  have d: "\<forall>j<length payload. payload ! j = stream (n + (off + j))"
    using overlap_carries [OF a(2) seg tcp_invD(1) [OF inv]] by blast
  obtain m where "rb_contents (s_rx_buffer s') = rb_contents (s_rx_buffer s3) @ map (\<lambda>i. stream (n + i)) [0..<m]"
    "rx_coherent (\<lambda>i. stream (n + (m + i))) (s_assembler s') (s_rx_buffer s')"
    using process_payload_stream [OF a(3) _ d _ a(6)] overlap_bound [OF a(2)] coh a(4,5) by auto
  then show ?thesis
    using a(1,4) by (intro exI [of _ reply] exI [of _ cx'] exI [of _ s'] exI [of _ m]) (simp add: add.assoc)
qed

text \<open>C1. The receive path delivers the peer's stream: if the receive buffer and the octets held by the assembler
  agree with a stream whose position \<open>n\<close> is the start of the receive window, then any accepted segment
  that carries octets of that stream, in order or not, overlapping, repeated, or reaching outside of
  the window, appends exactly the next octets of the stream to the receive buffer (\<open>m\<close> of them,
  possibly none), and the agreement holds again at the position reached.\<close>

theorem received_data_is_the_stream:
  assumes inv: "tcp_inv s" and acc: "tcp_accepts s ip repr" and wf: "wf_segment repr"
    and coh: "rx_coherent (\<lambda>i. stream (n + i)) (s_assembler s) (s_rx_buffer s)"
    and seg: "carries stream n (window_start s) repr"
  shows "\<exists>reply cx' s' m. tcp_process cx ip repr s = Some (reply, cx', s')
     \<and> rb_contents (s_rx_buffer s') = rb_contents (s_rx_buffer s) @ map (\<lambda>i. stream (n + i)) [0..<m]
     \<and> rx_coherent (\<lambda>i. stream (n + m + i)) (s_assembler s') (s_rx_buffer s')"
  using assms by (rule received_stream)

theorem received_data_is_the_stream_witness:
  "\<exists>reply cx' s' m. tcp_process example_context example_ip (example_segment Ctl_None 498 [7, 8, 9, 10]) example_socket
       = Some (reply, cx', s')
     \<and> rb_contents (s_rx_buffer s') = rb_contents (s_rx_buffer example_socket) @ map (\<lambda>i. of_nat (2 + i + 7)) [0..<m]
     \<and> rx_coherent (\<lambda>i. of_nat (2 + m + i + 7)) (s_assembler s') (s_rx_buffer s')"
proof -
  have b: "buffers_inv example_socket" by (rule tcp_invD(1) [OF example_inv])
  have a: "s_assembler example_socket = asm_new 4" by (simp add: example_defs ASSEMBLER_MAX_SEGMENT_COUNT_def Let_def rb_capacity_def del: length_rb_storage)
  have coh: "rx_coherent (\<lambda>i. of_nat (2 + i + 7)) (s_assembler example_socket) (s_rx_buffer example_socket)"
    using buffers_invD(1,3) [OF b] a by (simp add: rx_coherent_def)
  have "window_start example_socket = 500" by (simp add: window_start_def example_defs Let_def rb_capacity_def del: length_rb_storage)
  then have "carries (\<lambda>i. of_nat (i + 7)) 2 (window_start example_socket) (example_segment Ctl_None 498 [7, 8, 9, 10])"
    by (simp add: carries_def example_segment_def stream_position_def Let_def less_Suc_eq nth_Cons')
  from received_data_is_the_stream [OF example_inv example_accepts example_wf _ this, of example_context] coh
  show ?thesis by simp
qed

end
