(* ===== verification/Wire_Bytes.thy ===== *)
theory Wire_Bytes
  imports Smoltcp_Prelude
begin

text \<open>
  Octets on the wire. The packet types of \<^verbatim>\<open>src/wire\<close> wrap a buffer and read and write its
  fields through slices and through byteorder's \<open>NetworkEndian\<close>, which stores integers with the most
  significant octet first. Here a buffer is its list of octets, a read returns \<open>None\<close> where the
  slice is out of range and the code panics, and a write returns the buffer after it.

  The laws say what a read returns after a write. \<open>poke\<close> is a write that is ignored out of range,
  so that its length law has no condition and the laws compose by rewriting.
\<close>

datatype wire_error = Wire_Error

named_theorems wire_access \<open>reads and writes of fields\<close>

text \<open>Rust's \<open>?\<close> on a \<open>Result\<close>, in a computation that can also panic.\<close>

definition try_then :: "('e + 'a) option \<Rightarrow> ('a \<Rightarrow> ('e + 'b) option) \<Rightarrow> ('e + 'b) option" where
  "try_then m f = (case m of None \<Rightarrow> None | Some (Inl e) \<Rightarrow> Some (Inl e) | Some (Inr a) \<Rightarrow> f a)"

lemma try_then_simps [simp]:
  "try_then None f = None" "try_then (Some (Inl e)) f = Some (Inl e)" "try_then (Some (Inr a)) f = f a"
  by (simp_all add: try_then_def)

section \<open>Integers in network order\<close>

definition be_nat :: "u8 list \<Rightarrow> nat" where
  "be_nat bs = foldl (\<lambda>n b. 256 * n + unat b) 0 bs"

primrec be_bytes :: "nat \<Rightarrow> nat \<Rightarrow> u8 list" where
  "be_bytes 0 x = []"
| "be_bytes (Suc n) x = be_bytes n (x div 256) @ [of_nat x]"

lemma u8_less: "unat (a :: u8) < 256" and u16_less: "unat (b :: u16) < 65536" and u32_less: "unat (c :: u32) < 4294967296"
  using unsigned_less [of a, where ?'a = nat] unsigned_less [of b, where ?'a = nat] unsigned_less [of c, where ?'a = nat]
  by simp_all

lemma unat_ucast_mod: "unat (ucast w :: 'b::len word) = unat w mod 2 ^ LENGTH('b)"
  by (simp only: unsigned_ucast_eq take_bit_eq_mod)

lemma be_nat_Nil [simp]: "be_nat [] = 0"
  by (simp add: be_nat_def)

lemma be_nat_snoc [simp]: "be_nat (bs @ [b]) = 256 * be_nat bs + unat b"
  by (simp add: be_nat_def)

lemma be_nat_single [simp]: "be_nat [a] = unat a"
  by (simp add: be_nat_def)

lemma be_nat_pair: "be_nat [a, b] = 256 * unat a + unat b"
  by (simp add: be_nat_def)

lemma length_be_bytes [simp]: "length (be_bytes n x) = n"
  by (induction n arbitrary: x) simp_all

lemma unat_of_nat_u8: "unat (of_nat x :: u8) = x mod 256"
  by (simp add: unat_of_nat)

lemma be_nat_be_bytes [simp]: "be_nat (be_bytes n x) = x mod 256 ^ n"
proof (induction n arbitrary: x)
  case (Suc n)
  then show ?case
    by (simp add: unat_of_nat_u8 mod_mult2_eq)
qed simp

lemma be_bytes_be_nat [simp]: "n = length bs \<Longrightarrow> be_bytes n (be_nat bs) = bs"
proof (induction bs arbitrary: n rule: rev_induct)
  case (snoc b bs)
  have "unat b < 256" using unsigned_less [of b] by simp
  then have "(256 * be_nat bs + unat b) div 256 = be_nat bs" by simp
  moreover have "(of_nat (256 * be_nat bs + unat b) :: u8) = b"
    using \<open>unat b < 256\<close> by (simp only: word_unat_eq_iff unat_of_nat_u8) simp
  ultimately show ?case using snoc by simp
qed simp

lemma be_nat_less: "be_nat bs < 256 ^ length bs"
proof (induction bs rule: rev_induct)
  case (snoc b bs)
  have "unat b < 256" using unsigned_less [of b] by simp
  with snoc show ?case by simp
qed simp

lemma be_bytes_single: "be_bytes 1 x = [of_nat x]"
  by simp

lemma be_bytes_pair: "be_bytes 2 x = [of_nat (x div 256), of_nat x]"
  by (simp add: numeral_2_eq_2)

lemma be_bytes_quad: "be_bytes 4 x = [of_nat (x div 256 div 256 div 256), of_nat (x div 256 div 256), of_nat (x div 256), of_nat x]"
proof -
  have "(4 :: nat) = Suc (Suc (Suc (Suc 0)))" by simp
  then show ?thesis by (simp only: be_bytes.simps append.simps)
qed

definition be_u16 :: "u8 list \<Rightarrow> u16" where "be_u16 bs = of_nat (be_nat bs)"
definition be_u32 :: "u8 list \<Rightarrow> u32" where "be_u32 bs = of_nat (be_nat bs)"

lemma be_u16_be_bytes [simp]: "be_u16 (be_bytes 2 (unat v)) = v"
  by (simp add: be_u16_def unsigned_less mod_less [OF unsigned_less [of v, simplified]])

lemma be_u32_be_bytes [simp]: "be_u32 (be_bytes 4 (unat v)) = v"
  by (simp add: be_u32_def mod_less [OF unsigned_less [of v, simplified]])

lemma be_u16_be_bytes_of_nat: "be_u16 (be_bytes 2 n) = of_nat n"
  by (simp add: be_u16_def word_unat_eq_iff unat_of_nat)

lemma unat_be_u16: "length bs = 2 \<Longrightarrow> unat (be_u16 bs) = be_nat bs"
  using be_nat_less [of bs] by (simp add: be_u16_def unat_of_nat)

lemma unat_be_u32: "length bs = 4 \<Longrightarrow> unat (be_u32 bs) = be_nat bs"
  using be_nat_less [of bs] by (simp add: be_u32_def unat_of_nat)

section \<open>Writes\<close>

definition poke :: "nat \<Rightarrow> 'a list \<Rightarrow> 'a list \<Rightarrow> 'a list" where
  "poke i xs bs = (if i + length xs \<le> length bs then blit i xs bs else bs)"

lemma length_poke [simp]: "length (poke i xs bs) = length bs"
  by (simp add: poke_def)

lemma sub_slice_poke_same [simp]:
  "n = length xs \<Longrightarrow> i + length xs \<le> length bs \<Longrightarrow> sub_slice i n (poke i xs bs) = xs"
  by (simp add: poke_def sub_slice_def blit_def)

lemma sub_slice_poke_other [simp]:
  assumes "j + n \<le> i \<or> i + length xs \<le> j"
  shows "sub_slice j n (poke i xs bs) = sub_slice j n bs"
proof (cases "i + length xs \<le> length bs")
  case True
  from assms show ?thesis
  proof
    assume "j + n \<le> i"
    with True show ?thesis
      by (simp add: poke_def sub_slice_def blit_def drop_take min_absorb1)
  next
    assume "i + length xs \<le> j"
    with True show ?thesis by (simp add: poke_def sub_slice_def blit_def)
  qed
qed (simp add: poke_def)

lemma nth_poke:
  "j < length bs \<Longrightarrow> i + length xs \<le> length bs \<Longrightarrow>
   poke i xs bs ! j = (if i \<le> j \<and> j < i + length xs then xs ! (j - i) else bs ! j)"
  by (simp add: poke_def nth_blit)

lemma nth_poke_other [simp]: "j < i \<or> i + length xs \<le> j \<Longrightarrow> poke i xs bs ! j = bs ! j"
  by (auto simp: poke_def blit_def nth_append)

lemma nth_poke_same [simp]: "Suc i \<le> length bs \<Longrightarrow> poke i [x] bs ! i = x"
  by (simp add: nth_poke)

lemma drop_poke [simp]: "i + length xs \<le> n \<Longrightarrow> drop n (poke i xs bs) = drop n bs"
  by (simp add: poke_def blit_def)

lemma take_poke [simp]: "n \<le> i \<Longrightarrow> take n (poke i xs bs) = take n bs"
  by (simp add: poke_def blit_def)

lemma poke_poke [simp]: "length xs = length ys \<Longrightarrow> poke i xs (poke i ys bs) = poke i xs bs"
  by (simp add: poke_def blit_def)

lemma sub_slice_poke_prefix [simp]:
  "i + length xs \<le> n \<Longrightarrow> n \<le> length bs \<Longrightarrow> sub_slice 0 n (poke i xs bs) = poke i xs (sub_slice 0 n bs)"
  by (simp add: poke_def blit_def sub_slice_def take_drop)

lemma poke_decompose:
  assumes "i + length xs \<le> length bs"
  shows "poke i xs bs = take i bs @ xs @ drop (i + length xs) bs"
  using assms by (simp add: poke_def blit_def)

section \<open>Fields\<close>

definition get_u8 :: "nat \<Rightarrow> u8 list \<Rightarrow> u8 option" where
  "get_u8 i bs = (if i < length bs then Some (bs ! i) else None)"

definition get_u16 :: "nat \<Rightarrow> u8 list \<Rightarrow> u16 option" where
  "get_u16 i bs = map_option be_u16 (slice_range i (i + 2) bs)"

definition get_u32 :: "nat \<Rightarrow> u8 list \<Rightarrow> u32 option" where
  "get_u32 i bs = map_option be_u32 (slice_range i (i + 4) bs)"

definition put_slice :: "nat \<Rightarrow> u8 list \<Rightarrow> u8 list \<Rightarrow> u8 list option" where
  "put_slice i xs bs = (if i + length xs \<le> length bs then Some (poke i xs bs) else None)"

definition put_u8 :: "nat \<Rightarrow> u8 \<Rightarrow> u8 list \<Rightarrow> u8 list option" where
  "put_u8 i v bs = put_slice i [v] bs"

definition put_u16 :: "nat \<Rightarrow> u16 \<Rightarrow> u8 list \<Rightarrow> u8 list option" where
  "put_u16 i v bs = put_slice i (be_bytes 2 (unat v)) bs"

definition put_u32 :: "nat \<Rightarrow> u32 \<Rightarrow> u8 list \<Rightarrow> u8 list option" where
  "put_u32 i v bs = put_slice i (be_bytes 4 (unat v)) bs"

lemma slice_range_Some [simp]: "i \<le> j \<Longrightarrow> j \<le> length bs \<Longrightarrow> slice_range i j bs = Some (sub_slice i (j - i) bs)"
  by (simp add: slice_range_def)

lemma get_u8_Some [simp]: "Suc i \<le> length bs \<Longrightarrow> get_u8 i bs = Some (bs ! i)"
  by (simp add: get_u8_def)

lemma get_u16_Some [simp]: "i + 2 \<le> length bs \<Longrightarrow> get_u16 i bs = Some (be_u16 (sub_slice i 2 bs))"
  by (simp add: get_u16_def)

lemma get_u32_Some [simp]: "i + 4 \<le> length bs \<Longrightarrow> get_u32 i bs = Some (be_u32 (sub_slice i 4 bs))"
  by (simp add: get_u32_def)

lemma put_slice_Some [simp]: "i + length xs \<le> length bs \<Longrightarrow> put_slice i xs bs = Some (poke i xs bs)"
  by (simp add: put_slice_def)

lemma put_u8_Some [simp]: "Suc i \<le> length bs \<Longrightarrow> put_u8 i v bs = Some (poke i [v] bs)"
  by (simp add: put_u8_def)

lemma put_u16_Some [simp]: "i + 2 \<le> length bs \<Longrightarrow> put_u16 i v bs = Some (poke i (be_bytes 2 (unat v)) bs)"
  by (simp add: put_u16_def)

lemma put_u32_Some [simp]: "i + 4 \<le> length bs \<Longrightarrow> put_u32 i v bs = Some (poke i (be_bytes 4 (unat v)) bs)"
  by (simp add: put_u32_def)


section \<open>Formats\<close>

text \<open>
  What the protocols' representations promise to the code that sends and receives them: a representation
  that the wire can carry, emitted into a buffer of the length it announces, is parsed back.
\<close>

locale wire_format =
  fixes buffer_len :: "'r \<Rightarrow> nat"
    and emit :: "'r \<Rightarrow> u8 list \<Rightarrow> u8 list option"
    and parse :: "u8 list \<Rightarrow> (wire_error + 'r) option"
    and carried :: "'r \<Rightarrow> bool"
  assumes emit_parse: "carried r \<Longrightarrow> length buf = buffer_len r \<Longrightarrow>
      \<exists>out. emit r buf = Some out \<and> length out = length buf \<and> parse out = Some (Inr r)"
begin

lemma emit_returns: "carried r \<Longrightarrow> length buf = buffer_len r \<Longrightarrow> emit r buf \<noteq> None"
  using emit_parse by fastforce

lemma emit_injective:
  assumes "carried r" "carried r'" "length buf = buffer_len r" "length buf' = buffer_len r'" "emit r buf = emit r' buf'"
  shows "r = r'"
  using emit_parse [OF assms(1,3)] emit_parse [OF assms(2,4)] assms(5) by auto

lemma parse_independent_of_buffer:
  assumes "carried r" "length buf = buffer_len r" "length buf' = buffer_len r" "emit r buf = Some out" "emit r buf' = Some out'"
  shows "parse out = parse out'"
  using emit_parse [OF assms(1,2)] emit_parse [OF assms(1,3)] assms(4,5) by auto

end

end
