(* ===== verification/Ip_Checksum.thy ===== *)
theory Ip_Checksum
  imports Wire_Bytes Ip_Types
begin

text \<open>
  The Internet checksum, module \<open>checksum\<close> of \<^verbatim>\<open>src/wire/ip.rs\<close>, and \<open>Checksum\<close> and
  \<open>ChecksumCapabilities\<close> of \<^verbatim>\<open>src/phy/mod.rs\<close>. The accumulator is a 32-bit word, as in the code; the
  results on the sum hold for data of at most 128 KiB, which cannot overflow it.
\<close>

unbundle bit_operations_syntax

section \<open>The computation\<close>

definition propagate_carries :: "u32 \<Rightarrow> u16" where
  "propagate_carries word =
     (let sum = drop_bit 16 word + (word AND 0xffff)
      in ucast (drop_bit 16 sum) + ucast sum)"

text \<open>The inner loop, \<open>while d.len() >= 2\<close>, with the octets it leaves.\<close>

fun sum_words :: "u32 \<Rightarrow> u8 list \<Rightarrow> u32 \<times> u8 list" where
  "sum_words accum (a # b # d) = sum_words (accum + ucast (be_u16 [a, b])) d"
| "sum_words accum d = (accum, d)"

text \<open>The outer loop over chunks of 32 octets.\<close>

function sum_chunks :: "u32 \<Rightarrow> u8 list \<Rightarrow> u32 \<times> u8 list" where
  "sum_chunks accum data =
     (if 32 \<le> length data then sum_chunks (fst (sum_words accum (take 32 data))) (drop 32 data)
      else (accum, data))"
  by auto
termination by (relation "measure (\<lambda>(accum, data). length data)") auto

declare sum_chunks.simps [simp del]

definition checksum_data :: "u8 list \<Rightarrow> u16" where
  "checksum_data data =
     (let (accum, data) = sum_chunks 0 data;
          (accum, data) = sum_words accum data;
          accum = (case data of [] \<Rightarrow> accum | value # _ \<Rightarrow> accum + push_bit 8 (ucast value))
      in propagate_carries accum)"

definition checksum_combine :: "u16 list \<Rightarrow> u16" where
  "checksum_combine checksums = propagate_carries (foldl (\<lambda>accum word. accum + ucast word) 0 checksums)"

definition pseudo_header_v4 :: "u8 list \<Rightarrow> u8 list \<Rightarrow> ip_protocol \<Rightarrow> u32 \<Rightarrow> u16" where
  "pseudo_header_v4 src_addr dst_addr next_header len =
     (let proto_len = [0, protocol_into_u8 next_header] @ be_bytes 2 (unat (ucast len :: u16))
      in checksum_combine [checksum_data src_addr, checksum_data dst_addr, checksum_data proto_len])"

definition pseudo_header_v6 :: "u8 list \<Rightarrow> u8 list \<Rightarrow> ip_protocol \<Rightarrow> u32 \<Rightarrow> u16" where
  "pseudo_header_v6 src_addr dst_addr next_header len =
     (let proto_len = [0, protocol_into_u8 next_header] @ be_bytes 2 (unat (ucast len :: u16))
      in checksum_combine [checksum_data src_addr, checksum_data dst_addr, checksum_data proto_len])"

fun pseudo_header :: "ip_address \<Rightarrow> ip_address \<Rightarrow> ip_protocol \<Rightarrow> u32 \<Rightarrow> u16 option" where
  "pseudo_header (Ipv4 src_addr) (Ipv4 dst_addr) next_header len =
     Some (pseudo_header_v4 src_addr dst_addr next_header len)"
| "pseudo_header (Ipv6 src_addr) (Ipv6 dst_addr) next_header len =
     Some (pseudo_header_v6 src_addr dst_addr next_header len)"
| "pseudo_header _ _ _ _ = None"

datatype checksum = Checksum_Both | Checksum_Rx | Checksum_Tx | Checksum_None

definition checksum_rx :: "checksum \<Rightarrow> bool" where
  "checksum_rx c \<longleftrightarrow> (case c of Checksum_Both \<Rightarrow> True | Checksum_Rx \<Rightarrow> True | _ \<Rightarrow> False)"

definition checksum_tx :: "checksum \<Rightarrow> bool" where
  "checksum_tx c \<longleftrightarrow> (case c of Checksum_Both \<Rightarrow> True | Checksum_Tx \<Rightarrow> True | _ \<Rightarrow> False)"

record checksum_caps =
  caps_ipv4 :: checksum
  caps_udp :: checksum
  caps_tcp :: checksum
  caps_icmpv4 :: checksum
  caps_icmpv6 :: checksum

definition checksum_caps_ignored :: checksum_caps where
  "checksum_caps_ignored = \<lparr>caps_ipv4 = Checksum_None, caps_udp = Checksum_None, caps_tcp = Checksum_None,
     caps_icmpv4 = Checksum_None, caps_icmpv6 = Checksum_None\<rparr>"

section \<open>The one's complement sum\<close>

text \<open>
  The reference, RFC 1071: the data as 16-bit words, the last one padded with a zero octet, added with
  end-around carry.
\<close>

fun words_of :: "u8 list \<Rightarrow> nat list" where
  "words_of [] = []"
| "words_of [a] = [256 * unat a]"
| "words_of (a # b # d) = (256 * unat a + unat b) # words_of d"

definition end_around_add :: "nat \<Rightarrow> nat \<Rightarrow> nat" where
  "end_around_add a b = (if a + b < 65536 then a + b else a + b - 65535)"

definition rfc1071_sum :: "u8 list \<Rightarrow> nat" where
  "rfc1071_sum bs = foldl end_around_add 0 (words_of bs)"

definition word_sum :: "u8 list \<Rightarrow> nat" where
  "word_sum bs = sum_list (words_of bs)"

definition oc_norm :: "nat \<Rightarrow> nat" where
  "oc_norm s = (if s = 0 then 0 else (s - 1) mod 65535 + 1)"

lemma oc_norm_small: "s < 65536 \<Longrightarrow> oc_norm s = s"
  by (cases "s = 65536") (auto simp: oc_norm_def mod_if)

lemma oc_norm_le: "oc_norm s \<le> 65535"
proof -
  have "(s - 1) mod 65535 < 65535" by simp
  then have "(s - 1) mod 65535 + 1 \<le> 65535" by linarith
  then show ?thesis by (simp add: oc_norm_def)
qed

lemma oc_norm_0 [simp]: "oc_norm s = 0 \<longleftrightarrow> s = 0"
  by (simp add: oc_norm_def)

lemma oc_norm_mod: "oc_norm s mod 65535 = s mod 65535"
proof (cases s)
  case (Suc n)
  then show ?thesis by (simp add: oc_norm_def mod_Suc_eq)
qed (simp add: oc_norm_def)

lemma oc_norm_unique: "s mod 65535 = t mod 65535 \<Longrightarrow> (s = 0 \<longleftrightarrow> t = 0) \<Longrightarrow> oc_norm s = oc_norm t"
proof (cases "s = 0")
  case False
  assume eq: "s mod 65535 = t mod 65535" and z: "s = 0 \<longleftrightarrow> t = 0"
  have small: "n mod 65535 = (if n = 65535 then 0 else n)" if "n \<le> 65535" for n :: nat
    using that by auto
  have "oc_norm s mod 65535 = oc_norm t mod 65535" using eq by (simp add: oc_norm_mod)
  moreover have "1 \<le> oc_norm s" "1 \<le> oc_norm t" "oc_norm s \<le> 65535" "oc_norm t \<le> 65535"
    using False z oc_norm_le [of s] oc_norm_le [of t] by (simp_all add: oc_norm_def)
  ultimately show ?thesis by (simp add: small split: if_splits)
qed simp

lemma oc_norm_add [simp]: "oc_norm (oc_norm a + b) = oc_norm (a + b)"
  by (rule oc_norm_unique) (auto simp: oc_norm_mod mod_add_left_eq [of "oc_norm a", symmetric] mod_add_left_eq)

lemma oc_norm_add' [simp]: "oc_norm (a + oc_norm b) = oc_norm (a + b)"
  using oc_norm_add [of b a] by (simp add: add.commute)

lemma oc_norm_idem [simp]: "oc_norm (oc_norm a) = oc_norm a"
  using oc_norm_add [of a 0] by simp

lemma end_around_add_norm: "a \<le> 65535 \<Longrightarrow> b \<le> 65535 \<Longrightarrow> end_around_add a b = oc_norm (a + b)"
  by (auto simp: end_around_add_def oc_norm_def mod_if)


lemma words_of_le: "w \<in> set (words_of bs) \<Longrightarrow> w \<le> 65535"
proof (induction bs rule: words_of.induct)
  case (2 a)
  then show ?case using u8_less [of a] by simp
next
  case (3 a b d)
  then show ?case using u8_less [of a] u8_less [of b] by auto
qed simp

lemma foldl_end_around: "n \<le> 65535 \<Longrightarrow> \<forall>w \<in> set ws. w \<le> 65535 \<Longrightarrow> foldl end_around_add n ws = oc_norm (n + sum_list ws)"
proof (induction ws arbitrary: n)
  case (Cons w ws)
  then have "foldl end_around_add (oc_norm (n + w)) ws = oc_norm (oc_norm (n + w) + sum_list ws)"
    using oc_norm_le by simp
  with Cons.prems show ?case by (simp add: end_around_add_norm add.assoc)
qed (simp add: oc_norm_small)

lemma rfc1071_sum_norm: "rfc1071_sum bs = oc_norm (word_sum bs)"
  unfolding rfc1071_sum_def word_sum_def using foldl_end_around [of 0 "words_of bs"] words_of_le by simp

lemma word_sum_simps [simp]:
  "word_sum [] = 0" "word_sum [a] = 256 * unat a" "word_sum (a # b # d) = 256 * unat a + unat b + word_sum d"
  by (simp_all add: word_sum_def)

lemma word_sum_append: "even (length xs) \<Longrightarrow> word_sum (xs @ ys) = word_sum xs + word_sum ys"
  by (induction xs rule: words_of.induct) simp_all

lemma word_sum_le: "word_sum bs \<le> 65535 * ((length bs + 1) div 2)"
proof (induction bs rule: words_of.induct)
  case (2 a)
  then show ?case using u8_less [of a] by simp
next
  case (3 a b d)
  then show ?case using u8_less [of a] u8_less [of b] by simp
qed simp

lemma unat_propagate_carries: "unat (propagate_carries w) = oc_norm (unat w)"
proof -
  define h l where "h = unat w div 65536" and "l = unat w mod 65536"
  have w: "unat w = 65536 * h + l" by (simp add: h_def l_def)
  have lt: "h < 65536" "l < 65536" using u32_less [of w] by (simp_all add: h_def l_def)
  have l: "unat (w AND 0xffff) = l"
  proof -
    have "w AND 0xffff = take_bit 16 w" by (simp add: take_bit_eq_mask mask_eq_exp_minus_1)
    then have "unat (w AND 0xffff) = take_bit 16 (unat w)" by (simp only: unsigned_take_bit_eq)
    then show ?thesis by (simp only: l_def take_bit_eq_mod) simp
  qed
  have h: "unat (drop_bit 16 w) = h" by (simp add: h_def unat_drop_bit_eq drop_bit_eq_div [where 'a = nat])
  let ?sum = "drop_bit 16 w + (w AND 0xffff)"
  have s: "unat ?sum = h + l" using lt by (subst unat_word_ariths) (simp add: l h)
  have "unat (ucast (drop_bit 16 ?sum) :: u16) = (h + l) div 65536"
    using lt by (simp add: unat_ucast_mod unat_drop_bit_eq drop_bit_eq_div [where 'a = nat] s)
  moreover have "unat (ucast ?sum :: u16) = (h + l) mod 65536" by (simp add: unat_ucast_mod s)
  ultimately have "unat (propagate_carries w) = ((h + l) div 65536 + (h + l) mod 65536) mod 65536"
    by (simp add: propagate_carries_def Let_def unat_word_ariths)
  also have "\<dots> = oc_norm (h + l)"
  proof (cases "h + l < 65536")
    case False
    then obtain k where "h + l = 65536 + k" by (metis le_add_diff_inverse linorder_not_less)
    moreover from this have "k \<le> 65534" using lt by simp
    ultimately show ?thesis by (simp add: oc_norm_def)
  qed (simp add: oc_norm_small)
  also have "\<dots> = oc_norm (unat w)"
  proof (rule oc_norm_unique)
    have "65536 * h + l = (h + l) + 65535 * h" by simp
    then show "(h + l) mod 65535 = unat w mod 65535" unfolding w by (simp only: mod_mult_self2)
  qed (simp add: w)
  finally show ?thesis .
qed


section \<open>The checksum is the one's complement sum\<close>

lemma ucast_u16_u32: "unat (ucast (w :: u16) :: u32) = unat w"
  using u16_less [of w] by (simp add: unat_ucast_mod)

lemma sum_words_spec:
  assumes "unat accum + word_sum bs < 4294967296"
  shows "unat (fst (sum_words accum bs)) + word_sum (snd (sum_words accum bs)) = unat accum + word_sum bs
    \<and> length (snd (sum_words accum bs)) = length bs mod 2"
  using assms
proof (induction accum bs rule: sum_words.induct)
  case (1 accum a b d)
  have "unat (ucast (be_u16 [a, b]) :: u32) = 256 * unat a + unat b"
    by (simp add: ucast_u16_u32 unat_be_u16 be_nat_pair)
  then have "unat (accum + ucast (be_u16 [a, b])) = unat accum + (256 * unat a + unat b)"
    using 1(2) by (subst unat_add_lem [THEN iffD1]) simp_all
  with 1 show ?case by simp
qed simp_all

lemma sum_chunks_spec:
  assumes "unat accum + word_sum bs < 4294967296"
  shows "unat (fst (sum_chunks accum bs)) + word_sum (snd (sum_chunks accum bs)) = unat accum + word_sum bs"
  using assms
proof (induction accum bs rule: sum_chunks.induct)
  case (1 accum bs)
  show ?case
  proof (cases "32 \<le> length bs")
    case True
    have split: "word_sum bs = word_sum (take 32 bs) + word_sum (drop 32 bs)"
      using True word_sum_append [of "take 32 bs" "drop 32 bs"] by simp
    obtain acc d where sw: "sum_words accum (take 32 bs) = (acc, d)" by fastforce
    from sum_words_spec [of accum "take 32 bs"] 1(2) True
    have acc: "unat acc + word_sum d = unat accum + word_sum (take 32 bs)" "length d = 0"
      by (auto simp: split sw)
    then have "unat acc = unat accum + word_sum (take 32 bs)" by simp
    with 1 True split show ?thesis by (subst (1 2) sum_chunks.simps) (simp add: sw)
  qed (simp add: sum_chunks.simps)
qed

lemma word_sum_bound: "length bs \<le> 131072 \<Longrightarrow> word_sum bs \<le> 4294901760"
  using word_sum_le [of bs] by (rule order_trans) (simp add: mult_le_mono2 [of _ 65536 65535, simplified])

lemma unat_checksum_data:
  assumes "length bs \<le> 131072"
  shows "unat (checksum_data bs) = oc_norm (word_sum bs)"
proof -
  obtain acc1 d1 where c: "sum_chunks 0 bs = (acc1, d1)" by fastforce
  obtain acc2 d2 where w: "sum_words acc1 d1 = (acc2, d2)" by fastforce
  have eq1: "unat acc1 + word_sum d1 = word_sum bs"
    using sum_chunks_spec [of 0 bs] word_sum_bound [OF assms] by (simp add: c)
  have eq2: "unat acc2 + word_sum d2 = word_sum bs" and len: "length d2 = length d1 mod 2"
    using sum_words_spec [of acc1 d1] word_sum_bound [OF assms] eq1 by (simp_all add: w)
  let ?acc = "case d2 of [] \<Rightarrow> acc2 | v # _ \<Rightarrow> acc2 + push_bit 8 (ucast v)"
  have "unat ?acc = word_sum bs"
  proof (cases d2)
    case (Cons v vs)
    then have vs: "vs = []" using len mod_less_divisor [of 2 "length d1"] by (cases vs) auto
    have "unat (push_bit 8 (ucast v :: u32)) = 256 * unat v"
      using u8_less [of v] by (simp add: push_bit_eq_mult unat_word_ariths unat_ucast_mod)
    then show ?thesis
      using eq2 word_sum_bound [OF assms] Cons vs by (subst Cons) (simp add: unat_add_lem [THEN iffD1])
  qed (use eq2 in simp)
  then show ?thesis by (simp add: checksum_data_def c w unat_propagate_carries)
qed

text \<open>C25. The chunked loop with its 32-bit accumulator and deferred carries computes the Internet checksum
  of RFC 1071: the sum of the 16-bit words of the data, an odd last octet padded with zero, added one
  after the other with end-around carry.\<close>

theorem checksum_data_is_rfc1071:
  assumes "length bs \<le> 131072"
  shows "unat (checksum_data bs) = rfc1071_sum bs"
  using unat_checksum_data [OF assms] by (simp add: rfc1071_sum_norm)

theorem checksum_data_is_rfc1071_witness:
  "length [0x00, 0x01, 0xf2, 0x03, 0xf4, 0xf5, 0xf6, 0xf7, 0x80 :: u8] \<le> 131072
   \<and> unat (checksum_data [0x00, 0x01, 0xf2, 0x03, 0xf4, 0xf5, 0xf6, 0xf7, 0x80]) = 24051"
  using checksum_data_is_rfc1071 [of "[0x00, 0x01, 0xf2, 0x03, 0xf4, 0xf5, 0xf6, 0xf7, 0x80]"]
  by (simp add: rfc1071_sum_def end_around_add_def)

lemma foldl_add_unat:
  assumes "unat a + sum_list (map unat ws) < 4294967296"
  shows "unat (foldl (\<lambda>accum word. accum + ucast (word :: u16)) (a :: u32) ws) = unat a + sum_list (map unat ws)"
  using assms
proof (induction ws arbitrary: a)
  case (Cons w ws)
  then have "unat (a + ucast w) = unat a + unat w"
    by (subst unat_add_lem [THEN iffD1]) (simp_all add: ucast_u16_u32)
  with Cons show ?case by simp
qed simp

lemma unat_checksum_combine:
  assumes "length ws \<le> 65536"
  shows "unat (checksum_combine ws) = oc_norm (sum_list (map unat ws))"
proof -
  have "sum_list (map unat ws) \<le> 65535 * length ws"
  proof (induction ws)
    case (Cons w ws)
    then show ?case using u16_less [of w] by simp
  qed simp
  then show ?thesis using assms by (simp add: checksum_combine_def unat_propagate_carries foldl_add_unat)
qed

section \<open>Filling in and verifying\<close>

lemma unat_not_u16: "unat (NOT w :: u16) = 65535 - unat w"
proof -
  have "NOT w = -1 - w" by (simp add: not_eq_complement)
  moreover have "w \<le> -1" by simp
  ultimately show ?thesis by (simp add: unat_sub unsigned_minus_1_eq_mask mask_eq_exp_minus_1)
qed

lemma word_sum_poke:
  assumes "even i" "length xs = 2" "i + 2 \<le> length bs"
  shows "word_sum (poke i xs bs) = word_sum (take i bs) + word_sum xs + word_sum (drop (i + 2) bs)"
  using assms by (simp add: poke_decompose word_sum_append)

lemma word_sum_be_bytes: "n < 65536 \<Longrightarrow> word_sum (be_bytes 2 n) = n"
  by (simp add: be_bytes_pair unat_of_nat_u8)

lemma checksum_filled:
  assumes "even i" "i + 2 \<le> length bs" "unat (c :: u16) = 65535 - oc_norm (p + word_sum (poke i (be_bytes 2 0) bs))"
  shows "oc_norm (p + word_sum (poke i (be_bytes 2 (unat c)) bs)) = 65535"
proof -
  define s where "s = p + word_sum (take i bs) + word_sum (drop (i + 2) bs)"
  have "word_sum (be_bytes 2 0) = 0" by (rule word_sum_be_bytes) simp
  then have c: "unat c = 65535 - oc_norm s"
    using assms by (simp add: word_sum_poke s_def add.assoc)
  have "p + word_sum (poke i (be_bytes 2 (unat c)) bs) = s + unat c"
    using assms(1,2) u16_less [of c] by (simp add: word_sum_poke s_def word_sum_be_bytes)
  moreover have "oc_norm (s + unat c) = oc_norm (oc_norm s + unat c)" by simp
  moreover have "oc_norm s + unat c = 65535" using c oc_norm_le [of s] by simp
  ultimately show ?thesis by (simp add: oc_norm_small)
qed

lemma word_sum_update:
  "j < length bs \<Longrightarrow> word_sum (bs[j := x]) + (if even j then 256 else 1) * unat (bs ! j)
     = word_sum bs + (if even j then 256 else 1) * unat x"
proof (induction bs arbitrary: j rule: words_of.induct)
  case (3 a b d)
  show ?case
  proof (cases "j < 2")
    case True
    then show ?thesis by (auto simp: less_2_cases_iff)
  next
    case False
    then obtain k where j: "j = Suc (Suc k)" by (metis Suc_diff_Suc Suc_lessI less_2_cases_iff not_less_eq numeral_2_eq_2 not0_implies_Suc zero_less_Suc)
    with 3 show ?thesis by simp
  qed
qed auto

lemma checksum_detects:
  assumes "oc_norm (p + word_sum bs) = 65535" "j < length bs" "x \<noteq> bs ! j"
  shows "oc_norm (p + word_sum (bs[j := x])) \<noteq> 65535"
proof
  assume "oc_norm (p + word_sum (bs[j := x])) = 65535"
  then have "(p + word_sum (bs[j := x])) mod 65535 = (p + word_sum bs) mod 65535"
    using assms(1) by (metis oc_norm_mod)
  then have dvd: "65535 dvd int (word_sum (bs[j := x])) - int (word_sum bs)"
    by (metis (no_types, lifting) add_diff_cancel_left mod_eq_dvd_iff of_nat_add of_nat_mod of_nat_numeral)
  define a b where "a = unat x" and "b = unat (bs ! j)"
  have ab: "a \<noteq> b" "a < 256" "b < 256" using assms(3) u8_less by (simp_all add: a_def b_def word_unat_eq_iff)
  have upd: "word_sum (bs[j := x]) + (if even j then 256 else 1) * b = word_sum bs + (if even j then 256 else 1) * a"
    using word_sum_update [OF assms(2), of x] by (simp add: a_def b_def)
  have small: False if "65535 dvd int a - int b"
    using zdvd_imp_le [of 65535 "int a - int b"] zdvd_imp_le [of 65535 "int b - int a"] that ab
    by (cases "a < b") (simp_all add: dvd_diff_commute)
  show False
  proof (cases "even j")
    case True
    with upd have "int (word_sum (bs[j := x])) - int (word_sum bs) = 256 * (int a - int b)" by simp
    then have "65535 dvd 256 * (256 * (int a - int b)) - 65535 * (int a - int b)"
      using dvd by (metis dvd_diff dvd_mult dvd_triv_left)
    then have "65535 dvd int a - int b" by (simp add: algebra_simps)
    then show False by (rule small)
  next
    case False
    with upd have "int (word_sum (bs[j := x])) - int (word_sum bs) = int a - int b" by simp
    with dvd have "65535 dvd int a - int b" by simp
    then show False by (rule small)
  qed
qed

end
