(* ===== verification/Tcp_Wire.thy ===== *)
theory Tcp_Wire
  imports Ip_Checksum Tcp_Repr
begin

text \<open>
  TCP segments on the wire, \<open>Packet\<close>, \<open>TcpOption\<close> and \<open>Repr\<close> of \<^verbatim>\<open>src/wire/tcp.rs\<close>: the
  accessors of the header fields, the options, and the conversion between octets and
  \<^typ>\<open>tcp_repr\<close>. A packet is its buffer. The results: parsing returns on every buffer, without a panic;
  parsing what was emitted gives back the representation.
\<close>

unbundle bit_operations_syntax

section \<open>Fields\<close>

definition tcpp_src_port :: "u8 list \<Rightarrow> u16 option" where "tcpp_src_port data = get_u16 0 data"
definition tcpp_dst_port :: "u8 list \<Rightarrow> u16 option" where "tcpp_dst_port data = get_u16 2 data"
definition tcpp_seq_number :: "u8 list \<Rightarrow> seq_number option" where "tcpp_seq_number data = get_u32 4 data"
definition tcpp_ack_number :: "u8 list \<Rightarrow> seq_number option" where "tcpp_ack_number data = get_u32 8 data"

definition tcpp_fin :: "u8 list \<Rightarrow> bool option" where
  "tcpp_fin data = do { raw \<leftarrow> get_u16 12 data; Some (raw AND 0x001 \<noteq> 0) }"

definition tcpp_syn :: "u8 list \<Rightarrow> bool option" where
  "tcpp_syn data = do { raw \<leftarrow> get_u16 12 data; Some (raw AND 0x002 \<noteq> 0) }"

definition tcpp_rst :: "u8 list \<Rightarrow> bool option" where
  "tcpp_rst data = do { raw \<leftarrow> get_u16 12 data; Some (raw AND 0x004 \<noteq> 0) }"

definition tcpp_psh :: "u8 list \<Rightarrow> bool option" where
  "tcpp_psh data = do { raw \<leftarrow> get_u16 12 data; Some (raw AND 0x008 \<noteq> 0) }"

definition tcpp_ack :: "u8 list \<Rightarrow> bool option" where
  "tcpp_ack data = do { raw \<leftarrow> get_u16 12 data; Some (raw AND 0x010 \<noteq> 0) }"

definition tcpp_urg :: "u8 list \<Rightarrow> bool option" where
  "tcpp_urg data = do { raw \<leftarrow> get_u16 12 data; Some (raw AND 0x020 \<noteq> 0) }"

definition tcpp_ece :: "u8 list \<Rightarrow> bool option" where
  "tcpp_ece data = do { raw \<leftarrow> get_u16 12 data; Some (raw AND 0x040 \<noteq> 0) }"

definition tcpp_cwr :: "u8 list \<Rightarrow> bool option" where
  "tcpp_cwr data = do { raw \<leftarrow> get_u16 12 data; Some (raw AND 0x080 \<noteq> 0) }"

definition tcpp_ns :: "u8 list \<Rightarrow> bool option" where
  "tcpp_ns data = do { raw \<leftarrow> get_u16 12 data; Some (raw AND 0x100 \<noteq> 0) }"

definition tcpp_header_len :: "u8 list \<Rightarrow> u8 option" where
  "tcpp_header_len data = do { raw \<leftarrow> get_u16 12 data; Some (ucast (drop_bit 12 raw * 4)) }"

definition tcpp_window_len :: "u8 list \<Rightarrow> u16 option" where "tcpp_window_len data = get_u16 14 data"
definition tcpp_checksum :: "u8 list \<Rightarrow> u16 option" where "tcpp_checksum data = get_u16 16 data"
definition tcpp_urgent_at :: "u8 list \<Rightarrow> u16 option" where "tcpp_urgent_at data = get_u16 18 data"

definition tcpp_check_len :: "u8 list \<Rightarrow> (wire_error + unit) option" where
  "tcpp_check_len data =
     (if length data < 20 then Some (Inl Wire_Error)
      else do { h \<leftarrow> tcpp_header_len data;
                let header_len = unat h;
                Some (if length data < header_len \<or> header_len < 20 then Inl Wire_Error else Inr ()) })"

definition tcpp_new_checked :: "u8 list \<Rightarrow> (wire_error + u8 list) option" where
  "tcpp_new_checked buffer = try_then (tcpp_check_len buffer) (\<lambda>_. Some (Inr buffer))"

definition tcpp_segment_len :: "u8 list \<Rightarrow> nat option" where
  "tcpp_segment_len data =
     do { h \<leftarrow> tcpp_header_len data;
          len \<leftarrow> checked_sub (length data) (unat h);
          syn \<leftarrow> tcpp_syn data;
          let len = (if syn then len + 1 else len);
          fin \<leftarrow> tcpp_fin data;
          Some (if fin then len + 1 else len) }"

definition tcpp_options :: "u8 list \<Rightarrow> u8 list option" where
  "tcpp_options data = do { header_len \<leftarrow> tcpp_header_len data; slice_range 20 (unat header_len) data }"

definition tcpp_payload :: "u8 list \<Rightarrow> u8 list option" where
  "tcpp_payload data = do { header_len \<leftarrow> tcpp_header_len data; slice_range (unat header_len) (length data) data }"

definition tcpp_verify_checksum :: "ip_address \<Rightarrow> ip_address \<Rightarrow> u8 list \<Rightarrow> bool option" where
  "tcpp_verify_checksum src_addr dst_addr data =
     do { ph \<leftarrow> pseudo_header src_addr dst_addr Tcp (of_nat (length data));
          Some (checksum_combine [ph, checksum_data data] = NOT 0) }"

definition tcpp_set_src_port :: "u16 \<Rightarrow> u8 list \<Rightarrow> u8 list option" where "tcpp_set_src_port v data = put_u16 0 v data"
definition tcpp_set_dst_port :: "u16 \<Rightarrow> u8 list \<Rightarrow> u8 list option" where "tcpp_set_dst_port v data = put_u16 2 v data"
definition tcpp_set_seq_number :: "seq_number \<Rightarrow> u8 list \<Rightarrow> u8 list option" where "tcpp_set_seq_number v data = put_u32 4 v data"
definition tcpp_set_ack_number :: "seq_number \<Rightarrow> u8 list \<Rightarrow> u8 list option" where "tcpp_set_ack_number v data = put_u32 8 v data"

definition tcpp_clear_flags :: "u8 list \<Rightarrow> u8 list option" where
  "tcpp_clear_flags data = do { raw \<leftarrow> get_u16 12 data; put_u16 12 (raw AND NOT 0x0fff) data }"

definition tcpp_set_fin :: "bool \<Rightarrow> u8 list \<Rightarrow> u8 list option" where
  "tcpp_set_fin value data =
     do { raw \<leftarrow> get_u16 12 data; put_u16 12 (if value then raw OR 0x001 else raw AND NOT 0x001) data }"

definition tcpp_set_syn :: "bool \<Rightarrow> u8 list \<Rightarrow> u8 list option" where
  "tcpp_set_syn value data =
     do { raw \<leftarrow> get_u16 12 data; put_u16 12 (if value then raw OR 0x002 else raw AND NOT 0x002) data }"

definition tcpp_set_rst :: "bool \<Rightarrow> u8 list \<Rightarrow> u8 list option" where
  "tcpp_set_rst value data =
     do { raw \<leftarrow> get_u16 12 data; put_u16 12 (if value then raw OR 0x004 else raw AND NOT 0x004) data }"

definition tcpp_set_psh :: "bool \<Rightarrow> u8 list \<Rightarrow> u8 list option" where
  "tcpp_set_psh value data =
     do { raw \<leftarrow> get_u16 12 data; put_u16 12 (if value then raw OR 0x008 else raw AND NOT 0x008) data }"

definition tcpp_set_ack :: "bool \<Rightarrow> u8 list \<Rightarrow> u8 list option" where
  "tcpp_set_ack value data =
     do { raw \<leftarrow> get_u16 12 data; put_u16 12 (if value then raw OR 0x010 else raw AND NOT 0x010) data }"

definition tcpp_set_urg :: "bool \<Rightarrow> u8 list \<Rightarrow> u8 list option" where
  "tcpp_set_urg value data =
     do { raw \<leftarrow> get_u16 12 data; put_u16 12 (if value then raw OR 0x020 else raw AND NOT 0x020) data }"

definition tcpp_set_ece :: "bool \<Rightarrow> u8 list \<Rightarrow> u8 list option" where
  "tcpp_set_ece value data =
     do { raw \<leftarrow> get_u16 12 data; put_u16 12 (if value then raw OR 0x040 else raw AND NOT 0x040) data }"

definition tcpp_set_cwr :: "bool \<Rightarrow> u8 list \<Rightarrow> u8 list option" where
  "tcpp_set_cwr value data =
     do { raw \<leftarrow> get_u16 12 data; put_u16 12 (if value then raw OR 0x080 else raw AND NOT 0x080) data }"

definition tcpp_set_ns :: "bool \<Rightarrow> u8 list \<Rightarrow> u8 list option" where
  "tcpp_set_ns value data =
     do { raw \<leftarrow> get_u16 12 data; put_u16 12 (if value then raw OR 0x100 else raw AND NOT 0x100) data }"

definition tcpp_set_header_len :: "u8 \<Rightarrow> u8 list \<Rightarrow> u8 list option" where
  "tcpp_set_header_len value data =
     do { raw \<leftarrow> get_u16 12 data;
          put_u16 12 ((raw AND NOT 0xf000) OR push_bit 12 (ucast value div 4)) data }"

definition tcpp_set_window_len :: "u16 \<Rightarrow> u8 list \<Rightarrow> u8 list option" where "tcpp_set_window_len v data = put_u16 14 v data"
definition tcpp_set_checksum :: "u16 \<Rightarrow> u8 list \<Rightarrow> u8 list option" where "tcpp_set_checksum v data = put_u16 16 v data"
definition tcpp_set_urgent_at :: "u16 \<Rightarrow> u8 list \<Rightarrow> u8 list option" where "tcpp_set_urgent_at v data = put_u16 18 v data"

definition tcpp_fill_checksum :: "ip_address \<Rightarrow> ip_address \<Rightarrow> u8 list \<Rightarrow> u8 list option" where
  "tcpp_fill_checksum src_addr dst_addr data =
     do { data \<leftarrow> tcpp_set_checksum 0 data;
          ph \<leftarrow> pseudo_header src_addr dst_addr Tcp (of_nat (length data));
          let checksum = NOT (checksum_combine [ph, checksum_data data]);
          tcpp_set_checksum checksum data }"

text \<open>A write of the whole slice \<open>options_mut()\<close>, and of a prefix of \<open>payload_mut()\<close>.\<close>

definition tcpp_write_options :: "u8 list \<Rightarrow> u8 list \<Rightarrow> u8 list option" where
  "tcpp_write_options options data = put_slice 20 options data"

definition tcpp_write_payload :: "u8 list \<Rightarrow> u8 list \<Rightarrow> u8 list option" where
  "tcpp_write_payload payload data = do { header_len \<leftarrow> tcpp_header_len data; put_slice (unat header_len) payload data }"

section \<open>Options\<close>

datatype tcp_option = EndOfList | NoOperation | MaxSegmentSize u16 | WindowScale u8 | SackPermitted
  | SackRange sack_ranges | Unknown_option u8 "u8 list"

definition sack_block :: "u8 list \<Rightarrow> nat \<Rightarrow> (u32 \<times> u32) option option" where
  "sack_block data i =
     (let left = i * 8
      in if left < length data
         then let mid = left + 4
              in do { range_left \<leftarrow> get_u32 left data; range_right \<leftarrow> get_u32 mid data;
                      Some (Some (range_left, range_right)) }
         else Some None)"

definition option_body :: "u8 \<Rightarrow> nat \<Rightarrow> u8 list \<Rightarrow> (wire_error + tcp_option) option" where
  "option_body kind len data =
     (if kind = 0x00 \<or> kind = 0x01 then None
      else if kind = 0x02 then
        if len = 4 then do { v \<leftarrow> get_u16 0 data; Some (Inr (MaxSegmentSize v)) } else Some (Inl Wire_Error)
      else if kind = 0x03 then
        if len = 3 then do { v \<leftarrow> get_u8 0 data; Some (Inr (WindowScale v)) } else Some (Inl Wire_Error)
      else if kind = 0x04 then
        if len = 2 then Some (Inr SackPermitted) else Some (Inl Wire_Error)
      else if kind = 0x05 then
        if len < 10 \<or> (len - 2) mod 8 \<noteq> 0 then Some (Inl Wire_Error)
        else do { a \<leftarrow> sack_block data 0; b \<leftarrow> sack_block data 1; c \<leftarrow> sack_block data 2;
                  Some (Inr (SackRange (a, b, c))) }
      else Some (Inr (Unknown_option kind data)))"

definition option_parse :: "u8 list \<Rightarrow> (wire_error + u8 list \<times> tcp_option) option" where
  "option_parse buffer = (case buffer of
      [] \<Rightarrow> Some (Inl Wire_Error)
    | kind # rest \<Rightarrow>
        if kind = 0x00 then Some (Inr (drop 1 buffer, EndOfList))
        else if kind = 0x01 then Some (Inr (drop 1 buffer, NoOperation))
        else (case rest of
            [] \<Rightarrow> Some (Inl Wire_Error)
          | l # _ \<Rightarrow>
              let len = unat l
              in case slice_range 2 len buffer of
                   None \<Rightarrow> Some (Inl Wire_Error)
                 | Some data \<Rightarrow>
                     try_then (option_body kind len data)
                       (\<lambda>option. do { next_options \<leftarrow> slice_range len (length buffer) buffer;
                                      Some (Inr (next_options, option)) })))"

definition sack_list :: "sack_ranges \<Rightarrow> (u32 \<times> u32) list" where
  "sack_list rs = (case rs of (a, b, c) \<Rightarrow> List.map_filter id [a, b, c])"

fun option_buffer_len :: "tcp_option \<Rightarrow> nat" where
  "option_buffer_len EndOfList = 1"
| "option_buffer_len NoOperation = 1"
| "option_buffer_len (MaxSegmentSize _) = 4"
| "option_buffer_len (WindowScale _) = 3"
| "option_buffer_len SackPermitted = 2"
| "option_buffer_len (SackRange s) = length (sack_list s) * 8 + 2"
| "option_buffer_len (Unknown_option _ data) = 2 + length data"

fun emit_sack_blocks :: "nat \<Rightarrow> (u32 \<times> u32) list \<Rightarrow> u8 list \<Rightarrow> u8 list option" where
  "emit_sack_blocks i [] buffer = Some buffer"
| "emit_sack_blocks i ((first, second) # rs) buffer =
     do { let pos = i * 8 + 2;
          buffer \<leftarrow> put_u32 pos first buffer;
          buffer \<leftarrow> put_u32 (pos + 4) second buffer;
          emit_sack_blocks (i + 1) rs buffer }"

text \<open>
  \<open>emit\<close> returns the octets behind the option, as a mutable slice. Here it returns the whole buffer after the
  writes and the length of the option: the slice starts there.
\<close>

definition option_emit_body :: "tcp_option \<Rightarrow> u8 list \<Rightarrow> u8 list option" where
  "option_emit_body opt buffer = (case opt of
      EndOfList \<Rightarrow> Some (replicate (length buffer) 0x00)
    | NoOperation \<Rightarrow> put_u8 0 0x01 buffer
    | _ \<Rightarrow>
        do { buffer \<leftarrow> put_u8 1 (of_nat (option_buffer_len opt)) buffer;
             case opt of
               MaxSegmentSize value \<Rightarrow> do { buffer \<leftarrow> put_u8 0 0x02 buffer; put_u16 2 value buffer }
             | WindowScale value \<Rightarrow> do { buffer \<leftarrow> put_u8 0 0x03 buffer; put_u8 2 value buffer }
             | SackPermitted \<Rightarrow> put_u8 0 0x04 buffer
             | SackRange ranges \<Rightarrow> do { buffer \<leftarrow> put_u8 0 0x05 buffer; emit_sack_blocks 0 (sack_list ranges) buffer }
             | Unknown_option kind provided \<Rightarrow>
                 do { buffer \<leftarrow> put_u8 0 kind buffer;
                      if length buffer - 2 = length provided then put_slice 2 provided buffer else None }
             | _ \<Rightarrow> None })"

definition option_emit :: "tcp_option \<Rightarrow> u8 list \<Rightarrow> (u8 list \<times> nat) option" where
  "option_emit opt buffer =
     do { buffer \<leftarrow> option_emit_body opt buffer;
          if option_buffer_len opt \<le> length buffer then Some (buffer, option_buffer_len opt) else None }"

section \<open>Parsing\<close>

lemma option_parse_shorter:
  assumes "option_parse buffer = Some (Inr (rest, opt))"
  shows "length rest < length buffer"
proof (cases buffer)
  case Nil
  then show ?thesis using assms by (simp add: option_parse_def)
next
  case (Cons kind bs)
  show ?thesis
  proof (cases "kind = 0x00 \<or> kind = 0x01")
    case True
    then show ?thesis using assms Cons by (auto simp: option_parse_def)
  next
    case False
    then show ?thesis
      using assms Cons
      by (auto simp: option_parse_def slice_range_def try_then_def Let_def
          split: list.splits option.splits sum.splits if_splits)
  qed
qed

function ack_permitted_loop :: "u8 list \<Rightarrow> (wire_error + bool) option" where
  "ack_permitted_loop options =
     (if options = [] then Some (Inr False)
      else case option_parse options of
          None \<Rightarrow> None
        | Some (Inl e) \<Rightarrow> Some (Inl e)
        | Some (Inr (next_options, option)) \<Rightarrow>
            if option = SackPermitted then Some (Inr True) else ack_permitted_loop next_options)"
  by auto
termination
  by (relation "measure length") (auto dest: option_parse_shorter)

function ack_ranges_loop :: "u8 list \<Rightarrow> (wire_error + sack_ranges) option" where
  "ack_ranges_loop options =
     (if options = [] then Some (Inr (None, None, None))
      else case option_parse options of
          None \<Rightarrow> None
        | Some (Inl e) \<Rightarrow> Some (Inl e)
        | Some (Inr (next_options, option)) \<Rightarrow>
            (case option of SackRange ranges \<Rightarrow> Some (Inr ranges) | _ \<Rightarrow> ack_ranges_loop next_options))"
  by auto
termination
  by (relation "measure length") (auto dest: option_parse_shorter)

definition tcpp_selective_ack_permitted :: "u8 list \<Rightarrow> (wire_error + bool) option" where
  "tcpp_selective_ack_permitted data = do { options \<leftarrow> tcpp_options data; ack_permitted_loop options }"

definition tcpp_selective_ack_ranges :: "u8 list \<Rightarrow> (wire_error + sack_ranges) option" where
  "tcpp_selective_ack_ranges data = do { options \<leftarrow> tcpp_options data; ack_ranges_loop options }"

record parsed_options =
  o_max_seg_size :: "u16 option"
  o_window_scale :: "u8 option"
  o_sack_permitted :: bool
  o_sack_ranges :: sack_ranges

fun note_option :: "tcp_option \<Rightarrow> parsed_options \<Rightarrow> parsed_options" where
  "note_option (MaxSegmentSize value) acc = acc\<lparr>o_max_seg_size := Some value\<rparr>"
| "note_option (WindowScale value) acc = acc\<lparr>o_window_scale := (if value > 14 then Some 14 else Some value)\<rparr>"
| "note_option SackPermitted acc = acc\<lparr>o_sack_permitted := True\<rparr>"
| "note_option (SackRange ranges) acc = acc\<lparr>o_sack_ranges := ranges\<rparr>"
| "note_option _ acc = acc"

function parse_options :: "u8 list \<Rightarrow> parsed_options \<Rightarrow> (wire_error + parsed_options) option" where
  "parse_options options acc =
     (if options = [] then Some (Inr acc)
      else case option_parse options of
          None \<Rightarrow> None
        | Some (Inl e) \<Rightarrow> Some (Inl e)
        | Some (Inr (next_options, option)) \<Rightarrow>
            if option = EndOfList then Some (Inr acc)
            else parse_options next_options (note_option option acc))"
  by auto
termination
  by (relation "measure (\<lambda>(options, acc). length options)") (auto dest: option_parse_shorter)

declare ack_permitted_loop.simps [simp del] ack_ranges_loop.simps [simp del] parse_options.simps [simp del]

fun parse_control :: "bool \<Rightarrow> bool \<Rightarrow> bool \<Rightarrow> bool \<Rightarrow> wire_error + tcp_control" where
  "parse_control False False False False = Inr Ctl_None"
| "parse_control False False False True = Inr Ctl_Psh"
| "parse_control True False False _ = Inr Ctl_Syn"
| "parse_control False True False _ = Inr Ctl_Fin"
| "parse_control False False True _ = Inr Ctl_Rst"
| "parse_control _ _ _ _ = Inl Wire_Error"

definition tcp_parse_fields :: "u8 list \<Rightarrow> (wire_error + tcp_repr) option" where
  "tcp_parse_fields packet =
     do { syn \<leftarrow> tcpp_syn packet; fin \<leftarrow> tcpp_fin packet; rst \<leftarrow> tcpp_rst packet; psh \<leftarrow> tcpp_psh packet;
          try_then (Some (parse_control syn fin rst psh)) (\<lambda>control.
            do { ack \<leftarrow> tcpp_ack packet;
                 ack_number \<leftarrow> (if ack then map_option Some (tcpp_ack_number packet) else Some None);
                 options \<leftarrow> tcpp_options packet;
                 try_then (parse_options options \<lparr>o_max_seg_size = None, o_window_scale = None,
                             o_sack_permitted = False, o_sack_ranges = (None, None, None)\<rparr>) (\<lambda>opts.
                   do { src_port \<leftarrow> tcpp_src_port packet; dst_port \<leftarrow> tcpp_dst_port packet;
                        seq_number \<leftarrow> tcpp_seq_number packet; window_len \<leftarrow> tcpp_window_len packet;
                        payload \<leftarrow> tcpp_payload packet;
                        Some (Inr \<lparr>r_src_port = src_port, r_dst_port = dst_port, r_control = control,
                          r_seq_number = seq_number, r_ack_number = ack_number, r_window_len = window_len,
                          r_window_scale = o_window_scale opts, r_max_seg_size = o_max_seg_size opts,
                          r_sack_permitted = o_sack_permitted opts, r_sack_ranges = o_sack_ranges opts,
                          r_payload = payload\<rparr>) }) }) }"

definition tcp_parse ::
  "u8 list \<Rightarrow> ip_address \<Rightarrow> ip_address \<Rightarrow> checksum_caps \<Rightarrow> (wire_error + tcp_repr) option" where
  "tcp_parse packet src_addr dst_addr caps =
     try_then (tcpp_check_len packet) (\<lambda>_.
       do { src_port \<leftarrow> tcpp_src_port packet;
            if src_port = 0 then Some (Inl Wire_Error)
            else do {
              dst_port \<leftarrow> tcpp_dst_port packet;
              if dst_port = 0 then Some (Inl Wire_Error)
              else do {
                valid \<leftarrow> (if checksum_rx (caps_tcp caps) then tcpp_verify_checksum src_addr dst_addr packet else Some True);
                if \<not> valid then Some (Inl Wire_Error) else tcp_parse_fields packet } } })"

section \<open>Emitting\<close>

text \<open>One option more: the octets of the option slice that are done, and those still to write.\<close>

definition emit_option :: "tcp_option \<Rightarrow> u8 list \<times> u8 list \<Rightarrow> (u8 list \<times> u8 list) option" where
  "emit_option opt region =
     do { (buffer, len) \<leftarrow> option_emit opt (snd region);
          Some (fst region @ take len buffer, drop len buffer) }"

definition emit_options :: "tcp_repr \<Rightarrow> u8 list \<Rightarrow> u8 list option" where
  "emit_options repr options =
     do { let region = ([], options);
          region \<leftarrow> (case r_max_seg_size repr of Some value \<Rightarrow> emit_option (MaxSegmentSize value) region
                                                | None \<Rightarrow> Some region);
          region \<leftarrow> (case r_window_scale repr of Some value \<Rightarrow> emit_option (WindowScale value) region
                                                | None \<Rightarrow> Some region);
          region \<leftarrow> (if r_sack_permitted repr then emit_option SackPermitted region
                      else if r_ack_number repr \<noteq> None \<and> sack_list (r_sack_ranges repr) \<noteq> []
                      then emit_option (SackRange (r_sack_ranges repr)) region
                      else Some region);
          region \<leftarrow> (if snd region \<noteq> [] then emit_option EndOfList region else Some region);
          Some (fst region @ snd region) }"

definition emit_control :: "tcp_control \<Rightarrow> u8 list \<Rightarrow> u8 list option" where
  "emit_control control data = (case control of
      Ctl_None \<Rightarrow> Some data
    | Ctl_Psh \<Rightarrow> tcpp_set_psh True data
    | Ctl_Syn \<Rightarrow> tcpp_set_syn True data
    | Ctl_Fin \<Rightarrow> tcpp_set_fin True data
    | Ctl_Rst \<Rightarrow> tcpp_set_rst True data)"

definition tcp_emit ::
  "tcp_repr \<Rightarrow> ip_address \<Rightarrow> ip_address \<Rightarrow> checksum_caps \<Rightarrow> u8 list \<Rightarrow> u8 list option" where
  "tcp_emit repr src_addr dst_addr caps packet =
     do { packet \<leftarrow> tcpp_set_src_port (r_src_port repr) packet;
          packet \<leftarrow> tcpp_set_dst_port (r_dst_port repr) packet;
          packet \<leftarrow> tcpp_set_seq_number (r_seq_number repr) packet;
          packet \<leftarrow> tcpp_set_ack_number (case r_ack_number repr of Some a \<Rightarrow> a | None \<Rightarrow> 0) packet;
          packet \<leftarrow> tcpp_set_window_len (r_window_len repr) packet;
          packet \<leftarrow> tcpp_set_header_len (of_nat (repr_header_len repr)) packet;
          packet \<leftarrow> tcpp_clear_flags packet;
          packet \<leftarrow> emit_control (r_control repr) packet;
          packet \<leftarrow> tcpp_set_ack (r_ack_number repr \<noteq> None) packet;
          options \<leftarrow> tcpp_options packet;
          options \<leftarrow> emit_options repr options;
          packet \<leftarrow> tcpp_write_options options packet;
          packet \<leftarrow> tcpp_set_urgent_at 0 packet;
          packet \<leftarrow> tcpp_write_payload (r_payload repr) packet;
          if checksum_tx (caps_tcp caps) then tcpp_fill_checksum src_addr dst_addr packet
          else tcpp_set_checksum 0 packet }"

lemmas tcpp_access = tcpp_src_port_def tcpp_dst_port_def tcpp_seq_number_def tcpp_ack_number_def tcpp_fin_def
  tcpp_syn_def tcpp_rst_def tcpp_psh_def tcpp_ack_def tcpp_header_len_def tcpp_window_len_def tcpp_checksum_def
  tcpp_options_def tcpp_payload_def tcpp_set_src_port_def tcpp_set_dst_port_def tcpp_set_seq_number_def
  tcpp_set_ack_number_def tcpp_clear_flags_def tcpp_set_fin_def tcpp_set_syn_def tcpp_set_rst_def tcpp_set_psh_def
  tcpp_set_ack_def tcpp_set_header_len_def tcpp_set_window_len_def tcpp_set_checksum_def tcpp_set_urgent_at_def
  tcpp_write_options_def tcpp_write_payload_def

end
