(* ===== verification/Tcp_Codec.thy ===== *)
theory Tcp_Codec
  imports Tcp_Wire
begin

text \<open>
  What \<open>Tcp_Wire\<close> guarantees: parsing is total, emitting and parsing are inverse, and the
  checksum written is the one verified.
\<close>

unbundle bit_operations_syntax

section \<open>Parsing never panics\<close>

lemma sack_block_total: "length data mod 8 = 0 \<Longrightarrow> sack_block data i \<noteq> None"
proof -
  assume "length data mod 8 = 0"
  then have "i * 8 < length data \<Longrightarrow> i * 8 + 8 \<le> length data" by presburger
  then show ?thesis by (auto simp: sack_block_def Let_def)
qed

lemma option_body_total:
  assumes "kind \<noteq> 0x00" "kind \<noteq> 0x01" "length data = len - 2"
  shows "option_body kind len data \<noteq> None"
proof (cases "kind = 0x05 \<and> \<not> (len < 10 \<or> (len - 2) mod 8 \<noteq> 0)")
  case True
  then have "length data mod 8 = 0" using assms(3) by simp
  then obtain a b c where "sack_block data 0 = Some a" "sack_block data 1 = Some b" "sack_block data 2 = Some c"
    using sack_block_total by (metis option.exhaust)
  with True show ?thesis by (simp add: option_body_def)
qed (use assms in \<open>auto simp: option_body_def\<close>)

lemma option_parse_total: "option_parse buffer \<noteq> None"
proof -
  have tail: "try_then (option_body kind (unat l) data)
      (\<lambda>opt. do { next \<leftarrow> slice_range (unat l) n buffer; Some (Inr (next, opt)) }) \<noteq> None"
    if sl: "slice_range 2 (unat l) buffer = Some data" and k: "kind \<noteq> 0" "kind \<noteq> 1" and n: "n = length buffer"
    for kind l data n and buffer :: "u8 list"
  proof -
    from sl have len: "length data = unat l - 2" "unat l \<le> length buffer"
      by (auto simp: slice_range_def split: if_splits)
    obtain r where "option_body kind (unat l) data = Some r" using option_body_total [OF k len(1)] by blast
    then show ?thesis using len(2) n by (cases r) simp_all
  qed
  show ?thesis
  proof (cases buffer)
    case (Cons kind bs)
    show ?thesis
    proof (cases "bs = [] \<or> kind = 0 \<or> kind = 1")
      case True
      then show ?thesis using Cons by (auto simp: option_parse_def)
    next
      case False
      then obtain l cs where bs: "bs = l # cs" by (cases bs) auto
      show ?thesis
        using False Cons bs tail [of l buffer _ kind "length buffer"]
        by (cases "slice_range 2 (unat l) buffer") (simp_all add: option_parse_def Let_def)
    qed
  qed (simp add: option_parse_def)
qed

lemma parse_options_total: "parse_options options acc \<noteq> None"
proof (induction options acc rule: parse_options.induct)
  case (1 options acc)
  then show ?case
    using option_parse_total [of options]
    by (subst parse_options.simps) (auto split: option.splits sum.splits)
qed

lemma header_len_le: "tcpp_header_len data = Some h \<Longrightarrow> unat h \<le> 60"
proof -
  assume "tcpp_header_len data = Some h"
  then obtain raw :: u16 where h: "h = ucast (drop_bit 12 raw * 4)"
    by (auto simp: tcpp_header_len_def bind_eq_Some_conv)
  have d: "unat (drop_bit 12 raw) \<le> 15" using u16_less [of raw] by (simp add: unat_drop_bit_eq drop_bit_eq_div [where 'a = nat])
  then have "unat (drop_bit 12 raw * 4) = unat (drop_bit 12 raw) * 4" by (subst unat_word_ariths) simp
  then show "unat h \<le> 60" using d by (simp add: h unat_ucast_mod)
qed

lemma check_len_ok:
  assumes "tcpp_check_len data = Some (Inr ())"
  obtains h where "tcpp_header_len data = Some h" "20 \<le> unat h" "unat h \<le> length data" "20 \<le> length data"
  using assms by (auto simp: tcpp_check_len_def bind_eq_Some_conv Let_def not_less split: if_splits)

lemma check_len_total: "tcpp_check_len data \<noteq> None"
  by (simp add: tcpp_check_len_def tcpp_header_len_def Let_def not_less)

lemma tcp_parse_total:
  assumes "addr_version src_addr = addr_version dst_addr"
  shows "tcp_parse packet src_addr dst_addr caps \<noteq> None"
proof (cases "tcpp_check_len packet = Some (Inr ())")
  case True
  then obtain h where h: "tcpp_header_len packet = Some h" "20 \<le> unat h" "unat h \<le> length packet" "20 \<le> length packet"
    by (rule check_len_ok)
  have ph: "\<exists>c. pseudo_header src_addr dst_addr Tcp n = Some c" for n
    using assms by (cases src_addr; cases dst_addr) simp_all
  then have "\<exists>v. tcpp_verify_checksum src_addr dst_addr packet = Some v"
    by (auto simp: tcpp_verify_checksum_def) (metis bind.bind_lunit)
  moreover have "tcp_parse_fields packet \<noteq> None"
  proof -
    obtain opts where "parse_options (sub_slice 20 (unat h - 20) packet) \<lparr>o_max_seg_size = None, o_window_scale = None,
        o_sack_permitted = False, o_sack_ranges = (None, None, None)\<rparr> = Some opts"
      using parse_options_total by blast
    then show ?thesis
      using h
      by (cases opts)
        (auto simp: tcp_parse_fields_def tcpp_options_def tcpp_payload_def tcpp_syn_def tcpp_fin_def tcpp_rst_def
          tcpp_psh_def tcpp_ack_def tcpp_ack_number_def tcpp_src_port_def tcpp_dst_port_def tcpp_seq_number_def
          tcpp_window_len_def try_then_def split: sum.splits)
  qed
  ultimately show ?thesis
    using h(4) True by (auto simp: tcp_parse_def tcpp_src_port_def tcpp_dst_port_def)
next
  case False
  then show ?thesis
    using check_len_total [of packet] by (cases "tcpp_check_len packet") (auto simp: tcp_parse_def try_then_def split: sum.splits)
qed

text \<open>Parsing a TCP segment returns on every buffer, of any length and any content: truncated headers, bad
  header lengths and malformed options are errors and never a panic.\<close>

theorem tcp_parse_never_panics:
  assumes "addr_version src_addr = addr_version dst_addr"
  shows "tcp_parse packet src_addr dst_addr caps \<noteq> None"
  using assms by (rule tcp_parse_total)

theorem tcp_parse_never_panics_witness:
  "tcp_parse (replicate 12 0 @ [0x60, 0x02] @ replicate 6 0 @ [0x08, 0xff, 0, 0]) (Ipv4 [10, 0, 0, 1]) (Ipv4 [10, 0, 0, 2]) checksum_caps_ignored \<noteq> None"
  by (rule tcp_parse_never_panics) simp

section \<open>Options emitted and parsed\<close>

lemma poke_Cons [simp]: "poke (Suc i) xs (b # bs) = b # poke i xs bs"
  by (simp add: poke_def blit_def)

lemma poke_0 [simp]: "length xs \<le> length bs \<Longrightarrow> poke 0 xs bs = xs @ drop (length xs) bs"
  by (simp add: poke_def blit_def)

fun option_bytes :: "tcp_option \<Rightarrow> u8 list" where
  "option_bytes (MaxSegmentSize v) = [0x02, 0x04] @ be_bytes 2 (unat v)"
| "option_bytes (WindowScale v) = [0x03, 0x03, v]"
| "option_bytes SackPermitted = [0x04, 0x02]"
| "option_bytes (SackRange rs) = [0x05, of_nat (length (sack_list rs) * 8 + 2)]
     @ concat (map (\<lambda>(a, b). be_bytes 4 (unat a) @ be_bytes 4 (unat b)) (sack_list rs))"
| "option_bytes _ = []"

lemma length_concat_blocks: "length (concat (map (\<lambda>(a :: u32, b :: u32). be_bytes 4 (unat a) @ be_bytes 4 (unat b)) rs)) = 8 * length rs"
  by (induction rs) auto

lemma emit_sack_blocks_eq:
  assumes "i * 8 + 2 + 8 * length rs \<le> length buffer"
  shows "emit_sack_blocks i rs buffer = Some (take (i * 8 + 2) buffer
     @ concat (map (\<lambda>(a, b). be_bytes 4 (unat a) @ be_bytes 4 (unat b)) rs) @ drop (i * 8 + 2 + 8 * length rs) buffer)"
  using assms
proof (induction rs arbitrary: i buffer)
  case (Cons r rs)
  obtain first second where r: "r = (first, second)" by fastforce
  let ?p = "i * 8 + 2"
  define B where "B = poke (?p + 4) (be_bytes 4 (unat second)) (poke ?p (be_bytes 4 (unat first)) buffer)"
  have b: "B = take ?p buffer @ (be_bytes 4 (unat first) @ be_bytes 4 (unat second)) @ drop (?p + 8) buffer"
    using Cons.prems by (simp add: B_def poke_decompose)
  have "emit_sack_blocks i (r # rs) buffer = emit_sack_blocks (i + 1) rs B"
    using Cons.prems by (simp add: r B_def)
  also have "\<dots> = Some (take ((i + 1) * 8 + 2) B
     @ concat (map (\<lambda>(a, b). be_bytes 4 (unat a) @ be_bytes 4 (unat b)) rs) @ drop ((i + 1) * 8 + 2 + 8 * length rs) B)"
    by (rule Cons.IH) (use Cons.prems in \<open>simp add: B_def\<close>)
  finally show ?case using Cons.prems by (simp add: b r add.commute add.left_commute)
qed simp

lemma list_ge2: "2 \<le> length buffer \<Longrightarrow> \<exists>a b rest. buffer = a # b # rest"
  by (cases buffer; cases "tl buffer") auto

lemma option_emit_eq:
  assumes "option_bytes opt \<noteq> []" "option_buffer_len opt \<le> length buffer" 
  shows "option_emit opt buffer = Some (option_bytes opt @ drop (option_buffer_len opt) buffer, option_buffer_len opt)"
proof -
  have "2 \<le> length buffer" using assms by (cases opt) auto
  then obtain a b rest where buffer: "buffer = a # b # rest" using list_ge2 by blast
  show ?thesis
  proof (cases opt)
    case (SackRange rs)
    then show ?thesis
      using assms by (simp add: option_emit_def option_emit_body_def buffer emit_sack_blocks_eq
          length_concat_blocks mult.commute)
  next
    case (WindowScale v)
    then show ?thesis using assms by (cases rest) (auto simp: option_emit_def option_emit_body_def buffer numeral_2_eq_2)
  qed (use assms in \<open>auto simp: option_emit_def option_emit_body_def buffer numeral_2_eq_2\<close>)
qed

lemma length_option_bytes: "option_bytes opt \<noteq> [] \<Longrightarrow> length (option_bytes opt) = option_buffer_len opt"
  by (cases opt) (auto simp: length_concat_blocks)

definition packed :: "sack_ranges \<Rightarrow> bool" where
  "packed rs \<longleftrightarrow> (case rs of (a, b, c) \<Rightarrow> (b \<noteq> None \<longrightarrow> a \<noteq> None) \<and> (c \<noteq> None \<longrightarrow> b \<noteq> None))"

lemma sub_slice_append:
  "length xs = n \<Longrightarrow> sub_slice 0 n (xs @ ys) = xs"
  "length xs \<le> i \<Longrightarrow> sub_slice i n (xs @ ys) = sub_slice (i - length xs) n ys"
  by (simp_all add: sub_slice_def)

lemma sub_slice_all: "n = length xs \<Longrightarrow> sub_slice 0 n xs = xs"
  by (simp add: sub_slice_def)

lemma sub_slice_Cons: "0 < i \<Longrightarrow> sub_slice i n (x # xs) = sub_slice (i - 1) n xs"
  by (cases i) (simp_all add: sub_slice_def)

lemma option_parse_kind:
  assumes "kind \<noteq> 0x00" "kind \<noteq> 0x01" "unat l = length data + 2" "option_body kind (unat l) data = Some (Inr opt)"
  shows "option_parse (kind # l # data @ rest) = Some (Inr (rest, opt))"
  using assms by (simp add: option_parse_def Let_def sub_slice_Cons sub_slice_append)
    (simp add: sub_slice_def)

lemma option_body_sack:
  assumes "packed rs" "sack_list rs \<noteq> []"
  shows "option_body 0x05 (length (sack_list rs) * 8 + 2)
     (concat (map (\<lambda>(a, b). be_bytes 4 (unat a) @ be_bytes 4 (unat b)) (sack_list rs))) = Some (Inr (SackRange rs))"
proof -
  consider x y where "rs = (Some (x, y), None, None)" | x y x' y' where "rs = (Some (x, y), Some (x', y'), None)"
    | x y x' y' x'' y'' where "rs = (Some (x, y), Some (x', y'), Some (x'', y''))"
  proof -
    obtain a b c where rs: "rs = (a, b, c)" by (cases rs)
    show thesis
      using assms that by (cases a; cases b; cases c) (auto simp: rs packed_def sack_list_def map_filter_simps)
  qed
  then show ?thesis
    by cases (simp_all add: option_body_def sack_list_def map_filter_simps sack_block_def sub_slice_append sub_slice_all)
qed

lemma option_roundtrip:
  assumes "option_bytes opt \<noteq> []" "\<And>rs. opt = SackRange rs \<Longrightarrow> packed rs \<and> sack_list rs \<noteq> []"
  shows "option_parse (option_bytes opt @ rest) = Some (Inr (rest, opt))"
proof (cases opt)
  case (SackRange rs)
  have le: "length (sack_list rs) \<le> 3"
    by (cases rs) (auto simp: sack_list_def map_filter_simps split: option.splits)
  let ?data = "concat (map (\<lambda>(a, b). be_bytes 4 (unat a) @ be_bytes 4 (unat b)) (sack_list rs))"
  let ?l = "of_nat (length (sack_list rs) * 8 + 2) :: u8"
  have l: "unat ?l = length (sack_list rs) * 8 + 2" using le by (simp only: unat_of_nat_u8) simp
  have "option_parse (0x05 # ?l # ?data @ rest) = Some (Inr (rest, SackRange rs))"
  proof (rule option_parse_kind)
    show "option_body 0x05 (unat ?l) ?data = Some (Inr (SackRange rs))"
      unfolding l using option_body_sack assms(2) [OF SackRange] by blast
  qed (simp_all only: l length_concat_blocks, simp_all)
  then show ?thesis using SackRange by simp
next
  case (MaxSegmentSize v)
  have "option_parse (0x02 # 0x04 # be_bytes 2 (unat v) @ rest) = Some (Inr (rest, MaxSegmentSize v))"
    by (rule option_parse_kind) (simp_all add: option_body_def sub_slice_all)
  then show ?thesis using MaxSegmentSize by simp
next
  case (WindowScale v)
  have "option_parse (0x03 # 0x03 # [v] @ rest) = Some (Inr (rest, WindowScale v))"
    by (rule option_parse_kind) (simp_all add: option_body_def)
  then show ?thesis using WindowScale by simp
next
  case SackPermitted
  have "option_parse (0x04 # 0x02 # [] @ rest) = Some (Inr (rest, SackPermitted))"
    by (rule option_parse_kind) (simp_all add: option_body_def)
  then show ?thesis using SackPermitted by simp
qed (use assms(1) in simp_all)

definition emitted_options :: "tcp_repr \<Rightarrow> tcp_option list" where
  "emitted_options repr = (case r_max_seg_size repr of Some v \<Rightarrow> [MaxSegmentSize v] | None \<Rightarrow> [])
     @ (case r_window_scale repr of Some v \<Rightarrow> [WindowScale v] | None \<Rightarrow> [])
     @ (if r_sack_permitted repr then [SackPermitted]
        else if r_ack_number repr \<noteq> None \<and> sack_list (r_sack_ranges repr) \<noteq> [] then [SackRange (r_sack_ranges repr)] else [])"

lemma emit_option_eq:
  assumes "option_bytes opt \<noteq> []" "option_buffer_len opt \<le> length rest"
  shows "emit_option opt (written, rest) = Some (written @ option_bytes opt, drop (option_buffer_len opt) rest)"
  using option_emit_eq [OF assms] length_option_bytes [OF assms(1)] by (simp add: emit_option_def)

lemma emit_end_of_list: "rest \<noteq> [] \<Longrightarrow> emit_option EndOfList (written, rest) = Some (written @ [0], replicate (length rest - 1) 0)"
  by (cases rest) (simp_all add: emit_option_def option_emit_def option_emit_body_def)

lemma emit_options_eq:
  assumes "sum_list (map option_buffer_len (emitted_options repr)) \<le> length options"
  shows "emit_options repr options = Some (concat (map option_bytes (emitted_options repr))
     @ replicate (length options - sum_list (map option_buffer_len (emitted_options repr))) 0)"
proof -
  let ?n = "sum_list (map option_buffer_len (emitted_options repr))"
  let ?region = "(concat (map option_bytes (emitted_options repr)), drop ?n options)"
  have finish: "do { region \<leftarrow> (if snd region \<noteq> [] then emit_option EndOfList region else Some region);
          Some (fst region @ snd region) } = Some (fst region @ replicate (length (snd region)) 0)" for region
    by (cases region; cases "snd region") (simp_all add: emit_end_of_list)
  have "do { region \<leftarrow> (case r_max_seg_size repr of Some value \<Rightarrow> emit_option (MaxSegmentSize value) ([], options)
                                                | None \<Rightarrow> Some ([], options));
          region \<leftarrow> (case r_window_scale repr of Some value \<Rightarrow> emit_option (WindowScale value) region
                                                | None \<Rightarrow> Some region);
          (if r_sack_permitted repr then emit_option SackPermitted region
                      else if r_ack_number repr \<noteq> None \<and> sack_list (r_sack_ranges repr) \<noteq> []
                      then emit_option (SackRange (r_sack_ranges repr)) region
                      else Some region) } = Some ?region"
    using assms
    by (cases "r_max_seg_size repr"; cases "r_window_scale repr") (auto simp: emitted_options_def emit_option_eq split: if_splits)
  then have "emit_options repr options = do { region \<leftarrow> Some ?region;
          region \<leftarrow> (if snd region \<noteq> [] then emit_option EndOfList region else Some region);
          Some (fst region @ snd region) }"
    unfolding emit_options_def Let_def by (simp only: bind_assoc [symmetric])
  also have "\<dots> = Some (fst ?region @ replicate (length (snd ?region)) 0)"
    by (simp only: bind.bind_lunit finish)
  finally show ?thesis by simp
qed

lemma parse_options_zeros: "parse_options (replicate n 0) acc = Some (Inr acc)"
  by (cases n) (simp_all add: parse_options.simps option_parse_def)

lemma parse_options_roundtrip:
  assumes "\<And>opt. opt \<in> set opts \<Longrightarrow> option_bytes opt \<noteq> [] \<and> (\<forall>rs. opt = SackRange rs \<longrightarrow> packed rs \<and> sack_list rs \<noteq> [])"
  shows "parse_options (concat (map option_bytes opts) @ replicate n 0) acc = Some (Inr (fold note_option opts acc))"
  using assms
proof (induction opts arbitrary: acc)
  case (Cons opt opts)
  let ?rest = "concat (map option_bytes opts) @ replicate n 0"
  have "option_parse (option_bytes opt @ ?rest) = Some (Inr (?rest, opt))"
    by (rule option_roundtrip) (use Cons.prems in auto)
  moreover have "option_bytes opt \<noteq> []" using Cons.prems by simp
  moreover from this have "opt \<noteq> EndOfList" by auto
  ultimately have "parse_options (option_bytes opt @ ?rest) acc = parse_options ?rest (note_option opt acc)"
    by (simp add: parse_options.simps [of "option_bytes opt @ ?rest"])
  moreover have "parse_options ?rest (note_option opt acc) = Some (Inr (fold note_option opts (note_option opt acc)))"
    by (rule Cons.IH) (use Cons.prems in auto)
  ultimately show ?case by simp
qed (simp add: parse_options_zeros)

text \<open>What a representation must satisfy to survive the wire.\<close>

definition wire_repr :: "tcp_repr \<Rightarrow> bool" where
  "wire_repr repr \<longleftrightarrow> r_src_port repr \<noteq> 0 \<and> r_dst_port repr \<noteq> 0 \<and> (\<forall>w. r_window_scale repr = Some w \<longrightarrow> w \<le> 14)
     \<and> packed (r_sack_ranges repr)
     \<and> (r_sack_ranges repr \<noteq> (None, None, None) \<longrightarrow> \<not> r_sack_permitted repr \<and> r_ack_number repr \<noteq> None)"

lemma sack_list_Nil: "sack_list rs = [] \<longleftrightarrow> rs = (None, None, None)"
  by (cases rs) (auto simp: sack_list_def map_filter_simps split: option.splits)

lemma sack_range_len_list: "sack_range_len rs = 8 * length (sack_list rs)"
  by (cases rs) (auto simp: sack_range_len_def sack_list_def map_filter_simps split: option.splits)

lemma emitted_options_len:
  "wire_repr repr \<Longrightarrow> sum_list (map option_buffer_len (emitted_options repr)) = repr_options_len repr"
  by (auto simp: wire_repr_def emitted_options_def repr_options_len_def sack_range_len_list sack_list_Nil
      split: option.splits)

lemma note_emitted_options:
  "wire_repr repr \<Longrightarrow> fold note_option (emitted_options repr)
     \<lparr>o_max_seg_size = None, o_window_scale = None, o_sack_permitted = False, o_sack_ranges = (None, None, None)\<rparr>
   = \<lparr>o_max_seg_size = r_max_seg_size repr, o_window_scale = r_window_scale repr,
      o_sack_permitted = r_sack_permitted repr, o_sack_ranges = r_sack_ranges repr\<rparr>"
  by (auto simp: wire_repr_def emitted_options_def sack_list_Nil not_less split: option.splits)

lemma options_roundtrip:
  assumes "wire_repr repr" "length options = repr_header_len repr - 20"
  obtains bytes where "emit_options repr options = Some bytes" "length bytes = length options"
    "parse_options bytes \<lparr>o_max_seg_size = None, o_window_scale = None, o_sack_permitted = False, o_sack_ranges = (None, None, None)\<rparr>
     = Some (Inr \<lparr>o_max_seg_size = r_max_seg_size repr, o_window_scale = r_window_scale repr,
                  o_sack_permitted = r_sack_permitted repr, o_sack_ranges = r_sack_ranges repr\<rparr>)"
proof -
  let ?opts = "emitted_options repr"
  have le: "sum_list (map option_buffer_len ?opts) \<le> length options"
    unfolding assms(2) emitted_options_len [OF assms(1)] repr_header_len_eq Let_def
    using round_up_4(1) [of "20 + repr_options_len repr"] by linarith
  have valid: "option_bytes opt \<noteq> [] \<and> (\<forall>rs. opt = SackRange rs \<longrightarrow> packed rs \<and> sack_list rs \<noteq> [])" if "opt \<in> set ?opts" for opt
    using that assms(1) by (auto simp: emitted_options_def wire_repr_def split: option.splits if_splits)
  let ?bytes = "concat (map option_bytes ?opts) @ replicate (length options - sum_list (map option_buffer_len ?opts)) 0"
  have "length (concat (map option_bytes opts)) = sum_list (map option_buffer_len opts)" if "\<forall>opt \<in> set opts. option_bytes opt \<noteq> []" for opts
    using that by (induction opts) (simp_all add: length_option_bytes)
  then have "length ?bytes = length options" using le valid by simp
  then show thesis
    using that [OF emit_options_eq [OF le]] parse_options_roundtrip [OF valid] note_emitted_options [OF assms(1)] by simp
qed

declare poke_0 [simp del]

section \<open>The flags field\<close>

definition control_bits :: "tcp_control \<Rightarrow> u16" where
  "control_bits c = (case c of Ctl_None \<Rightarrow> 0 | Ctl_Psh \<Rightarrow> 8 | Ctl_Syn \<Rightarrow> 2 | Ctl_Fin \<Rightarrow> 1 | Ctl_Rst \<Rightarrow> 4)"

definition flags_word :: "nat \<Rightarrow> tcp_control \<Rightarrow> bool \<Rightarrow> u16" where
  "flags_word hl c a = push_bit 12 (of_nat (hl div 4)) OR control_bits c OR (if a then 0x10 else 0)"

lemma header_len_cases:
  "repr_header_len r \<in> {20, 24, 28, 32, 36, 40, 44, 48, 52, 56}"
proof -
  obtain k where k: "repr_header_len r = 4 * k" using repr_header_len_bounds(3) [of r] by (auto simp: mod_eq_0_iff_dvd elim: dvdE)
  then have "5 \<le> k" "k \<le> 14" using repr_header_len_bounds(1,2) [of r] by simp_all
  then have "k \<in> {5, 6, 7, 8, 9, 10, 11, 12, 13, 14}" unfolding insert_iff empty_iff by arith
  then show ?thesis using k by auto
qed

lemma flags_cleared:
  assumes "hl \<in> {20, 24, 28, 32, 36, 40, 44, 48, 52, 56}"
  shows "((raw AND NOT 0xf000) OR push_bit 12 (ucast (of_nat hl :: u8) div 4)) AND NOT 0x0fff = (push_bit 12 (of_nat (hl div 4)) :: u16)"
proof -
  have raw: "(raw AND 0x0fff) AND 0xf000 = (0 :: u16)" by (simp add: and.assoc)
  have n: "NOT 0xf000 = (0x0fff :: u16)" "NOT 0x0fff = (0xf000 :: u16)" by simp_all
  show ?thesis unfolding n bit.conj_disj_distrib2 raw using assms by auto
qed

lemma flags_control:
  assumes "hl \<in> {20, 24, 28, 32, 36, 40, 44, 48, 52, 56}"
  shows "(if a then push_bit 12 (of_nat (hl div 4)) OR control_bits c OR 0x10
     else (push_bit 12 (of_nat (hl div 4)) OR control_bits c) AND NOT 0x10) = flags_word hl c a"
  using assms by (cases c; cases a) (auto simp: flags_word_def control_bits_def)

lemma flags_read:
  assumes "hl \<in> {20, 24, 28, 32, 36, 40, 44, 48, 52, 56}"
  shows "flags_word hl c a AND 0x001 \<noteq> 0 \<longleftrightarrow> c = Ctl_Fin" "flags_word hl c a AND 0x002 \<noteq> 0 \<longleftrightarrow> c = Ctl_Syn"
    "flags_word hl c a AND 0x004 \<noteq> 0 \<longleftrightarrow> c = Ctl_Rst" "flags_word hl c a AND 0x008 \<noteq> 0 \<longleftrightarrow> c = Ctl_Psh"
    "flags_word hl c a AND 0x010 \<noteq> 0 \<longleftrightarrow> a" "unat (ucast (drop_bit 12 (flags_word hl c a) * 4) :: u8) = hl"
  using assms by (cases c; cases a; auto simp: flags_word_def control_bits_def)+

lemma parse_control_flags: "parse_control (c = Ctl_Syn) (c = Ctl_Fin) (c = Ctl_Rst) (c = Ctl_Psh) = Inr c"
  by (cases c) simp_all

lemma emit_control_eq:
  assumes "14 \<le> length data"
  shows "emit_control c data = Some (if c = Ctl_None then data
     else poke 12 (be_bytes 2 (unat (be_u16 (sub_slice 12 2 data) OR control_bits c))) data)"
  using assms by (cases c) (simp_all add: emit_control_def tcpp_set_psh_def tcpp_set_syn_def tcpp_set_fin_def tcpp_set_rst_def
      control_bits_def)

lemma emit_flags:
  assumes "hl \<in> {20, 24, 28, 32, 36, 40, 44, 48, 52, 56}" "14 \<le> length p"
  shows "do { p \<leftarrow> tcpp_set_header_len (of_nat hl) p; p \<leftarrow> tcpp_clear_flags p; p \<leftarrow> emit_control c p; tcpp_set_ack a p }
    = Some (poke 12 (be_bytes 2 (unat (flags_word hl c a))) p)"
proof -
  let ?cleared = "poke 12 (be_bytes 2 (unat (push_bit 12 (of_nat (hl div 4)) :: u16))) p"
  have "do { p \<leftarrow> tcpp_set_header_len (of_nat hl) p; tcpp_clear_flags p } = Some ?cleared"
    using assms(2) flags_cleared [OF assms(1), of "be_u16 (sub_slice 12 2 p)"]
    by (simp add: tcpp_set_header_len_def tcpp_clear_flags_def)
  moreover have "do { p \<leftarrow> emit_control c ?cleared; tcpp_set_ack a p } = Some (poke 12 (be_bytes 2 (unat (flags_word hl c a))) p)"
    using assms(2) flags_control [OF assms(1), of a c]
    by (cases a; cases c) (simp_all add: emit_control_eq tcpp_set_ack_def control_bits_def or.assoc)
  ultimately show ?thesis by (simp only: bind_assoc [symmetric]) simp
qed

section \<open>Segments emitted and parsed\<close>

definition emitted_body :: "tcp_repr \<Rightarrow> u8 list \<Rightarrow> u8 list \<Rightarrow> u8 list" where
  "emitted_body repr bytes packet =
     poke (repr_header_len repr) (r_payload repr) (poke 18 (be_bytes 2 0) (poke 20 bytes
       (poke 12 (be_bytes 2 (unat (flags_word (repr_header_len repr) (r_control repr) (r_ack_number repr \<noteq> None))))
         (poke 14 (be_bytes 2 (unat (r_window_len repr)))
           (poke 8 (be_bytes 4 (unat (case r_ack_number repr of Some a \<Rightarrow> a | None \<Rightarrow> 0)))
             (poke 4 (be_bytes 4 (unat (r_seq_number repr))) (poke 2 (be_bytes 2 (unat (r_dst_port repr)))
               (poke 0 (be_bytes 2 (unat (r_src_port repr))) packet))))))))"

lemma tcp_emit_body:
  assumes len: "length packet = repr_buffer_len repr"
    and bytes: "\<And>options. length options = repr_header_len repr - 20 \<Longrightarrow> \<exists>b. emit_options repr options = Some b"
  obtains options bytes where "emit_options repr options = Some bytes" "length options = repr_header_len repr - 20"
    "length bytes = length options \<Longrightarrow> tcp_emit repr src_addr dst_addr caps packet =
      (if checksum_tx (caps_tcp caps) then tcpp_fill_checksum src_addr dst_addr (emitted_body repr bytes packet)
       else tcpp_set_checksum 0 (emitted_body repr bytes packet))"
proof -
  let ?hl = "repr_header_len repr"
  note hl = header_len_cases [of repr]
  have lens: "20 \<le> ?hl" "?hl + length (r_payload repr) = length packet"
    using repr_header_len_bounds(1) [of repr] len by (simp_all add: repr_buffer_len_def)
  define p5 where "p5 = poke 14 (be_bytes 2 (unat (r_window_len repr)))
           (poke 8 (be_bytes 4 (unat (case r_ack_number repr of Some a \<Rightarrow> a | None \<Rightarrow> 0)))
             (poke 4 (be_bytes 4 (unat (r_seq_number repr))) (poke 2 (be_bytes 2 (unat (r_dst_port repr)))
               (poke 0 (be_bytes 2 (unat (r_src_port repr))) packet))))"
  define p9 where "p9 = poke 12 (be_bytes 2 (unat (flags_word ?hl (r_control repr) (r_ack_number repr \<noteq> None)))) p5"
  have len5: "length p5 = length packet" and len9: "length p9 = length packet" by (simp_all add: p5_def p9_def)
  have h9: "tcpp_header_len p9 = Some (ucast (drop_bit 12 (flags_word ?hl (r_control repr) (r_ack_number repr \<noteq> None)) * 4))"
    using lens by (simp add: tcpp_header_len_def p9_def len5)
  have o9: "tcpp_options p9 = Some (sub_slice 20 (?hl - 20) p9)"
    using lens by (simp add: tcpp_options_def h9 flags_read(6) [OF hl] len9)
  let ?options = "sub_slice 20 (?hl - 20) p9"
  have lo: "length ?options = ?hl - 20" using lens len9 by simp
  obtain b where b: "emit_options repr ?options = Some b" using bytes [OF lo] by blast
  have "tcp_emit repr src_addr dst_addr caps packet =
      (if checksum_tx (caps_tcp caps) then tcpp_fill_checksum src_addr dst_addr (emitted_body repr b packet)
       else tcpp_set_checksum 0 (emitted_body repr b packet))" if lb: "length b = length ?options"
  proof -
    have pay: "tcpp_header_len (poke 18 (be_bytes 2 0) (poke 20 b p9))
        = Some (ucast (drop_bit 12 (flags_word ?hl (r_control repr) (r_ack_number repr \<noteq> None)) * 4))"
      using lens len9 len5 by (simp add: tcpp_header_len_def p9_def)
    have "tcp_emit repr src_addr dst_addr caps packet = do {
          p \<leftarrow> do { p \<leftarrow> tcpp_set_header_len (of_nat ?hl) p5; p \<leftarrow> tcpp_clear_flags p; p \<leftarrow> emit_control (r_control repr) p;
                   tcpp_set_ack (r_ack_number repr \<noteq> None) p };
          options \<leftarrow> tcpp_options p;
          options \<leftarrow> emit_options repr options;
          packet \<leftarrow> tcpp_write_options options p;
          packet \<leftarrow> tcpp_set_urgent_at 0 packet;
          packet \<leftarrow> tcpp_write_payload (r_payload repr) packet;
          if checksum_tx (caps_tcp caps) then tcpp_fill_checksum src_addr dst_addr packet
          else tcpp_set_checksum 0 packet }"
      using lens by (simp add: tcp_emit_def tcpp_set_src_port_def tcpp_set_dst_port_def tcpp_set_seq_number_def
          tcpp_set_ack_number_def tcpp_set_window_len_def p5_def)
    also have "\<dots> = do { packet \<leftarrow> tcpp_write_options b p9;
          packet \<leftarrow> tcpp_set_urgent_at 0 packet;
          packet \<leftarrow> tcpp_write_payload (r_payload repr) packet;
          if checksum_tx (caps_tcp caps) then tcpp_fill_checksum src_addr dst_addr packet
          else tcpp_set_checksum 0 packet }"
    proof -
      have "14 \<le> length p5" using lens len5 by simp
      then show ?thesis by (simp only: emit_flags [OF hl] bind.bind_lunit p9_def [symmetric] o9 b)
    qed
    also have "\<dots> = (if checksum_tx (caps_tcp caps) then tcpp_fill_checksum src_addr dst_addr (emitted_body repr b packet)
       else tcpp_set_checksum 0 (emitted_body repr b packet))"
    proof -
      have body: "emitted_body repr b packet = poke ?hl (r_payload repr) (poke 18 (be_bytes 2 0) (poke 20 b p9))"
        by (simp only: emitted_body_def p9_def p5_def)
      show ?thesis
        using lens len9 lb
        by (simp add: tcpp_write_options_def tcpp_set_urgent_at_def tcpp_write_payload_def pay flags_read(6) [OF hl] body)
    qed
    finally show ?thesis .
  qed
  then show thesis using that [OF b lo] by blast
qed

lemma length_emitted_body [simp]: "length (emitted_body repr bytes packet) = length packet"
  by (simp add: emitted_body_def)

lemma verify_norm:
  assumes "pseudo_header src_addr dst_addr Tcp (of_nat (length data)) = Some ph" "length data \<le> 131072"
  shows "tcpp_verify_checksum src_addr dst_addr data = Some (oc_norm (unat ph + word_sum data) = 65535)"
proof -
  have "checksum_combine [ph, checksum_data data] = NOT 0 \<longleftrightarrow> unat (checksum_combine [ph, checksum_data data]) = 65535"
    by (metis diff_zero unat_0 unat_not_u16 word_unat_eq_iff)
  also have "unat (checksum_combine [ph, checksum_data data]) = oc_norm (unat ph + word_sum data)"
    using assms(2) by (simp add: unat_checksum_combine unat_checksum_data)
  finally show ?thesis using assms(1) by (simp only: tcpp_verify_checksum_def bind.bind_lunit)
qed

lemma pseudo_header_total:
  "addr_version src_addr = addr_version dst_addr \<Longrightarrow> \<exists>ph. pseudo_header src_addr dst_addr p n = Some ph"
  by (cases src_addr; cases dst_addr) simp_all

lemma fill_checksum_verifies:
  assumes "addr_version src_addr = addr_version dst_addr" "20 \<le> length data" "length data \<le> 131072"
  obtains c :: u16 where "tcpp_fill_checksum src_addr dst_addr data = Some (poke 16 (be_bytes 2 (unat c)) data)"
    "tcpp_verify_checksum src_addr dst_addr (poke 16 (be_bytes 2 (unat c)) data) = Some True"
proof -
  obtain ph where ph: "pseudo_header src_addr dst_addr Tcp (of_nat (length data)) = Some ph"
    using pseudo_header_total [OF assms(1)] by blast
  let ?zeroed = "poke 16 (be_bytes 2 0) data"
  let ?c = "NOT (checksum_combine [ph, checksum_data ?zeroed])"
  have c: "unat ?c = 65535 - oc_norm (unat ph + word_sum ?zeroed)"
    using assms(3) by (simp add: unat_not_u16 unat_checksum_combine unat_checksum_data)
  show thesis
  proof (rule that [of ?c])
    show "tcpp_fill_checksum src_addr dst_addr data = Some (poke 16 (be_bytes 2 (unat ?c)) data)"
      using assms(2) ph by (simp add: tcpp_fill_checksum_def tcpp_set_checksum_def Let_def)
    show "tcpp_verify_checksum src_addr dst_addr (poke 16 (be_bytes 2 (unat ?c)) data) = Some True"
      using checksum_filled [OF _ _ c] assms(2,3) ph by (subst verify_norm [of _ _ _ ph]) simp_all
  qed
qed

lemma parse_emitted:
  assumes wf: "wire_repr repr" and len: "length packet = repr_buffer_len repr" "length bytes = repr_header_len repr - 20"
    and opts: "parse_options bytes \<lparr>o_max_seg_size = None, o_window_scale = None, o_sack_permitted = False, o_sack_ranges = (None, None, None)\<rparr>
     = Some (Inr \<lparr>o_max_seg_size = r_max_seg_size repr, o_window_scale = r_window_scale repr,
                  o_sack_permitted = r_sack_permitted repr, o_sack_ranges = r_sack_ranges repr\<rparr>)"
    and out: "out = poke 16 (be_bytes 2 (unat (c :: u16))) (emitted_body repr bytes packet)"
    and valid: "checksum_rx (caps_tcp caps) \<Longrightarrow> tcpp_verify_checksum src_addr dst_addr out = Some True"
  shows "tcp_parse out src_addr dst_addr caps = Some (Inr repr)"
proof -
  let ?hl = "repr_header_len repr"
  note hl = header_len_cases [of repr]
  have lens: "20 \<le> ?hl" "?hl + length (r_payload repr) = length packet"
    using repr_header_len_bounds(1) [of repr] len(1) by (simp_all add: repr_buffer_len_def)
  have flags: "be_u16 (sub_slice 12 2 out) = flags_word ?hl (r_control repr) (r_ack_number repr \<noteq> None)"
    using lens len(2) by (simp add: out emitted_body_def)
  have ports: "tcpp_src_port out = Some (r_src_port repr)" "tcpp_dst_port out = Some (r_dst_port repr)"
    "tcpp_seq_number out = Some (r_seq_number repr)" "tcpp_window_len out = Some (r_window_len repr)"
    "r_ack_number repr = Some a \<Longrightarrow> tcpp_ack_number out = Some a" for a
    using lens len(2)
    by (simp_all add: tcpp_src_port_def tcpp_dst_port_def tcpp_seq_number_def tcpp_window_len_def tcpp_ack_number_def
        out emitted_body_def)
  have lo: "length out = length packet" by (simp add: out)
  have "14 \<le> length out" using lens lo by simp
  then have fields: "tcpp_syn out = Some (r_control repr = Ctl_Syn)" "tcpp_fin out = Some (r_control repr = Ctl_Fin)"
    "tcpp_rst out = Some (r_control repr = Ctl_Rst)" "tcpp_psh out = Some (r_control repr = Ctl_Psh)"
    "tcpp_ack out = Some (r_ack_number repr \<noteq> None)"
    "\<exists>h. tcpp_header_len out = Some h \<and> unat h = ?hl"
    using flags_read [OF hl, of "r_control repr" "r_ack_number repr \<noteq> None"]
    by (simp_all add: tcpp_syn_def tcpp_fin_def tcpp_rst_def tcpp_psh_def tcpp_ack_def tcpp_header_len_def flags)
  then obtain h where h: "tcpp_header_len out = Some h" "unat h = ?hl" by blast
  have "tcpp_options out = Some bytes" "tcpp_payload out = Some (r_payload repr)"
    using lens len(2) by (simp_all add: tcpp_options_def tcpp_payload_def h lo) (simp_all add: out emitted_body_def)
  moreover have "(if r_ack_number repr \<noteq> None then map_option Some (tcpp_ack_number out) else Some None) = Some (r_ack_number repr)"
    using ports(5) by (cases "r_ack_number repr") simp_all
  ultimately have "tcp_parse_fields out = Some (Inr repr)"
    by (simp add: tcp_parse_fields_def fields ports(1-4) parse_control_flags opts)
  moreover have "tcpp_check_len out = Some (Inr ())" using lens h lo by (simp add: tcpp_check_len_def)
  ultimately show ?thesis using wf valid by (simp add: tcp_parse_def ports wire_repr_def)
qed

lemma tcp_emit_parse:
  assumes "wire_repr repr" and "length packet = repr_buffer_len repr" and "length packet \<le> 65535"
    and "addr_version src_addr = addr_version dst_addr"
    and "checksum_rx (caps_tcp rx_caps) \<Longrightarrow> checksum_tx (caps_tcp tx_caps)"
  shows "\<exists>out. tcp_emit repr src_addr dst_addr tx_caps packet = Some out \<and> length out = length packet
     \<and> tcp_parse out src_addr dst_addr rx_caps = Some (Inr repr)"
proof -
  obtain options bytes where b: "emit_options repr options = Some bytes" "length options = repr_header_len repr - 20"
    and body: "length bytes = length options \<Longrightarrow> tcp_emit repr src_addr dst_addr tx_caps packet =
      (if checksum_tx (caps_tcp tx_caps) then tcpp_fill_checksum src_addr dst_addr (emitted_body repr bytes packet)
       else tcpp_set_checksum 0 (emitted_body repr bytes packet))"
  proof (rule tcp_emit_body [where src_addr = src_addr and dst_addr = dst_addr and caps = tx_caps, OF assms(2)])
    fix options :: "u8 list" assume "length options = repr_header_len repr - 20"
    then show "\<exists>b. emit_options repr options = Some b" using options_roundtrip [OF assms(1)] by metis
  qed (rule that)
  obtain bytes' where "emit_options repr options = Some bytes'" "length bytes' = length options"
    and opts: "parse_options bytes' \<lparr>o_max_seg_size = None, o_window_scale = None, o_sack_permitted = False, o_sack_ranges = (None, None, None)\<rparr>
     = Some (Inr \<lparr>o_max_seg_size = r_max_seg_size repr, o_window_scale = r_window_scale repr,
                  o_sack_permitted = r_sack_permitted repr, o_sack_ranges = r_sack_ranges repr\<rparr>)"
    by (rule options_roundtrip [OF assms(1) b(2)])
  with b have bytes: "bytes' = bytes" "length bytes = length options" by simp_all
  let ?body = "emitted_body repr bytes packet"
  have len: "20 \<le> length packet" using repr_header_len_bounds(1) [of repr] assms(2) by (simp add: repr_buffer_len_def)
  have len': "20 \<le> length ?body" "length ?body \<le> 131072" using len assms(3) by simp_all
  obtain c :: u16 where c: "tcpp_fill_checksum src_addr dst_addr ?body = Some (poke 16 (be_bytes 2 (unat c)) ?body)"
    "tcpp_verify_checksum src_addr dst_addr (poke 16 (be_bytes 2 (unat c)) ?body) = Some True"
    by (rule fill_checksum_verifies [OF assms(4) len'])
  note parse = parse_emitted [OF assms(1,2) bytes(2) [unfolded b(2)] opts [unfolded bytes(1)] refl]
  show ?thesis
  proof (cases "checksum_tx (caps_tcp tx_caps)")
    case True
    then show ?thesis using c parse [where c = c and caps = rx_caps and src_addr = src_addr and dst_addr = dst_addr] body [OF bytes(2)] by simp
  next
    case False
    then have "\<not> checksum_rx (caps_tcp rx_caps)" using assms(5) by blast
    then show ?thesis
      using False parse [where c = 0 and caps = rx_caps and src_addr = src_addr and dst_addr = dst_addr] body [OF bytes(2)] len by (simp add: tcpp_set_checksum_def)
  qed
qed

text \<open>C23. A TCP segment survives the wire: emitting a representation into a buffer of the length \<open>buffer_len\<close>
  announces succeeds, whatever the buffer held, and parsing the octets gives back the same
  representation, options, flags and payload included; a receiver that verifies checksums accepts
  the checksum that was filled in. The representation has nonzero ports, a window scale of at most
  14 and its SACK ranges in front, and only the options that a segment can carry together.\<close>

theorem tcp_emit_parse_roundtrip:
  assumes "wire_repr repr" and "length packet = repr_buffer_len repr" and "length packet \<le> 65535"
    and "addr_version src_addr = addr_version dst_addr"
    and "checksum_rx (caps_tcp rx_caps) \<Longrightarrow> checksum_tx (caps_tcp tx_caps)"
  shows "\<exists>out. tcp_emit repr src_addr dst_addr tx_caps packet = Some out \<and> length out = length packet
     \<and> tcp_parse out src_addr dst_addr rx_caps = Some (Inr repr)"
  using assms by (rule tcp_emit_parse)


definition sample_syn :: tcp_repr where
  "sample_syn = \<lparr>r_src_port = 48896, r_dst_port = 80, r_control = Ctl_Syn, r_seq_number = 19088743, r_ack_number = None,
     r_window_len = 291, r_window_scale = Some 7, r_max_seg_size = Some 1460, r_sack_permitted = True,
     r_sack_ranges = (None, None, None), r_payload = [170, 0, 0, 255]\<rparr>"

definition all_checksums :: checksum_caps where
  "all_checksums = \<lparr>caps_ipv4 = Checksum_Both, caps_udp = Checksum_Both, caps_tcp = Checksum_Both,
     caps_icmpv4 = Checksum_Both, caps_icmpv6 = Checksum_Both\<rparr>"

theorem tcp_emit_parse_roundtrip_witness:
  "\<exists>out. tcp_emit sample_syn (Ipv4 [192, 168, 1, 1]) (Ipv4 [192, 168, 1, 2]) all_checksums (replicate 36 165) = Some out
     \<and> length out = 36 \<and> tcp_parse out (Ipv4 [192, 168, 1, 1]) (Ipv4 [192, 168, 1, 2]) all_checksums = Some (Inr sample_syn)"
  using tcp_emit_parse_roundtrip [of sample_syn "replicate 36 165" "Ipv4 [192, 168, 1, 1]" "Ipv4 [192, 168, 1, 2]"
      all_checksums all_checksums]
  by (simp add: sample_syn_def wire_repr_def packed_def repr_buffer_len_def repr_header_len_def TCP_HEADER_LEN_def
      sack_range_len_def all_checksums_def checksum_tx_def)

definition sample_segment :: "u8 list" where
  "sample_segment = [0xbf, 0, 0, 80, 1, 0x23, 0x45, 0x67, 0, 0, 0, 0, 0x50, 0x02, 1, 0x23, 0x7b, 0x8f, 0, 0, 0xaa]"


text \<open>The format of segments between two IPv4 hosts that compute and verify checksums.\<close>

interpretation tcp_format: wire_format repr_buffer_len "\<lambda>repr. tcp_emit repr (Ipv4 src) (Ipv4 dst) all_checksums"
  "\<lambda>packet. tcp_parse packet (Ipv4 src) (Ipv4 dst) all_checksums" "\<lambda>repr. wire_repr repr \<and> repr_buffer_len repr \<le> 65535"
  for src dst
proof unfold_locales
  fix r :: tcp_repr and buf :: "u8 list"
  assume "wire_repr r \<and> repr_buffer_len r \<le> 65535" "length buf = repr_buffer_len r"
  then show "\<exists>out. tcp_emit r (Ipv4 src) (Ipv4 dst) all_checksums buf = Some out \<and> length out = length buf
      \<and> tcp_parse out (Ipv4 src) (Ipv4 dst) all_checksums = Some (Inr r)"
    using tcp_emit_parse [of r buf "Ipv4 src" "Ipv4 dst" all_checksums all_checksums]
    by (auto simp: all_checksums_def checksum_tx_def)
qed

end
