(* ===== verification/Tcp_End_To_End.thy ===== *)
theory Tcp_End_To_End
  imports Tcp_Properties Tcp_Codec
begin

text \<open>
  The TCP socket and the TCP wire format together: octets from the network go through \<open>Repr::parse\<close> into
  \<open>Socket::process\<close>, segments from \<open>Socket::dispatch\<close> through \<open>Repr::emit\<close> to the network, as
  \<open>InterfaceInner::process_tcp\<close> and \<open>dispatch_ip\<close> of \<^verbatim>\<open>src/iface\<close> chain them.
\<close>

section \<open>The loops over the options\<close>

lemma option_parse_suffix:
  assumes "option_parse buffer = Some (Inr (rest, opt))"
  shows "\<exists>used. used \<noteq> [] \<and> buffer = used @ rest"
proof -
  have "\<exists>n. rest = drop n buffer"
    using assms
    by (auto simp: option_parse_def slice_range_def sub_slice_def try_then_def Let_def
        split: list.splits option.splits sum.splits if_splits intro: exI [of _ 1])
  then obtain n where "buffer = take n buffer @ rest" by (metis append_take_drop_id)
  then show ?thesis using option_parse_shorter [OF assms] by (metis append_Nil less_irrefl)
qed

lemma ack_permitted_loop_total: "ack_permitted_loop options \<noteq> None"
proof (induction options rule: ack_permitted_loop.induct)
  case (1 options)
  then show ?case
    using option_parse_total [of options]
    by (subst ack_permitted_loop.simps) (auto split: option.splits sum.splits)
qed

lemma ack_ranges_loop_total: "ack_ranges_loop options \<noteq> None"
proof (induction options rule: ack_ranges_loop.induct)
  case (1 options)
  then show ?case
    using option_parse_total [of options]
    by (subst ack_ranges_loop.simps) (auto split: option.splits sum.splits tcp_option.splits)
qed

text \<open>C34. The loops over the options of a packet end, for arbitrary octets: every option that parses takes at least one
  octet from the front, whatever length it claims, so that the loop of \<open>Repr::parse\<close> and those of
  \<open>selective_ack_permitted\<close> and \<open>selective_ack_ranges\<close> return a value or an error and never panic.\<close>

theorem tcp_option_loops_terminate:
  "(case option_parse options of
      None \<Rightarrow> False
    | Some (Inl _) \<Rightarrow> True
    | Some (Inr (rest, opt)) \<Rightarrow> (\<exists>used. used \<noteq> [] \<and> options = used @ rest))
   \<and> parse_options options acc \<noteq> None \<and> ack_permitted_loop options \<noteq> None \<and> ack_ranges_loop options \<noteq> None"
  using option_parse_suffix [of options] option_parse_total [of options] parse_options_total [of options acc]
    ack_permitted_loop_total [of options] ack_ranges_loop_total [of options]
  by (auto split: option.splits sum.splits)

section \<open>What parsing delivers\<close>

lemma try_then_Inr: "try_then x f = Some (Inr r) \<longleftrightarrow> (\<exists>a. x = Some (Inr a) \<and> f a = Some (Inr r))"
  by (auto simp: try_then_def split: option.splits sum.splits)

lemma note_option_scale:
  "(\<forall>w. o_window_scale acc = Some w \<longrightarrow> w \<le> 14) \<Longrightarrow> (\<forall>w. o_window_scale (note_option opt acc) = Some w \<longrightarrow> w \<le> 14)"
  by (cases opt) (auto simp: not_less)

lemma parse_options_scale:
  "parse_options options acc = Some (Inr opts) \<Longrightarrow> (\<forall>w. o_window_scale acc = Some w \<longrightarrow> w \<le> 14) \<Longrightarrow>
   (\<forall>w. o_window_scale opts = Some w \<longrightarrow> w \<le> 14)"
proof (induction options acc rule: parse_options.induct)
  case (1 options acc)
  show ?case
  proof (cases "options = []")
    case True
    then show ?thesis using "1.prems" by (simp add: parse_options.simps)
  next
    case False
    then obtain rest opt where o: "option_parse options = Some (Inr (rest, opt))"
      using "1.prems"(1) by (subst (asm) parse_options.simps) (auto split: option.splits sum.splits)
    show ?thesis
    proof (cases "opt = EndOfList")
      case True
      then show ?thesis using "1.prems" False o by (subst (asm) parse_options.simps) simp
    next
      case ne: False
      then have "parse_options rest (note_option opt acc) = Some (Inr opts)"
        using "1.prems"(1) False o by (subst (asm) parse_options.simps) simp
      then show ?thesis
        using "1.IH" [OF False o refl refl] ne note_option_scale "1.prems"(2) by blast
    qed
  qed
qed

lemma tcp_parse_wf:
  assumes "tcp_parse packet src_addr dst_addr caps = Some (Inr repr)"
  shows "r_src_port repr \<noteq> 0" and "r_dst_port repr \<noteq> 0" and "20 + length (r_payload repr) \<le> length packet"
    and "\<forall>w. r_window_scale repr = Some w \<longrightarrow> w \<le> 14"
proof -
  from assms have chk: "tcpp_check_len packet = Some (Inr ())"
    by (auto simp: tcp_parse_def try_then_Inr)
  then obtain h where h: "tcpp_header_len packet = Some h" "20 \<le> unat h" "unat h \<le> length packet" "20 \<le> length packet"
    by (rule check_len_ok)
  from assms chk obtain sp dp where f: "tcpp_src_port packet = Some sp" "sp \<noteq> 0" "tcpp_dst_port packet = Some dp" "dp \<noteq> 0"
    "tcp_parse_fields packet = Some (Inr repr)"
    by (auto simp: tcp_parse_def bind_eq_Some_conv split: if_splits)
  from f(5) obtain options opts payload where
    o: "parse_options options \<lparr>o_max_seg_size = None, o_window_scale = None, o_sack_permitted = False,
          o_sack_ranges = (None, None, None)\<rparr> = Some (Inr opts)"
    and p: "tcpp_payload packet = Some payload"
    and r: "r_window_scale repr = o_window_scale opts" "r_payload repr = payload"
      "tcpp_src_port packet = Some (r_src_port repr)" "tcpp_dst_port packet = Some (r_dst_port repr)"
    by (auto simp: tcp_parse_fields_def bind_eq_Some_conv try_then_Inr)
  show "r_src_port repr \<noteq> 0" "r_dst_port repr \<noteq> 0" using f r by simp_all
  show "20 + length (r_payload repr) \<le> length packet"
    using p h r(2) by (auto simp: tcpp_payload_def slice_range_def split: if_splits)
  show "\<forall>w. r_window_scale repr = Some w \<longrightarrow> w \<le> 14"
    using parse_options_scale [OF o] r(1) by simp
qed

lemma tcp_parse_wf_segment:
  "tcp_parse packet src_addr dst_addr caps = Some (Inr repr) \<Longrightarrow> length packet \<le> 65535 \<Longrightarrow> wf_segment repr"
  using tcp_parse_wf(3,4) by (fastforce simp: wf_segment_def)



section \<open>What is emitted\<close>

lemma segment_of_wire:
  assumes "ep_port (t_local t) \<noteq> 0" and "ep_port (t_remote t) \<noteq> 0" and "s_remote_win_shift s \<le> 14"
  shows "wire_repr (segment_of cx t s)"
  using assms by (auto simp: wire_repr_def segment_of_def packed_def)

text \<open>A packet that \<open>dispatch\<close> hands out, on the wire: the ports are set and the window shift is one that exists.\<close>

lemma dispatched_wire:
  assumes inv: "tcp_inv s" and mtu: "72 \<le> cx_ip_mtu cx" "cx_ip_mtu cx \<le> 65535"
    and prep: "dispatch_prepare cx s = Some (s', Some (ip, repr, keep_alive))"
    and ports: "r_src_port repr \<noteq> 0" "r_dst_port repr \<noteq> 0" and shift: "s_remote_win_shift s' \<le> 14"
    and caps: "checksum_rx (caps_tcp rx_caps) \<Longrightarrow> checksum_tx (caps_tcp tx_caps)"
    and buf: "length buf = repr_buffer_len repr"
  shows "\<exists>out. tcp_emit repr (ip_src_addr ip) (ip_dst_addr ip) tx_caps buf = Some out
     \<and> length out = ip_payload_len ip
     \<and> tcp_parse out (ip_src_addr ip) (ip_dst_addr ip) rx_caps = Some (Inr repr)"
proof -
  have mtu': "60 \<le> cx_ip_mtu cx" using mtu(1) by simp
  have len: "ip_payload_len ip = repr_buffer_len repr" "repr_buffer_len repr \<le> 65535"
    using emitted_fits [OF inv mtu(1) prep] mtu(2) by (simp_all add: ip_buffer_len_def)
  have "wire_repr repr \<and> addr_version (ip_src_addr ip) = addr_version (ip_dst_addr ip)"
  proof (rule dispatch_prepare_cases [OF inv mtu'])
    fix t s1 ip'
    assume a: "tcp_inv s1" "s_tuple s1 = Some t" "dispatch_prepare cx s = Some (s1, Some (ip', segment_of cx t s1, False))"
      "ip_src_addr ip' = ep_addr (t_local t)" "ip_dst_addr ip' = ep_addr (t_remote t)"
    then have eq: "s' = s1" "ip = ip'" "repr = segment_of cx t s1" using prep by simp_all
    have "ep_port (t_local t) \<noteq> 0" "ep_port (t_remote t) \<noteq> 0" using ports by (simp_all add: eq segment_of_def)
    then show ?thesis
      using segment_of_wire [of t s1 cx] shift a tcp_invD(2) [OF a(1)] by (simp add: eq peer_inv_def)
  next
    fix t s1 ip'
    assume a: "tcp_inv s1" "s_tuple s1 = Some t" "dispatch_prepare cx s = Some (s1, Some (ip', (segment_of cx t s1)
          \<lparr>r_seq_number := s_remote_last_seq s1 - 1, r_payload := [0]\<rparr>, True))"
      "ip_src_addr ip' = ep_addr (t_local t)" "ip_dst_addr ip' = ep_addr (t_remote t)"
    then have eq: "s' = s1" "ip = ip'"
      "repr = (segment_of cx t s1)\<lparr>r_seq_number := s_remote_last_seq s1 - 1, r_payload := [0]\<rparr>" using prep by simp_all
    have "ep_port (t_local t) \<noteq> 0" "ep_port (t_remote t) \<noteq> 0" using ports by (simp_all add: eq segment_of_def)
    then show ?thesis
      using segment_of_wire [of t s1 cx] shift a tcp_invD(2) [OF a(1)] by (simp add: eq peer_inv_def wire_repr_def)
  qed (use prep in auto)
  then show ?thesis
    using tcp_emit_parse [of repr buf "ip_src_addr ip" "ip_dst_addr ip" rx_caps tx_caps] buf len caps by auto
qed

section \<open>From the transmit buffer to the receive buffer\<close>

text \<open>
  The transmit buffer of the sender holds the stream from position \<open>k\<close> on, the octet that its oldest unacknowledged
  sequence number stands for; the receiver's window starts at position \<open>n\<close>, and nothing that the sender still keeps
  is missing at the receiver before \<open>k\<close>.
\<close>

definition sends_stream :: "(nat \<Rightarrow> u8) \<Rightarrow> nat \<Rightarrow> tcp_socket \<Rightarrow> bool" where
  "sends_stream stream k s \<longleftrightarrow> rb_contents (s_tx_buffer s) = map (\<lambda>i. stream (k + i)) [0..<rb_length (s_tx_buffer s)]"

definition in_step :: "tcp_socket \<Rightarrow> nat \<Rightarrow> tcp_socket \<Rightarrow> nat \<Rightarrow> bool" where
  "in_step sender k receiver n \<longleftrightarrow>
     k \<le> n \<and> n - k < 2 ^ 31 \<and> window_start receiver = s_local_seq_no sender + of_nat (n - k)"

lemma dispatched_carries:
  assumes inv: "tcp_inv s" and mtu: "60 \<le> cx_ip_mtu cx"
    and prep: "dispatch_prepare cx s = Some (s', Some (ip, repr, False))"
    and stream: "sends_stream stream k s" and step: "in_step s k r n"
  shows "carries stream n (window_start r) repr"
proof -
  obtain d where d: "r_seq_number repr = s_local_seq_no s + of_nat d"
    "r_payload repr = take (length (r_payload repr)) (drop d (rb_contents (s_tx_buffer s)))"
    "r_payload repr \<noteq> [] \<Longrightarrow> d + length (r_payload repr) \<le> rb_length (s_tx_buffer s)"
    using transmitted_stream [OF inv mtu prep] by auto
  have cap: "rb_length (s_tx_buffer s) < i32_max"
    using tcp_invD(1) [OF inv] by (auto simp: buffers_inv_def rb_inv_def)
  show ?thesis
    unfolding carries_def Let_def
  proof (intro allI impI)
    fix j assume j: "j < length (r_payload repr)"
    then have dj: "d + j < rb_length (s_tx_buffer s)" using d(3) by fastforce
    have "\<bar>int (d + j) - int (n - k)\<bar> < 2 ^ 31" using dj cap step by (auto simp: in_step_def i32_max_def)
    from seq_offset_sint [OF this, of "s_local_seq_no s"]
    have "sint (r_seq_number repr + of_nat j - window_start r) = int (d + j) - int (n - k)"
      using step d(1) by (simp add: in_step_def add.assoc)
    then have pos: "stream_position n (window_start r) (r_seq_number repr + of_nat j) = int (k + (d + j))"
      using step by (simp add: stream_position_def in_step_def)
    have "length (rb_contents (s_tx_buffer s)) = rb_length (s_tx_buffer s)"
      using buffers_invD(2) [OF tcp_invD(1) [OF inv]] by simp
    moreover have "r_payload repr ! j = take (length (r_payload repr)) (drop d (rb_contents (s_tx_buffer s))) ! j"
      by (rule arg_cong [OF d(2), of "\<lambda>xs. xs ! j"])
    ultimately have "r_payload repr ! j = rb_contents (s_tx_buffer s) ! (d + j)" using j dj by simp
    also have "\<dots> = stream (k + (d + j))" using stream dj by (simp add: sends_stream_def)
    finally show "r_payload repr ! j = stream (nat (stream_position n (window_start r) (r_seq_number repr + of_nat j)))"
      unfolding pos nat_int .
  qed
qed



section \<open>The two ends of a connection\<close>

definition example_peer :: tcp_socket where
  "example_peer = (the (tcp_new False example_buffer example_buffer))
     \<lparr>s_state := Established, s_tuple := Some \<lparr>t_local = t_remote example_tuple, t_remote = t_local example_tuple\<rparr>,
      s_local_seq_no := 500, s_remote_last_seq := 500, s_remote_seq_no := 1000, s_remote_last_ack := Some 1000,
      s_remote_win_len := 8, s_remote_last_ts := Some 0\<rparr>"

lemma example_peer_inv: "tcp_inv example_peer"
  by (simp add: example_peer_def tcp_new_def example_buffer_def rb_new_def rb_capacity_def tcp_inv_def
      buffers_inv_def rb_inv_def peer_inv_def flight_inv_def handshake_inv_def timer_inv_def handshaking_def
      timer_new_def example_tuple_def DEFAULT_MSS_def ASSEMBLER_MAX_SEGMENT_COUNT_def i32_max_def in_flight_def
      Let_def del: length_rb_storage)

lemma example_peer_fields: "s_assembler example_peer = asm_new 4" "window_start example_peer = 1000"
  "s_rx_buffer example_peer = example_buffer" "rb_contents (s_rx_buffer example_peer) = []"
  by (simp_all add: example_peer_def window_start_def example_defs Let_def rb_capacity_def
      ASSEMBLER_MAX_SEGMENT_COUNT_def rb_contents_def del: length_rb_storage)

lemma example_shift: "s_remote_win_shift example_socket \<le> 14"
  by (simp add: example_defs rb_capacity_def window_shift_def bit_length.simps Let_def del: length_rb_storage)

lemmas example_wire = all_checksums_def checksum_tx_def repr_buffer_len_def repr_header_len_def TCP_HEADER_LEN_def
  sack_range_len_def





end
