(* ===== verification/Tcp_Delivery.thy ===== *)
theory Tcp_Delivery
  imports Tcp_Properties
begin

text \<open>
  What makes the stream advance: a segment that starts where the receive window starts is taken in whole. The steps
  of \<open>Socket::process\<close> are followed one by one: the acknowledgement is in range, the segment is in the window, the
  state machine has use for it, and the assembler, full or not, takes data at the front.
\<close>

text \<open>The states in which the peer still sends data.\<close>

definition receiving :: "tcp_state \<Rightarrow> bool" where
  "receiving st \<longleftrightarrow> st = Established \<or> st = FinWait1 \<or> st = FinWait2"

definition ack_in_range :: "tcp_repr \<Rightarrow> tcp_socket \<Rightarrow> bool" where
  "ack_in_range repr s \<longleftrightarrow> (case r_ack_number repr of
      None \<Rightarrow> False
    | Some a \<Rightarrow> unat (a - s_local_seq_no s) \<le> rb_length (s_tx_buffer s) + sent_control_len (s_state s))"

lemma check_ack_in_range:
  assumes b: "buffers_inv s" and st: "receiving (s_state s)" and ack: "ack_in_range repr s"
    and ctl: "r_control repr = Ctl_None \<or> r_control repr = Ctl_Psh"
  shows "process_check_ack cx ip repr s = Some (Inr ())"
proof -
  obtain a where a: "r_ack_number repr = Some a"
    "unat (a - s_local_seq_no s) \<le> rb_length (s_tx_buffer s) + sent_control_len (s_state s)"
    using ack by (auto simp: ack_in_range_def split: option.splits)
  let ?k = "unat (a - s_local_seq_no s)" and ?n = "rb_length (s_tx_buffer s) + sent_control_len (s_state s)"
  have n: "?n \<le> i32_max"
    using buffers_invD(11) [OF b] sent_control_len_le [of "s_state s"] by linarith
  have st': "\<not> handshaking (s_state s)" "s_state s \<noteq> Listen" "s_state s \<noteq> SynSent" "s_state s \<noteq> SynReceived"
    using st by (auto simp: receiving_def handshaking_def)
  have eq: "a = s_local_seq_no s + of_nat ?k" by simp
  have gap: "\<bar>int x - int y\<bar> < 2 ^ 31" if "x \<le> ?n" "y \<le> ?n" for x y
    using that n by (simp add: i32_max_def)
  have c1: "\<bar>int ?k - int 0\<bar> < 2 ^ 31" and c2: "\<bar>int ?k - int ?n\<bar> < 2 ^ 31"
    by (rule gap; use a(2) in blast)+
  have lt: "\<not> seq_lt a (s_local_seq_no s)"
    using seq_offset_cmp(1) [OF c1, of "s_local_seq_no s"] unfolding eq [symmetric] by simp
  have gt: "\<not> seq_gt a (s_local_seq_no s + of_nat ?n)"
    using seq_offset_cmp(3) [OF c2, of "s_local_seq_no s"] a(2) unfolding eq [symmetric] by simp
  have "process_ack_range cx ip repr a s = Some (Inr ())"
    using n lt gt sent_flags_other [OF st'(1)]
    by (simp add: process_ack_range_def sent_control_len_def rb_len_def Let_def)
  then show ?thesis using a(1) st' ctl by (auto simp: process_check_ack_def Let_def)
qed

lemma window_in_order:
  assumes b: "buffers_inv s" and st: "receiving (s_state s)" and wf: "wf_segment repr"
    and seq: "r_seq_number repr = window_start s" and ne: "r_payload repr \<noteq> []"
    and fits: "length (r_payload repr) \<le> rb_window (s_rx_buffer s)"
  shows "process_window cx ip repr (window_start s) (s_remote_seq_no s + of_nat (rb_capacity (s_rx_buffer s))) s
    = Some (Inr (r_payload repr, 0, noted repr s))"
proof -
  let ?ws = "window_start s" and ?w = "rb_window (s_rx_buffer s)" and ?p = "length (r_payload repr)"
  let ?we = "s_remote_seq_no s + of_nat (rb_capacity (s_rx_buffer s)) :: seq_number"
  have p: "0 < ?p" "?p \<le> 65535" using ne wf by (auto simp: wf_segment_def)
  have w: "?w \<le> 2 ^ 30" using buffers_invD(7) [OF b] by (simp add: rb_window_def)
  have w0: "0 < ?w" using p(1) fits by (rule less_le_trans)
  have we: "?we = ?ws + of_nat ?w"
    using rb_length_window [OF buffers_invD(1) [OF b]] unfolding window_start_def by (metis add.assoc of_nat_add)
  have d: "?ws \<noteq> ?ws + of_nat ?w" "?ws \<noteq> ?ws + of_nat ?p"
    using w w0 p by (auto simp: word_of_nat_eq_0_iff dest: dvd_imp_le)
  have "\<bar>int 0 - int ?w\<bar> < 2 ^ 31" using w by simp
  from seq_offset_cmp(1) [OF this, of ?ws] have lt: "seq_lt ?ws (?ws + of_nat ?w)" using w0 by simp
  have le: "seq_le ?ws ?ws" by (simp add: seq_le_def)
  have inw: "segment_in_window ?ws ?we ?ws (?ws + of_nat ?p) = Some True"
    unfolding we using d lt le by (simp add: segment_in_window_def i32_max_def)
  have o: "seq_le (seq_max ?ws ?ws) (seq_min ?we (?ws + of_nat ?p))"
    "seq_diff (seq_max ?ws ?ws) ?ws = Some 0" "seq_diff (seq_min ?we (?ws + of_nat ?p)) ?ws = Some ?p"
    using overlap_offsets [of ?ws ?ws 0 ?we ?w ?ws 0 "?ws + of_nat ?p" ?p] we w p fits by (simp_all add: i32_max_def min_def)
  have add: "seq_add ?ws ?p = Some (?ws + of_nat ?p)" using p by (simp add: seq_add_def i32_max_def)
  show ?thesis
    using inw o add st seq
    by (auto simp: process_window_def receiving_def noted_def slice_range_def sub_slice_def Let_def)
qed

lemma transition_receiving:
  assumes "receiving (s_state s)"
  shows "\<exists>s'. process_transition cx ip repr Ctl_None f l s = Some (Inr (cx, s'))"
  using assms by (auto simp: receiving_def process_transition_def Let_def)

text \<open>A segment in order, up to the payload.\<close>

lemma in_order_reaches_payload:
  assumes inv: "tcp_inv s" and acc: "tcp_accepts s ip repr" and wf: "wf_segment repr"
    and st: "receiving (s_state s)" and ack: "ack_in_range repr s"
    and ctl: "r_control repr = Ctl_None \<or> r_control repr = Ctl_Psh"
    and seq: "r_seq_number repr = window_start s" and ne: "r_payload repr \<noteq> []"
    and fits: "length (r_payload repr) \<le> rb_window (s_rx_buffer s)"
  obtains s3 reply s' where "tcp_process cx ip repr s = Some (reply, cx, s')" "tcp_inv s3"
    "s_rx_buffer s3 = s_rx_buffer s" "s_assembler s3 = s_assembler s"
    "process_payload cx ip repr (r_payload repr) 0 s3 = Some (reply, s')"
proof -
  note b = tcp_invD(1) [OF inv]
  let ?we = "s_remote_seq_no s + of_nat (rb_capacity (s_rx_buffer s))"
  have we: "seq_add (s_remote_seq_no s) (rb_len (s_rx_buffer s)) = Some (window_start s)"
    "seq_add (s_remote_seq_no s) (rb_capacity (s_rx_buffer s)) = Some ?we"
    using buffers_invD(9,10) [OF b] by (simp_all add: seq_add_def rb_len_def window_start_def)
  note chk = check_ack_in_range [OF b st ack ctl, of cx ip]
  note win = window_in_order [OF b st wf seq ne fits, of cx ip]
  have nr: "r_control repr \<noteq> Ctl_Rst" using ctl by auto
  have ok: "ack_acceptable repr s"
    using ack st by (auto simp: ack_acceptable_def ack_in_range_def receiving_def split: option.splits)
  have b1: "buffers_inv (noted repr s)" using b by (simp add: buffers_inv_def)
  obtain e c where acked: "process_acked cx repr (noted repr s)
      = Some (acked_result repr (noted repr s), (noted repr s)\<lparr>s_rtte := e, s_congestion_controller := c\<rparr>)"
    using process_acked_spec [OF b1 nr, of cx] ok unfolding acked_noted by metis
  obtain n f l where nfl: "acked_result repr (noted repr s) = (n, f, l)" by (cases "acked_result repr (noted repr s)")
  let ?s1 = "(noted repr s)\<lparr>s_rtte := e, s_congestion_controller := c\<rparr>"
  have by1: "acked_by repr s n f l" using nfl ok by (simp add: acked_by_def)
  have ctl1: "effective_control repr (window_start s) = Ctl_None" using ctl by (auto simp: effective_control_def)
  have "\<exists>s2. process_transition cx ip repr Ctl_None f l ?s1 = Some (Inr (cx, s2))"
    by (rule transition_receiving) (use st in simp)
  then obtain s2 where T: "process_transition cx ip repr Ctl_None f l ?s1 = Some (Inr (cx, s2))" by blast
  obtain a where a: "r_ack_number repr = Some a" "mid_inv a n s2" "s_rx_buffer s2 = s_rx_buffer s"
    "s_assembler s2 = s_assembler s"
    by (rule process_transition_cases [of ?s1 repr n f l Ctl_None cx ip])
      (use inv wf by1 st T in \<open>auto simp: receiving_def\<close>)
  obtain upd sa sb where tail: "process_remote_window cx repr s2 = Some (upd, sa)"
    "process_dequeue_acked n sa = Some sb" "tcp_inv (process_advance_local cx repr upd sb)"
    "s_state (process_advance_local cx repr upd sb) = s_state s2"
    "s_rx_buffer (process_advance_local cx repr upd sb) = s_rx_buffer s2"
    "s_assembler (process_advance_local cx repr upd sb) = s_assembler s2"
    using process_tail [of repr s2 n cx] a(1,2) by blast
  have sy: "synchronized (s_state s2)" using a(2) by (simp add: mid_inv_def)
  obtain reply s' where pl: "process_payload cx ip repr (r_payload repr) 0 (process_advance_local cx repr upd sb) = Some (reply, s')"
    using process_payload_ex [OF tail(3), of 0 "r_payload repr" cx ip repr] fits a(3) tail(4,5) sy by auto
  show thesis
    by (rule that [OF _ tail(3) _ _ pl])
      (use acc chk we win acked nfl ctl1 T tail pl a in \<open>simp_all add: tcp_process_def\<close>)
qed

text \<open>C6. The stream advances: a segment with data that starts where the receive window starts, fits the window and has
  an acknowledgement in range is never dropped, challenged or held back, whatever gaps the assembler tracks: all of its
  octets are in the receive buffer when \<open>process\<close> returns, followed by what had arrived ahead of them.\<close>

theorem in_order_data_is_delivered:
  assumes "tcp_inv s" and "tcp_accepts s ip repr" and "wf_segment repr"
    and "receiving (s_state s)" and "ack_in_range repr s"
    and "r_control repr = Ctl_None \<or> r_control repr = Ctl_Psh"
    and "r_seq_number repr = window_start s" and "r_payload repr \<noteq> []"
    and "length (r_payload repr) \<le> rb_window (s_rx_buffer s)"
    and "rx_coherent (\<lambda>i. stream (n + i)) (s_assembler s) (s_rx_buffer s)"
    and "\<forall>j<length (r_payload repr). r_payload repr ! j = stream (n + j)"
  shows "\<exists>reply s' m. tcp_process cx ip repr s = Some (reply, cx, s') \<and> length (r_payload repr) \<le> m
     \<and> rb_contents (s_rx_buffer s') = rb_contents (s_rx_buffer s) @ map (\<lambda>i. stream (n + i)) [0..<m]
     \<and> rx_coherent (\<lambda>i. stream (n + m + i)) (s_assembler s') (s_rx_buffer s')"
proof -
  obtain s3 reply s' where a: "tcp_process cx ip repr s = Some (reply, cx, s')" "tcp_inv s3"
    "s_rx_buffer s3 = s_rx_buffer s" "s_assembler s3 = s_assembler s"
    "process_payload cx ip repr (r_payload repr) 0 s3 = Some (reply, s')"
    using in_order_reaches_payload [OF assms(1-9)] .
  have "\<exists>m. rb_contents (s_rx_buffer s') = rb_contents (s_rx_buffer s3) @ map (\<lambda>i. stream (n + i)) [0..<m]
     \<and> rx_coherent (\<lambda>i. stream (n + (m + i))) (s_assembler s') (s_rx_buffer s')
     \<and> s_remote_seq_no s' = s_remote_seq_no s3 \<and> (0 = (0::nat) \<longrightarrow> length (r_payload repr) \<le> m)"
    by (rule process_payload_stream [OF a(2) _ _ _ a(5)]) (use assms(9-11) a(3,4) in simp_all)
  then show ?thesis using a(1,3) by (auto simp: add.assoc)
qed

theorem in_order_data_is_delivered_witness:
  "\<exists>reply s' m. tcp_process example_context example_ip (example_segment Ctl_Psh 500 [7, 8, 9, 10]) example_socket
       = Some (reply, example_context, s') \<and> 4 \<le> m
     \<and> rb_contents (s_rx_buffer s') = rb_contents (s_rx_buffer example_socket) @ map (\<lambda>i. of_nat (0 + i + 7)) [0..<m]
     \<and> rx_coherent (\<lambda>i. of_nat (0 + m + i + 7)) (s_assembler s') (s_rx_buffer s')"
proof -
  let ?r = "example_segment Ctl_Psh 500 [7, 8, 9, 10]"
  have b: "buffers_inv example_socket" by (rule tcp_invD(1) [OF example_inv])
  have f: "s_assembler example_socket = asm_new 4" "window_start example_socket = 500"
    "s_state example_socket = Established" "s_local_seq_no example_socket = 1000" "rb_window (s_rx_buffer example_socket) = 8"
    by (simp_all add: window_start_def rb_window_def example_defs Let_def rb_capacity_def rb_len_def
        ASSEMBLER_MAX_SEGMENT_COUNT_def del: length_rb_storage)
  have r: "r_ack_number ?r = Some 1000" "r_control ?r = Ctl_Psh" "r_seq_number ?r = 500" "r_payload ?r = [7, 8, 9, 10]"
    by (simp_all add: example_segment_def)
  have coh: "rx_coherent (\<lambda>i. of_nat (0 + i + 7)) (s_assembler example_socket) (s_rx_buffer example_socket)"
    using buffers_invD(1,3) [OF b] f(1) by (simp add: rx_coherent_def)
  have "\<exists>reply s' m. tcp_process example_context example_ip ?r example_socket
       = Some (reply, example_context, s') \<and> length (r_payload ?r) \<le> m
     \<and> rb_contents (s_rx_buffer s') = rb_contents (s_rx_buffer example_socket) @ map (\<lambda>i. of_nat (0 + i + 7)) [0..<m]
     \<and> rx_coherent (\<lambda>i. of_nat (0 + m + i + 7)) (s_assembler s') (s_rx_buffer s')"
    by (rule in_order_data_is_delivered [OF example_inv example_accepts example_wf _ _ _ _ _ _ coh])
      (simp_all add: f r receiving_def ack_in_range_def less_Suc_eq nth_Cons')
  then show ?thesis by (simp add: r numeral_eq_Suc)
qed

end
