(* ===== verification/Tcp_States.thy ===== *)
theory Tcp_States
  imports Tcp_Properties
begin

text \<open>
  The connection states of the TCP socket: which state changes a step of the socket can make.
\<close>

section \<open>The state machine\<close>

text \<open>
  The diagram of RFC 9293 as far as the socket implements it (a simultaneous open, SYN-SENT to
  SYN-RECEIVED, is not there), with the edges that the application adds: an open socket may be aborted, and
  a socket in TIME-WAIT may be opened again.
\<close>

inductive rfc_edge :: "tcp_state \<Rightarrow> tcp_state \<Rightarrow> bool" where
  passive_open: "rfc_edge Closed Listen"
| active_open: "rfc_edge Closed SynSent"
| reopen_listen: "rfc_edge TimeWait Listen"
| reopen_connect: "rfc_edge TimeWait SynSent"
| listen_syn: "rfc_edge Listen SynReceived"
| syn_sent_syn_ack: "rfc_edge SynSent Established"
| syn_received_ack: "rfc_edge SynReceived Established"
| syn_received_fin: "rfc_edge SynReceived CloseWait"
| syn_received_rst: "rfc_edge SynReceived Listen"
| syn_received_close: "rfc_edge SynReceived FinWait1"
| established_close: "rfc_edge Established FinWait1"
| established_fin: "rfc_edge Established CloseWait"
| fin_wait_1_ack: "rfc_edge FinWait1 FinWait2"
| fin_wait_1_fin: "rfc_edge FinWait1 Closing"
| fin_wait_1_fin_ack: "rfc_edge FinWait1 TimeWait"
| fin_wait_2_fin: "rfc_edge FinWait2 TimeWait"
| close_wait_close: "rfc_edge CloseWait LastAck"
| closing_ack: "rfc_edge Closing TimeWait"
| to_closed: "rfc_edge st Closed"

inductive_cases rfc_edge_from_listen [elim!]: "rfc_edge Listen st"
inductive_simps rfc_edge_simps: "rfc_edge st st'"

lemma transition_edge:
  assumes "process_transition cx ip repr control f l s = Some (Inr (cx', s'))"
  shows "s_state s' = s_state s \<or> rfc_edge (s_state s) (s_state s')"
proof -
  have listen: "s_state s' = SynReceived" if "transition_listen_syn cx ip repr s = Some (Inr (cx', s'))"
    using that by (auto simp: transition_listen_syn_def Let_def i32_max_def split_beta split: if_splits)
  have syn: "s_state x = Established" if "transition_synsent_syn cx repr s = Some (Inr x)" for x
    using that by (auto simp: transition_synsent_syn_def Let_def i32_max_def split: if_splits)
  show ?thesis
  proof (cases "s_state s")
    case Listen
    then show ?thesis
      using assms listen by (cases control) (auto simp: process_transition_def Let_def intro: rfc_edge.intros)
  next
    case SynSent
    show ?thesis
    proof (cases "control = Ctl_Syn")
      case True
      then have "transition_synsent_syn cx repr s = Some (Inr s')"
        using assms SynSent
        by (cases "transition_synsent_syn cx repr s") (auto simp: process_transition_def split: sum.splits)
      then show ?thesis using syn SynSent by (simp add: rfc_edge.intros)
    next
      case False
      then show ?thesis using assms SynSent by (cases control) (simp_all add: process_transition_def)
    qed
  qed (use assms in \<open>cases control; auto simp: process_transition_def Let_def tcp_set_state_def intro: rfc_edge.intros split: if_splits\<close>)+
qed

lemma process_edge:
  assumes inv: "tcp_inv s" and acc: "tcp_accepts s ip repr" and wf: "wf_segment repr"
    and res: "tcp_process cx ip repr s = Some (reply, cx', s')"
  shows "s_state s' = s_state s \<or> rfc_edge (s_state s) (s_state s')"
proof (rule tcp_process_cases [OF inv acc wf, of cx])
  fix r s0 assume "tcp_process cx ip repr s = Some (r, cx, challenge_result cx s0)" "s0 = s \<or> s0 = time_wait_restart cx s"
  then show ?thesis using res by (auto simp: challenge_result_def ack_sent_def time_wait_restart_def)
next
  fix s'' assume a: "tcp_process cx ip repr s = Some (None, cx, s'')"
    "s_state s'' = (if s_state s = Listen \<or> s_state s = SynReceived then Listen else Closed)"
  then show ?thesis using res by (auto intro: rfc_edge.intros split: if_splits)
next
  fix e c assume "tcp_process cx ip repr s = Some (None, cx, (noted repr s)\<lparr>s_rtte := e, s_congestion_controller := c\<rparr>)"
  then show ?thesis using res by auto
next
  fix cx'' payload off f l e c s2 s3 r s''
  assume a: "tcp_process cx ip repr s = Some (r, cx'', s'')" "overlap repr s payload off" "tcp_inv s3"
    "process_transition cx ip repr (effective_control repr (window_start s)) f l
         ((noted repr s)\<lparr>s_rtte := e, s_congestion_controller := c\<rparr>) = Some (Inr (cx'', s2))"
    "s_state s3 = s_state s2" "s_rx_buffer s3 = s_rx_buffer s" "payload \<noteq> [] \<Longrightarrow> synchronized (s_state s3)"
    "process_payload cx'' ip repr payload off s3 = Some (r, s'')"
  have "off + length payload \<le> rb_window (s_rx_buffer s3)" using overlap_bound [OF a(2)] a(6) by simp
  from process_payload_inv [OF a(3) this a(7), of cx'' ip repr] a(8)
  have "s_state s'' = s_state s3" by (metis option.inject prod.inject)
  then show ?thesis using transition_edge [OF a(4)] a(1,5) res by auto
qed (use res in auto)

lemma dispatch_timers_state:
  assumes inv: "tcp_inv s" and mtu: "60 \<le> cx_ip_mtu cx" and t: "s_tuple s = Some t" and s1: "dispatch_timers cx s = Some s1"
  shows "s_state s1 = s_state s \<or> s_state s1 = Closed"
using inv t mtu
proof (cases rule: dispatch_timers_cases)
  case timeout
  then show ?thesis using s1 by (simp add: tcp_set_state_def)
next
  case (retransmit d)
  then show ?thesis using s1 by (simp add: stamped_def retransmit_result_def)
next
  case (nothing b)
  then show ?thesis using s1 by (simp add: stamped_def)
qed

lemma dispatch_finish_state:
  assumes "dispatch_finish cx repr k s = Some s'"
  shows "s_state s' = s_state s"
proof (cases k)
  case True
  then show ?thesis using assms by (auto simp: dispatch_finish_def Let_def)
next
  case False
  have keep: "s_state (if c then u else v) = (if c then s_state u else s_state v)" for c u v
    by simp
  show ?thesis
    using assms False unfolding dispatch_finish_def by (auto simp: Let_def bind_eq_Some_conv keep)
qed

lemma dispatch_sent_state:
  assumes "dispatch_prepare cx s = Some (s1, Some (ip, repr, k))" "tcp_dispatch emit cx s = Some (r, cx', s')"
  shows "s_state s' = s_state s1"
proof -
  obtain r' c where e: "emit cx (ip, repr) = (r', c)" by fastforce
  show ?thesis
  proof (cases r')
    case (Inl x)
    then show ?thesis using assms e by (simp add: tcp_dispatch_def)
  next
    case (Inr x)
    then have "dispatch_finish c repr k s1 = Some s'"
      using assms e by (auto simp: tcp_dispatch_def bind_eq_Some_conv)
    then show ?thesis by (rule dispatch_finish_state)
  qed
qed

lemma dispatch_edge:
  assumes inv: "tcp_inv s" and mtu: "60 \<le> cx_ip_mtu cx" and res: "tcp_dispatch emit cx s = Some (r, cx', s')"
  shows "s_state s' = s_state s \<or> s_state s' = Closed"
using inv mtu
proof (cases rule: dispatch_prepare_cases)
  case no_peer
  then show ?thesis using res by (simp add: tcp_dispatch_def)
next
  case (quiet t s1)
  then show ?thesis using res dispatch_timers_state [OF inv mtu quiet(1,2)] by (simp add: tcp_dispatch_def)
next
  case (reset t s1)
  then show ?thesis using res by (auto simp: tcp_dispatch_def reset_fields(1))
next
  case (keep_alive t s1 ip)
  then show ?thesis using dispatch_sent_state [OF keep_alive(6) res] dispatch_timers_state [OF inv mtu keep_alive(1,2)] by simp
next
  case (segment t s1 ip)
  then show ?thesis using dispatch_sent_state [OF segment(6) res] dispatch_timers_state [OF inv mtu segment(1,2)] by simp
qed

lemma tcp_connect_state:
  assumes "tcp_connect gsa cx r l s = (res, cx', s')"
  shows "s_state s' = s_state s \<or> s_state s' = SynSent \<and> \<not> is_open s"
  using assms by (auto simp: tcp_connect_def Let_def tcp_set_state_def split: if_splits option.splits prod.splits)

lemma send_impl_state:
  assumes "tcp_send_impl f s = Some (res, s')"
  shows "s_state s' = s_state s"
proof (cases "f (s_tx_buffer s)")
  case None
  then show ?thesis using assms by (simp add: tcp_send_impl_def split: if_splits)
next
  case (Some x)
  obtain n r tx where "x = ((n, r), tx)" by (cases x) auto
  with Some assms have "s' = s \<or> s' = s\<lparr>s_tx_buffer := tx\<rparr> \<or> s' = s\<lparr>s_tx_buffer := tx, s_remote_last_ts := None\<rparr>"
    by (simp add: tcp_send_impl_def Let_def split: if_splits)
  then show ?thesis by (elim disjE) simp_all
qed

lemma recv_impl_state:
  assumes "tcp_recv_impl f s = Some (res, s')"
  shows "s_state s' = s_state s"
proof (cases "recv_error_check s")
  case (Inl e)
  then show ?thesis using assms by (simp add: tcp_recv_impl_def)
next
  case (Inr u)
  with assms obtain n r rx seq where "s' = s\<lparr>s_rx_buffer := rx, s_remote_seq_no := seq\<rparr>"
    by (auto simp: tcp_recv_impl_def bind_eq_Some_conv)
  then show ?thesis by simp
qed

lemma not_open: "\<not> is_open s \<longleftrightarrow> s_state s = Closed \<or> s_state s = TimeWait"
  by (cases "s_state s") (simp_all add: is_open_def)

text \<open>C9. Every step of the socket, whatever the application, the peer or the timers do, leaves the connection
  state as it is or follows one edge of the TCP state diagram.\<close>

theorem steps_follow_state_diagram:
  assumes "tcp_reachable s" and "tcp_step s s'"
  shows "s_state s' = s_state s \<or> rfc_edge (s_state s) (s_state s')"
  using assms(2)
proof cases
  case (listen local_endpoint)
  then show ?thesis
    by (auto simp: tcp_listen_def Let_def not_open intro: rfc_edge.intros)
next
  case (connect get_source_address cx remote_endpoint local_endpoint res cx')
  then show ?thesis using tcp_connect_state [OF connect] by (auto simp: not_open intro: rfc_edge.intros)
next
  case close
  then show ?thesis by (cases "s_state s") (simp_all add: tcp_close_def rfc_edge.intros)
next
  case (process ip repr cx reply cx')
  then show ?thesis using process_edge [OF tcp_reachable_inv [OF assms(1)]] by blast
next
  case (dispatch cx emit r cx')
  then show ?thesis
    using dispatch_edge [OF tcp_reachable_inv [OF assms(1)] dispatch(1,3)] by (auto intro: to_closed)
next
  case (set_congestion_control c)
  then show ?thesis by (cases c) simp_all
next
  case (send_slice data res)
  then show ?thesis using send_impl_state [OF send_slice [unfolded tcp_send_slice_def]] by simp
next
  case (send f sent)
  then show ?thesis using send_impl_state [OF send(2) [unfolded tcp_send_def]] by simp
next
  case (recv_slice data got)
  then show ?thesis using recv_impl_state [OF recv_slice [unfolded tcp_recv_slice_def]] by simp
next
  case (recv f recvd)
  then show ?thesis using recv_impl_state [OF recv(2) [unfolded tcp_recv_def]] by simp
next
  case (set_hop_limit h)
  then show ?thesis by (auto simp: tcp_set_hop_limit_def split: if_splits)
qed (simp_all add: tcp_abort_def tcp_set_timeout_def tcp_set_keep_alive_def tcp_set_ack_delay_def
    tcp_set_nagle_enabled_def tcp_set_bound_endpoint_def Let_def to_closed)

theorem steps_follow_state_diagram_witness:
  "let s = the (tcp_new False example_buffer example_buffer); s' = snd (tcp_listen \<lparr>lep_addr = None, lep_port = 80\<rparr> s)
   in s_state s = Closed \<and> s_state s' = Listen \<and> (s_state s' = s_state s \<or> rfc_edge (s_state s) (s_state s'))"
proof -
  let ?s = "the (tcp_new False example_buffer example_buffer)"
  let ?s' = "snd (tcp_listen \<lparr>lep_addr = None, lep_port = 80\<rparr> ?s)"
  have "s_state ?s = Closed"
    by (simp add: example_defs Let_def rb_capacity_def del: length_rb_storage)
  moreover from this have "s_state ?s' = Listen"
    by (simp add: tcp_listen_def is_open_def Let_def)
  ultimately show ?thesis
    using steps_follow_state_diagram [OF example_reachable tcp_step.listen [of ?s "\<lparr>lep_addr = None, lep_port = 80\<rparr>"]]
    by (simp add: Let_def)
qed

end
