(* ===== verification/Ipv4_Wire.thy ===== *)
theory Ipv4_Wire
  imports Ip_Checksum
begin

text \<open>
  IPv4 packets on the wire, \<open>Packet\<close>, \<open>Key\<close> and \<open>Repr\<close> of \<^verbatim>\<open>src/wire/ipv4.rs\<close>, with the fragmentation
  feature on, as by default: \<open>parse\<close> then accepts fragments. A packet is its buffer.
\<close>

unbundle bit_operations_syntax

section \<open>Fields\<close>

definition ipv4p_version :: "u8 list \<Rightarrow> u8 option" where
  "ipv4p_version data = do { b \<leftarrow> get_u8 0 data; Some (drop_bit 4 b) }"

definition ipv4p_header_len :: "u8 list \<Rightarrow> u8 option" where
  "ipv4p_header_len data = do { b \<leftarrow> get_u8 0 data; Some ((b AND 0x0f) * 4) }"

definition ipv4p_dscp :: "u8 list \<Rightarrow> u8 option" where
  "ipv4p_dscp data = do { b \<leftarrow> get_u8 1 data; Some (drop_bit 2 b) }"

definition ipv4p_ecn :: "u8 list \<Rightarrow> u8 option" where
  "ipv4p_ecn data = do { b \<leftarrow> get_u8 1 data; Some (b AND 0x03) }"

definition ipv4p_total_len :: "u8 list \<Rightarrow> u16 option" where "ipv4p_total_len data = get_u16 2 data"
definition ipv4p_ident :: "u8 list \<Rightarrow> u16 option" where "ipv4p_ident data = get_u16 4 data"

definition ipv4p_dont_frag :: "u8 list \<Rightarrow> bool option" where
  "ipv4p_dont_frag data = do { raw \<leftarrow> get_u16 6 data; Some (raw AND 0x4000 \<noteq> 0) }"

definition ipv4p_more_frags :: "u8 list \<Rightarrow> bool option" where
  "ipv4p_more_frags data = do { raw \<leftarrow> get_u16 6 data; Some (raw AND 0x2000 \<noteq> 0) }"

definition ipv4p_frag_offset :: "u8 list \<Rightarrow> u16 option" where
  "ipv4p_frag_offset data = do { raw \<leftarrow> get_u16 6 data; Some (push_bit 3 raw) }"

definition ipv4p_hop_limit :: "u8 list \<Rightarrow> u8 option" where "ipv4p_hop_limit data = get_u8 8 data"

definition ipv4p_next_header :: "u8 list \<Rightarrow> ip_protocol option" where
  "ipv4p_next_header data = map_option protocol_from_u8 (get_u8 9 data)"

definition ipv4p_checksum :: "u8 list \<Rightarrow> u16 option" where "ipv4p_checksum data = get_u16 10 data"
definition ipv4p_src_addr :: "u8 list \<Rightarrow> u8 list option" where "ipv4p_src_addr data = slice_range 12 16 data"
definition ipv4p_dst_addr :: "u8 list \<Rightarrow> u8 list option" where "ipv4p_dst_addr data = slice_range 16 20 data"

definition ipv4p_check_len :: "u8 list \<Rightarrow> (wire_error + unit) option" where
  "ipv4p_check_len data =
     (if length data < 20 then Some (Inl Wire_Error)
      else do { h \<leftarrow> ipv4p_header_len data;
                if length data < unat h then Some (Inl Wire_Error)
                else do { t \<leftarrow> ipv4p_total_len data;
                          Some (if (ucast h :: u16) > t then Inl Wire_Error
                                else if length data < unat t then Inl Wire_Error
                                else Inr ()) } })"

definition ipv4p_new_checked :: "u8 list \<Rightarrow> (wire_error + u8 list) option" where
  "ipv4p_new_checked buffer = try_then (ipv4p_check_len buffer) (\<lambda>_. Some (Inr buffer))"

definition ipv4p_verify_checksum :: "u8 list \<Rightarrow> bool option" where
  "ipv4p_verify_checksum data =
     do { h \<leftarrow> ipv4p_header_len data;
          header \<leftarrow> slice_range 0 (unat h) data;
          Some (checksum_data header = NOT 0) }"

record ipv4_key =
  key_id :: u16
  key_src_addr :: "u8 list"
  key_dst_addr :: "u8 list"
  key_protocol :: ip_protocol

definition ipv4p_get_key :: "u8 list \<Rightarrow> ipv4_key option" where
  "ipv4p_get_key data =
     do { i \<leftarrow> ipv4p_ident data; s \<leftarrow> ipv4p_src_addr data; d \<leftarrow> ipv4p_dst_addr data; p \<leftarrow> ipv4p_next_header data;
          Some \<lparr>key_id = i, key_src_addr = s, key_dst_addr = d, key_protocol = p\<rparr> }"

definition ipv4p_payload :: "u8 list \<Rightarrow> u8 list option" where
  "ipv4p_payload data = do { h \<leftarrow> ipv4p_header_len data; t \<leftarrow> ipv4p_total_len data; slice_range (unat h) (unat t) data }"

definition ipv4p_set_version :: "u8 \<Rightarrow> u8 list \<Rightarrow> u8 list option" where
  "ipv4p_set_version value data = do { b \<leftarrow> get_u8 0 data; put_u8 0 ((b AND NOT 0xf0) OR push_bit 4 value) data }"

definition ipv4p_set_header_len :: "u8 \<Rightarrow> u8 list \<Rightarrow> u8 list option" where
  "ipv4p_set_header_len value data =
     do { b \<leftarrow> get_u8 0 data; put_u8 0 ((b AND NOT 0x0f) OR ((value div 4) AND 0x0f)) data }"

definition ipv4p_set_dscp :: "u8 \<Rightarrow> u8 list \<Rightarrow> u8 list option" where
  "ipv4p_set_dscp value data = do { b \<leftarrow> get_u8 1 data; put_u8 1 ((b AND NOT 0xfc) OR push_bit 2 value) data }"

definition ipv4p_set_ecn :: "u8 \<Rightarrow> u8 list \<Rightarrow> u8 list option" where
  "ipv4p_set_ecn value data = do { b \<leftarrow> get_u8 1 data; put_u8 1 ((b AND NOT 0x03) OR (value AND 0x03)) data }"

definition ipv4p_set_total_len :: "u16 \<Rightarrow> u8 list \<Rightarrow> u8 list option" where "ipv4p_set_total_len v data = put_u16 2 v data"
definition ipv4p_set_ident :: "u16 \<Rightarrow> u8 list \<Rightarrow> u8 list option" where "ipv4p_set_ident v data = put_u16 4 v data"

definition ipv4p_clear_flags :: "u8 list \<Rightarrow> u8 list option" where
  "ipv4p_clear_flags data = do { raw \<leftarrow> get_u16 6 data; put_u16 6 (raw AND NOT 0xe000) data }"

definition ipv4p_set_dont_frag :: "bool \<Rightarrow> u8 list \<Rightarrow> u8 list option" where
  "ipv4p_set_dont_frag value data =
     do { raw \<leftarrow> get_u16 6 data; put_u16 6 (if value then raw OR 0x4000 else raw AND NOT 0x4000) data }"

definition ipv4p_set_more_frags :: "bool \<Rightarrow> u8 list \<Rightarrow> u8 list option" where
  "ipv4p_set_more_frags value data =
     do { raw \<leftarrow> get_u16 6 data; put_u16 6 (if value then raw OR 0x2000 else raw AND NOT 0x2000) data }"

definition ipv4p_set_frag_offset :: "u16 \<Rightarrow> u8 list \<Rightarrow> u8 list option" where
  "ipv4p_set_frag_offset value data =
     do { raw \<leftarrow> get_u16 6 data; put_u16 6 ((raw AND 0xe000) OR drop_bit 3 value) data }"

definition ipv4p_set_hop_limit :: "u8 \<Rightarrow> u8 list \<Rightarrow> u8 list option" where "ipv4p_set_hop_limit v data = put_u8 8 v data"

definition ipv4p_set_next_header :: "ip_protocol \<Rightarrow> u8 list \<Rightarrow> u8 list option" where
  "ipv4p_set_next_header v data = put_u8 9 (protocol_into_u8 v) data"

definition ipv4p_set_checksum :: "u16 \<Rightarrow> u8 list \<Rightarrow> u8 list option" where "ipv4p_set_checksum v data = put_u16 10 v data"

text \<open>An address is four octets; \<open>copy_from_slice\<close> panics on another length.\<close>

definition ipv4p_set_src_addr :: "u8 list \<Rightarrow> u8 list \<Rightarrow> u8 list option" where
  "ipv4p_set_src_addr v data = (if length v = 4 then put_slice 12 v data else None)"

definition ipv4p_set_dst_addr :: "u8 list \<Rightarrow> u8 list \<Rightarrow> u8 list option" where
  "ipv4p_set_dst_addr v data = (if length v = 4 then put_slice 16 v data else None)"

definition ipv4p_fill_checksum :: "u8 list \<Rightarrow> u8 list option" where
  "ipv4p_fill_checksum data =
     do { data \<leftarrow> ipv4p_set_checksum 0 data;
          h \<leftarrow> ipv4p_header_len data;
          header \<leftarrow> slice_range 0 (unat h) data;
          let checksum = NOT (checksum_data header);
          ipv4p_set_checksum checksum data }"

section \<open>Representation\<close>

definition ipv4_parse :: "u8 list \<Rightarrow> checksum_caps \<Rightarrow> (wire_error + ipv4_repr) option" where
  "ipv4_parse packet caps =
     try_then (ipv4p_check_len packet) (\<lambda>_.
       do { version \<leftarrow> ipv4p_version packet;
            if version \<noteq> 4 then Some (Inl Wire_Error)
            else do {
              valid \<leftarrow> (if checksum_rx (caps_ipv4 caps) then ipv4p_verify_checksum packet else Some True);
              if \<not> valid then Some (Inl Wire_Error)
              else do {
                t \<leftarrow> ipv4p_total_len packet; h \<leftarrow> ipv4p_header_len packet;
                payload_len \<leftarrow> checked_sub (unat t) (unat h);
                src_addr \<leftarrow> ipv4p_src_addr packet; dst_addr \<leftarrow> ipv4p_dst_addr packet;
                next_header \<leftarrow> ipv4p_next_header packet; hop_limit \<leftarrow> ipv4p_hop_limit packet;
                Some (Inr \<lparr>v4_src_addr = src_addr, v4_dst_addr = dst_addr, v4_next_header = next_header,
                           v4_payload_len = payload_len, v4_hop_limit = hop_limit\<rparr>) } } })"

text \<open>\<open>header_len() as u16 + payload_len as u16\<close> panics when it overflows.\<close>

definition ipv4_emit :: "ipv4_repr \<Rightarrow> checksum_caps \<Rightarrow> u8 list \<Rightarrow> u8 list option" where
  "ipv4_emit repr caps packet =
     do { packet \<leftarrow> ipv4p_set_version 4 packet;
          packet \<leftarrow> ipv4p_set_header_len 20 packet;
          packet \<leftarrow> ipv4p_set_dscp 0 packet;
          packet \<leftarrow> ipv4p_set_ecn 0 packet;
          h \<leftarrow> ipv4p_header_len packet;
          let total_len = unat h + v4_payload_len repr mod 65536;
          packet \<leftarrow> (if total_len < 65536 then ipv4p_set_total_len (of_nat total_len) packet else None);
          packet \<leftarrow> ipv4p_set_ident 0 packet;
          packet \<leftarrow> ipv4p_clear_flags packet;
          packet \<leftarrow> ipv4p_set_more_frags False packet;
          packet \<leftarrow> ipv4p_set_dont_frag True packet;
          packet \<leftarrow> ipv4p_set_frag_offset 0 packet;
          packet \<leftarrow> ipv4p_set_hop_limit (v4_hop_limit repr) packet;
          packet \<leftarrow> ipv4p_set_next_header (v4_next_header repr) packet;
          packet \<leftarrow> ipv4p_set_src_addr (v4_src_addr repr) packet;
          packet \<leftarrow> ipv4p_set_dst_addr (v4_dst_addr repr) packet;
          if checksum_tx (caps_ipv4 caps) then ipv4p_fill_checksum packet else ipv4p_set_checksum 0 packet }"

lemmas ipv4p_defs = ipv4p_version_def ipv4p_header_len_def ipv4p_total_len_def ipv4p_ident_def ipv4p_dont_frag_def
  ipv4p_more_frags_def ipv4p_frag_offset_def ipv4p_hop_limit_def ipv4p_next_header_def ipv4p_checksum_def
  ipv4p_src_addr_def ipv4p_dst_addr_def ipv4p_set_version_def ipv4p_set_header_len_def ipv4p_set_dscp_def
  ipv4p_set_ecn_def ipv4p_set_total_len_def ipv4p_set_ident_def ipv4p_clear_flags_def ipv4p_set_dont_frag_def
  ipv4p_set_more_frags_def ipv4p_set_frag_offset_def ipv4p_set_hop_limit_def ipv4p_set_next_header_def
  ipv4p_set_checksum_def ipv4p_set_src_addr_def ipv4p_set_dst_addr_def

section \<open>What is guaranteed\<close>

lemma ipv4_header_len_le: "ipv4p_header_len data = Some h \<Longrightarrow> unat h \<le> 60"
proof -
  assume "ipv4p_header_len data = Some h"
  then obtain b :: u8 where h: "h = (b AND 0x0f) * 4" by (auto simp: ipv4p_header_len_def bind_eq_Some_conv)
  have "b AND 0x0f \<le> 0x0f" by (rule word_and_le1)
  then have le: "unat (b AND 0x0f) \<le> 15" by (simp add: word_le_nat_alt)
  then have "unat ((b AND 0x0f) * 4) = unat (b AND 0x0f) * 4" by (subst unat_word_ariths) simp
  then show "unat h \<le> 60" using le by (simp add: h)
qed

lemma ipv4_check_len_total: "ipv4p_check_len data \<noteq> None"
  by (auto simp: ipv4p_check_len_def ipv4p_header_len_def ipv4p_total_len_def not_less)

lemma ipv4_check_len_ok:
  assumes "ipv4p_check_len data = Some (Inr ())"
  obtains h t where "ipv4p_header_len data = Some h" "ipv4p_total_len data = Some t" "20 \<le> length data"
    "unat h \<le> unat t" "unat t \<le> length data"
proof -
  from assms have "20 \<le> length data" by (simp add: ipv4p_check_len_def split: if_splits)
  then obtain h t where ht: "ipv4p_header_len data = Some h" "ipv4p_total_len data = Some t"
    by (simp add: ipv4p_header_len_def ipv4p_total_len_def)
  then have "unat h \<le> unat t" "unat t \<le> length data"
    using assms \<open>20 \<le> length data\<close>
    by (auto simp: ipv4p_check_len_def not_less word_le_nat_alt unat_ucast_mod split: if_splits)
      (use u8_less [of h] in simp)
  with ht \<open>20 \<le> length data\<close> show thesis using that by blast
qed

lemma ipv4_accessors_total:
  assumes "20 \<le> length data"
  shows "\<exists>x. ipv4p_version data = Some x" "\<exists>x. ipv4p_src_addr data = Some x" "\<exists>x. ipv4p_dst_addr data = Some x"
    "\<exists>x. ipv4p_next_header data = Some x" "\<exists>x. ipv4p_hop_limit data = Some x"
  using assms by (simp_all add: ipv4p_defs)

lemma ipv4_parse_total: "ipv4_parse packet caps \<noteq> None"
proof (cases "ipv4p_check_len packet = Some (Inr ())")
  case True
  then obtain h t where ht: "ipv4p_header_len packet = Some h" "ipv4p_total_len packet = Some t" "20 \<le> length packet"
    "unat h \<le> unat t" "unat t \<le> length packet" by (rule ipv4_check_len_ok)
  have "\<exists>v. ipv4p_verify_checksum packet = Some v" using ht by (simp add: ipv4p_verify_checksum_def)
  then show ?thesis using True ht ipv4_accessors_total [OF ht(3)] by (auto simp: ipv4_parse_def)
next
  case False
  then show ?thesis
    using ipv4_check_len_total [of packet] by (cases "ipv4p_check_len packet") (auto simp: ipv4_parse_def try_then_def split: sum.splits)
qed

definition ipv4_header :: "ipv4_repr \<Rightarrow> u8 list \<Rightarrow> u8 list" where
  "ipv4_header repr packet =
     poke 16 (v4_dst_addr repr) (poke 12 (v4_src_addr repr) (poke 9 [protocol_into_u8 (v4_next_header repr)]
       (poke 8 [v4_hop_limit repr] (poke 6 (be_bytes 2 0x4000) (poke 4 (be_bytes 2 0)
         (poke 2 (be_bytes 2 (20 + v4_payload_len repr)) (poke 1 [0] (poke 0 [0x45] packet))))))))"

lemma length_ipv4_header [simp]: "length (ipv4_header repr packet) = length packet"
  by (simp add: ipv4_header_def)

lemma version_byte: "(((b AND NOT 0xf0) OR push_bit 4 4) AND NOT 0x0f) OR ((20 div 4) AND 0x0f) = (0x45 :: u8)"
proof -
  have n: "NOT 0xf0 = (0x0f :: u8)" "NOT 0x0f = (0xf0 :: u8)" by simp_all
  have "(b AND 0x0f) AND 0xf0 = (0 :: u8)" by (simp add: and.assoc)
  then show ?thesis unfolding n bit.conj_disj_distrib2 by simp
qed

lemma ecn_byte: "(((b AND NOT 0xfc) OR push_bit 2 0) AND NOT 0x03) OR (0 AND 0x03) = (0 :: u8)"
proof -
  have n: "NOT 0xfc = (0x03 :: u8)" "NOT 0x03 = (0xfc :: u8)" by simp_all
  have "(b AND 0x03) AND 0xfc = (0 :: u8)" by (simp add: and.assoc)
  then show ?thesis unfolding n bit.conj_disj_distrib2 by simp
qed

lemma frag_word: "((((raw AND NOT 0xe000) AND NOT 0x2000) OR 0x4000) AND 0xe000) OR drop_bit 3 0 = (0x4000 :: u16)"
proof -
  have n: "NOT 0xe000 = (0x1fff :: u16)" by simp
  have "((raw AND 0x1fff) AND NOT 0x2000) AND 0xe000 = (0 :: u16)" by (simp add: and.assoc)
  then show ?thesis unfolding n bit.conj_disj_distrib2 by simp
qed

definition wire_ipv4 :: "ipv4_repr \<Rightarrow> bool" where
  "wire_ipv4 repr \<longleftrightarrow> length (v4_src_addr repr) = 4 \<and> length (v4_dst_addr repr) = 4 \<and> v4_payload_len repr \<le> 65515
     \<and> protocol_from_u8 (protocol_into_u8 (v4_next_header repr)) = v4_next_header repr"

lemma ipv4_emit_header:
  assumes "wire_ipv4 repr" "20 \<le> length packet"
  shows "ipv4_emit repr caps packet = (if checksum_tx (caps_ipv4 caps) then ipv4p_fill_checksum (ipv4_header repr packet)
     else ipv4p_set_checksum 0 (ipv4_header repr packet))"
proof -
  define p4 where "p4 = poke 1 [0] (poke 0 [0x45] packet)"
  have len: "length p4 = length packet" by (simp add: p4_def)
  have 1: "do { p \<leftarrow> ipv4p_set_version 4 packet; p \<leftarrow> ipv4p_set_header_len 20 p; p \<leftarrow> ipv4p_set_dscp 0 p; ipv4p_set_ecn 0 p } = Some p4"
    using assms(2) version_byte [of "packet ! 0"] ecn_byte [of "packet ! 1"]
    by (simp add: ipv4p_set_version_def ipv4p_set_header_len_def ipv4p_set_dscp_def ipv4p_set_ecn_def p4_def)
  have 2: "ipv4p_header_len p4 = Some 20" using assms(2) by (simp add: ipv4p_header_len_def p4_def)
  have 3: "do { p \<leftarrow> ipv4p_clear_flags p; p \<leftarrow> ipv4p_set_more_frags False p; p \<leftarrow> ipv4p_set_dont_frag True p;
       ipv4p_set_frag_offset 0 p } = Some (poke 6 (be_bytes 2 0x4000) p)" if "20 \<le> length p" for p
    using that frag_word [of "be_u16 (sub_slice 6 2 p)"]
    by (simp add: ipv4p_clear_flags_def ipv4p_set_more_frags_def ipv4p_set_dont_frag_def ipv4p_set_frag_offset_def)
  have tl: "unat (of_nat (20 + v4_payload_len repr) :: u16) = 20 + v4_payload_len repr"
    using assms(1) by (subst unat_of_nat) (simp add: wire_ipv4_def)
  have "ipv4_emit repr caps packet = do {
      p \<leftarrow> do { p \<leftarrow> ipv4p_set_version 4 packet; p \<leftarrow> ipv4p_set_header_len 20 p; p \<leftarrow> ipv4p_set_dscp 0 p; ipv4p_set_ecn 0 p };
      h \<leftarrow> ipv4p_header_len p;
      let total_len = unat h + v4_payload_len repr mod 65536;
      p \<leftarrow> (if total_len < 65536 then ipv4p_set_total_len (of_nat total_len) p else None);
      p \<leftarrow> ipv4p_set_ident 0 p;
      p \<leftarrow> do { p \<leftarrow> ipv4p_clear_flags p; p \<leftarrow> ipv4p_set_more_frags False p; p \<leftarrow> ipv4p_set_dont_frag True p;
               ipv4p_set_frag_offset 0 p };
      p \<leftarrow> ipv4p_set_hop_limit (v4_hop_limit repr) p;
      p \<leftarrow> ipv4p_set_next_header (v4_next_header repr) p;
      p \<leftarrow> ipv4p_set_src_addr (v4_src_addr repr) p;
      p \<leftarrow> ipv4p_set_dst_addr (v4_dst_addr repr) p;
      if checksum_tx (caps_ipv4 caps) then ipv4p_fill_checksum p else ipv4p_set_checksum 0 p }"
    by (simp add: ipv4_emit_def)
  also have "\<dots> = (if checksum_tx (caps_ipv4 caps) then ipv4p_fill_checksum (ipv4_header repr packet)
     else ipv4p_set_checksum 0 (ipv4_header repr packet))"
  proof -
    let ?p5 = "poke 2 (be_bytes 2 (20 + v4_payload_len repr)) p4"
    let ?p6 = "poke 4 (be_bytes 2 0) ?p5"
    let ?n = "unat (20 :: u8) + v4_payload_len repr mod 65536"
    have n: "?n = 20 + v4_payload_len repr" using assms(1) by (simp add: wire_ipv4_def)
    have 4: "(if ?n < 65536 then ipv4p_set_total_len (of_nat ?n) p4 else None) = Some ?p5"
      unfolding n using assms tl by (simp add: wire_ipv4_def ipv4p_set_total_len_def len)
    have 5: "ipv4p_set_ident 0 ?p5 = Some ?p6" using assms(2) len by (simp add: ipv4p_set_ident_def)
    have 6: "20 \<le> length ?p6" using assms(2) len by simp
    let ?p7 = "poke 6 (be_bytes 2 0x4000) ?p6"
    have 7: "do { p \<leftarrow> ipv4p_set_hop_limit (v4_hop_limit repr) ?p7; p \<leftarrow> ipv4p_set_next_header (v4_next_header repr) p;
        p \<leftarrow> ipv4p_set_src_addr (v4_src_addr repr) p; p \<leftarrow> ipv4p_set_dst_addr (v4_dst_addr repr) p; f p } = f (ipv4_header repr packet)" for f :: "u8 list \<Rightarrow> u8 list option"
      using assms len by (simp add: wire_ipv4_def ipv4p_set_hop_limit_def ipv4p_set_next_header_def
          ipv4p_set_src_addr_def ipv4p_set_dst_addr_def ipv4_header_def p4_def)
    show ?thesis by (simp only: 1 2 4 5 3 [OF 6] 7 bind.bind_lunit Let_def)
  qed
  finally show ?thesis .
qed

lemma ipv4_header_fields:
  assumes "wire_ipv4 repr" "20 \<le> length packet" "out = poke 10 (be_bytes 2 (unat (c :: u16))) (ipv4_header repr packet)"
  shows "ipv4p_version out = Some 4" "ipv4p_header_len out = Some 20"
    "\<exists>t. ipv4p_total_len out = Some t \<and> unat t = 20 + v4_payload_len repr"
    "ipv4p_src_addr out = Some (v4_src_addr repr)" "ipv4p_dst_addr out = Some (v4_dst_addr repr)"
    "ipv4p_next_header out = Some (v4_next_header repr)" "ipv4p_hop_limit out = Some (v4_hop_limit repr)"
    "ipv4p_more_frags out = Some False" "ipv4p_frag_offset out = Some 0"
    "drop 20 out = drop 20 packet"
proof -
  have len: "length out = length packet" using assms(3) by simp
  show "\<exists>t. ipv4p_total_len out = Some t \<and> unat t = 20 + v4_payload_len repr"
    using assms by (simp add: ipv4p_total_len_def ipv4_header_def wire_ipv4_def unat_be_u16)
  have f: "be_u16 (be_bytes 2 0x4000) = 0x4000" by (simp add: be_u16_def)
  show "ipv4p_more_frags out = Some False" "ipv4p_frag_offset out = Some 0"
    using assms f by (simp_all add: ipv4p_more_frags_def ipv4p_frag_offset_def ipv4_header_def wire_ipv4_def)
  show "ipv4p_version out = Some 4" "ipv4p_header_len out = Some 20"
    "ipv4p_src_addr out = Some (v4_src_addr repr)" "ipv4p_dst_addr out = Some (v4_dst_addr repr)"
    "ipv4p_next_header out = Some (v4_next_header repr)" "ipv4p_hop_limit out = Some (v4_hop_limit repr)"
    "drop 20 out = drop 20 packet"
    using assms len by (simp_all add: ipv4p_version_def ipv4p_header_len_def ipv4p_src_addr_def ipv4p_dst_addr_def
        ipv4p_next_header_def ipv4p_hop_limit_def ipv4_header_def wire_ipv4_def)
qed

lemma ipv4_fill_checksum_verifies:
  assumes "ipv4p_header_len h = Some 20" "20 \<le> length h"
  obtains c :: u16 where "ipv4p_fill_checksum h = Some (poke 10 (be_bytes 2 (unat c)) h)"
    "ipv4p_verify_checksum (poke 10 (be_bytes 2 (unat c)) h) = Some True"
proof -
  have hl: "ipv4p_header_len (poke 10 (be_bytes 2 (unat (c :: u16))) h) = Some 20" for c
    using assms by (simp add: ipv4p_header_len_def)
  let ?zeroed = "poke 10 (be_bytes 2 0) (sub_slice 0 20 h)"
  let ?c = "NOT (checksum_data ?zeroed)"
  have c: "unat ?c = 65535 - oc_norm (0 + word_sum ?zeroed)"
    using assms(2) by (simp add: unat_not_u16 unat_checksum_data)
  have filled: "oc_norm (0 + word_sum (poke 10 (be_bytes 2 (unat ?c)) (sub_slice 0 20 h))) = 65535"
    by (rule checksum_filled [OF _ _ c]) (use assms(2) in simp_all)
  have all_ones: "x = NOT 0 \<longleftrightarrow> unat x = 65535" for x :: u16
    by (metis diff_zero unat_0 unat_not_u16 word_unat_eq_iff)
  show thesis
  proof (rule that [of ?c])
    show "ipv4p_fill_checksum h = Some (poke 10 (be_bytes 2 (unat ?c)) h)"
      using assms(2) hl [of 0] by (simp add: ipv4p_fill_checksum_def ipv4p_set_checksum_def Let_def)
    show "ipv4p_verify_checksum (poke 10 (be_bytes 2 (unat ?c)) h) = Some True"
      using assms(2) filled
      by (simp only: ipv4p_verify_checksum_def hl bind.bind_lunit) (simp add: all_ones unat_checksum_data del: bit.compl_zero)
  qed
qed

lemma ipv4_header_header_len:
  "wire_ipv4 repr \<Longrightarrow> 20 \<le> length packet \<Longrightarrow> ipv4p_header_len (ipv4_header repr packet) = Some 20"
  by (simp add: ipv4p_header_len_def ipv4_header_def wire_ipv4_def)

lemma ipv4_emit_parse:
  assumes "wire_ipv4 repr" and "length packet = 20 + v4_payload_len repr"
    and "checksum_rx (caps_ipv4 rx_caps) \<Longrightarrow> checksum_tx (caps_ipv4 tx_caps)"
  shows "\<exists>out. ipv4_emit repr tx_caps packet = Some out \<and> length out = length packet
     \<and> ipv4_parse out rx_caps = Some (Inr repr) \<and> ipv4p_payload out = Some (drop 20 packet)"
proof -
  have len: "20 \<le> length packet" using assms(2) by simp
  have parse: "ipv4_parse out rx_caps = Some (Inr repr) \<and> ipv4p_payload out = Some (drop 20 packet) \<and> length out = length packet"
    if out: "out = poke 10 (be_bytes 2 (unat (c :: u16))) (ipv4_header repr packet)"
      and valid: "checksum_rx (caps_ipv4 rx_caps) \<Longrightarrow> ipv4p_verify_checksum out = Some True" for out c
  proof -
    note fields = ipv4_header_fields [OF assms(1) len out]
    obtain t where t: "ipv4p_total_len out = Some t" "unat t = 20 + v4_payload_len repr" using fields(3) by blast
    have lo: "length out = length packet" using out by simp
    have "\<not> ucast (20 :: u8) > t" using t(2) by (simp add: word_less_nat_alt)
    then have "ipv4p_check_len out = Some (Inr ())"
      using fields(2) t assms(2) lo by (simp add: ipv4p_check_len_def)
    moreover have "ipv4p_payload out = Some (drop 20 packet)"
      using fields(2,10) t assms(2) lo by (simp add: ipv4p_payload_def sub_slice_def)
    ultimately show ?thesis using fields t valid lo by (simp add: ipv4_parse_def)
  qed
  obtain c where c: "ipv4p_fill_checksum (ipv4_header repr packet) = Some (poke 10 (be_bytes 2 (unat (c :: u16))) (ipv4_header repr packet))"
    "ipv4p_verify_checksum (poke 10 (be_bytes 2 (unat c)) (ipv4_header repr packet)) = Some True"
    by (rule ipv4_fill_checksum_verifies [of "ipv4_header repr packet"]) (use ipv4_header_header_len [OF assms(1) len] len in simp_all)
  show ?thesis
  proof (cases "checksum_tx (caps_ipv4 tx_caps)")
    case True
    then show ?thesis using parse [OF refl, of c] c ipv4_emit_header [OF assms(1) len] by simp
  next
    case False
    then have "\<not> checksum_rx (caps_ipv4 rx_caps)" using assms(3) by blast
    then show ?thesis
      using False parse [OF refl, of 0] len ipv4_emit_header [OF assms(1) len] by (simp add: ipv4p_set_checksum_def)
  qed
qed

text \<open>C26. An IPv4 header survives the wire: emitting it in front of a payload succeeds, leaves the payload as it
  is, and parsing gives back the same header and delimits exactly that payload; a receiver that
  verifies the header checksum accepts it. The addresses have four octets, the packet at most 65535,
  and the protocol is in the form its number parses to.\<close>

theorem ipv4_emit_parse_roundtrip:
  assumes "wire_ipv4 repr" and "length packet = 20 + v4_payload_len repr"
    and "checksum_rx (caps_ipv4 rx_caps) \<Longrightarrow> checksum_tx (caps_ipv4 tx_caps)"
  shows "\<exists>out. ipv4_emit repr tx_caps packet = Some out \<and> length out = length packet
     \<and> ipv4_parse out rx_caps = Some (Inr repr) \<and> ipv4p_payload out = Some (drop 20 packet)"
  using assms by (rule ipv4_emit_parse)

definition sample_ipv4 :: ipv4_repr where
  "sample_ipv4 = \<lparr>v4_src_addr = [192, 168, 1, 1], v4_dst_addr = [192, 168, 1, 2], v4_next_header = Udp,
     v4_payload_len = 4, v4_hop_limit = 64\<rparr>"

theorem ipv4_emit_parse_roundtrip_witness:
  "\<exists>out. ipv4_emit sample_ipv4 (checksum_caps_ignored\<lparr>caps_ipv4 := Checksum_Both\<rparr>) (replicate 20 0xa5 @ [1, 2, 3, 4]) = Some out
     \<and> length out = 24 \<and> ipv4_parse out (checksum_caps_ignored\<lparr>caps_ipv4 := Checksum_Both\<rparr>) = Some (Inr sample_ipv4)
     \<and> ipv4p_payload out = Some [1, 2, 3, 4]"
  using ipv4_emit_parse_roundtrip [of sample_ipv4 "replicate 20 0xa5 @ [1, 2, 3, 4]"
      "checksum_caps_ignored\<lparr>caps_ipv4 := Checksum_Both\<rparr>" "checksum_caps_ignored\<lparr>caps_ipv4 := Checksum_Both\<rparr>"]
  by (simp add: wire_ipv4_def sample_ipv4_def protocol_from_u8_def checksum_tx_def)

text \<open>The format of a packet whose payload is already in the buffer.\<close>

interpretation ipv4_format: wire_format "\<lambda>repr. 20 + v4_payload_len repr" "\<lambda>repr. ipv4_emit repr caps"
  "\<lambda>packet. ipv4_parse packet caps" "\<lambda>repr. wire_ipv4 repr \<and> (checksum_rx (caps_ipv4 caps) \<longrightarrow> checksum_tx (caps_ipv4 caps))"
  for caps
proof unfold_locales
  fix r :: ipv4_repr and buf :: "u8 list"
  assume "wire_ipv4 r \<and> (checksum_rx (caps_ipv4 caps) \<longrightarrow> checksum_tx (caps_ipv4 caps))" "length buf = 20 + v4_payload_len r"
  then show "\<exists>out. ipv4_emit r caps buf = Some out \<and> length out = length buf \<and> ipv4_parse out caps = Some (Inr r)"
    using ipv4_emit_parse [of r buf caps caps] by auto
qed

end
