(* ===== verification/Udp_Wire.thy ===== *)
theory Udp_Wire
  imports Ip_Checksum
begin

text \<open>
  UDP datagrams on the wire, \<open>Packet\<close> and \<open>Repr\<close> of \<^verbatim>\<open>src/wire/udp.rs\<close>. A packet is its buffer. The closure
  \<open>emit_payload\<close> is a function on the contents of the slice it is given.
\<close>

unbundle bit_operations_syntax

definition UDP_HEADER_LEN :: nat where "UDP_HEADER_LEN = 8"

definition udpp_src_port :: "u8 list \<Rightarrow> u16 option" where "udpp_src_port data = get_u16 0 data"
definition udpp_dst_port :: "u8 list \<Rightarrow> u16 option" where "udpp_dst_port data = get_u16 2 data"
definition udpp_len :: "u8 list \<Rightarrow> u16 option" where "udpp_len data = get_u16 4 data"
definition udpp_checksum :: "u8 list \<Rightarrow> u16 option" where "udpp_checksum data = get_u16 6 data"

definition udpp_check_len :: "u8 list \<Rightarrow> (wire_error + unit) option" where
  "udpp_check_len data =
     (if length data < UDP_HEADER_LEN then Some (Inl Wire_Error)
      else do { l \<leftarrow> udpp_len data;
                let field_len = unat l;
                Some (if length data < field_len \<or> field_len < UDP_HEADER_LEN then Inl Wire_Error else Inr ()) })"

definition udpp_new_checked :: "u8 list \<Rightarrow> (wire_error + u8 list) option" where
  "udpp_new_checked buffer = try_then (udpp_check_len buffer) (\<lambda>_. Some (Inr buffer))"

definition udpp_verify_checksum :: "ip_address \<Rightarrow> ip_address \<Rightarrow> u8 list \<Rightarrow> bool option" where
  "udpp_verify_checksum src_addr dst_addr data =
     do { c \<leftarrow> udpp_checksum data;
          if c = 0 then Some True
          else do { l \<leftarrow> udpp_len data;
                    ph \<leftarrow> pseudo_header src_addr dst_addr Udp (ucast l);
                    datagram \<leftarrow> slice_range 0 (unat l) data;
                    Some (checksum_combine [ph, checksum_data datagram] = NOT 0) } }"

definition udpp_payload :: "u8 list \<Rightarrow> u8 list option" where
  "udpp_payload data = do { l \<leftarrow> udpp_len data; slice_range 8 (unat l) data }"

definition udpp_set_src_port :: "u16 \<Rightarrow> u8 list \<Rightarrow> u8 list option" where "udpp_set_src_port v data = put_u16 0 v data"
definition udpp_set_dst_port :: "u16 \<Rightarrow> u8 list \<Rightarrow> u8 list option" where "udpp_set_dst_port v data = put_u16 2 v data"
definition udpp_set_len :: "u16 \<Rightarrow> u8 list \<Rightarrow> u8 list option" where "udpp_set_len v data = put_u16 4 v data"
definition udpp_set_checksum :: "u16 \<Rightarrow> u8 list \<Rightarrow> u8 list option" where "udpp_set_checksum v data = put_u16 6 v data"

definition udpp_fill_checksum :: "ip_address \<Rightarrow> ip_address \<Rightarrow> u8 list \<Rightarrow> u8 list option" where
  "udpp_fill_checksum src_addr dst_addr data =
     do { data \<leftarrow> udpp_set_checksum 0 data;
          l \<leftarrow> udpp_len data;
          ph \<leftarrow> pseudo_header src_addr dst_addr Udp (ucast l);
          datagram \<leftarrow> slice_range 0 (unat l) data;
          let checksum = NOT (checksum_combine [ph, checksum_data datagram]);
          udpp_set_checksum (if checksum = 0 then 0xffff else checksum) data }"

text \<open>The contents of \<open>payload_mut()\<close> after the closure has run on it; a slice keeps its length.\<close>

definition udpp_write_payload :: "(u8 list \<Rightarrow> u8 list) \<Rightarrow> u8 list \<Rightarrow> u8 list option" where
  "udpp_write_payload emit_payload data =
     do { payload \<leftarrow> udpp_payload data; put_slice 8 (take (length payload) (emit_payload payload)) data }"

record udp_repr =
  u_src_port :: u16
  u_dst_port :: u16

definition udp_parse ::
  "u8 list \<Rightarrow> ip_address \<Rightarrow> ip_address \<Rightarrow> checksum_caps \<Rightarrow> (wire_error + udp_repr) option" where
  "udp_parse packet src_addr dst_addr caps =
     try_then (udpp_check_len packet) (\<lambda>_.
       do { dst_port \<leftarrow> udpp_dst_port packet;
            if dst_port = 0 then Some (Inl Wire_Error)
            else do {
              valid \<leftarrow> (if checksum_rx (caps_udp caps) then udpp_verify_checksum src_addr dst_addr packet else Some True);
              c \<leftarrow> udpp_checksum packet;
              if \<not> valid \<and> \<not> (addr_version src_addr = Version_Ipv4 \<and> addr_version dst_addr = Version_Ipv4 \<and> c = 0)
              then Some (Inl Wire_Error)
              else do { src_port \<leftarrow> udpp_src_port packet;
                        Some (Inr \<lparr>u_src_port = src_port, u_dst_port = dst_port\<rparr>) } } })"

definition udp_header_len :: "udp_repr \<Rightarrow> nat" where "udp_header_len repr = UDP_HEADER_LEN"

definition udp_emit_header :: "udp_repr \<Rightarrow> nat \<Rightarrow> u8 list \<Rightarrow> u8 list option" where
  "udp_emit_header repr payload_len packet =
     do { packet \<leftarrow> udpp_set_src_port (u_src_port repr) packet;
          packet \<leftarrow> udpp_set_dst_port (u_dst_port repr) packet;
          packet \<leftarrow> udpp_set_len (of_nat (UDP_HEADER_LEN + payload_len)) packet;
          udpp_set_checksum 0 packet }"

definition udp_emit ::
  "udp_repr \<Rightarrow> ip_address \<Rightarrow> ip_address \<Rightarrow> nat \<Rightarrow> (u8 list \<Rightarrow> u8 list) \<Rightarrow> checksum_caps \<Rightarrow> u8 list \<Rightarrow> u8 list option" where
  "udp_emit repr src_addr dst_addr payload_len emit_payload caps packet =
     do { packet \<leftarrow> udpp_set_src_port (u_src_port repr) packet;
          packet \<leftarrow> udpp_set_dst_port (u_dst_port repr) packet;
          packet \<leftarrow> udpp_set_len (of_nat (UDP_HEADER_LEN + payload_len)) packet;
          packet \<leftarrow> udpp_write_payload emit_payload packet;
          if checksum_tx (caps_udp caps) then udpp_fill_checksum src_addr dst_addr packet
          else udpp_set_checksum 0 packet }"

lemma udp_check_len_ok:
  assumes "udpp_check_len data = Some (Inr ())"
  obtains l where "udpp_len data = Some l" "8 \<le> unat l" "unat l \<le> length data" "8 \<le> length data"
  using assms by (auto simp: udpp_check_len_def UDP_HEADER_LEN_def bind_eq_Some_conv Let_def not_less split: if_splits)

lemma udp_parse_total:
  assumes "addr_version src_addr = addr_version dst_addr"
  shows "udp_parse packet src_addr dst_addr caps \<noteq> None"
proof (cases "udpp_check_len packet = Some (Inr ())")
  case True
  then obtain l where l: "udpp_len packet = Some l" "8 \<le> unat l" "unat l \<le> length packet" "8 \<le> length packet"
    by (rule udp_check_len_ok)
  obtain ph where "pseudo_header src_addr dst_addr Udp (ucast l) = Some ph"
    using assms by (cases src_addr; cases dst_addr) simp_all
  then have "\<exists>v. udpp_verify_checksum src_addr dst_addr packet = Some v"
    using l by (cases "be_u16 (sub_slice 6 2 packet) = 0") (auto simp: udpp_verify_checksum_def udpp_checksum_def)
  then show ?thesis
    using True l by (auto simp: udp_parse_def udpp_dst_port_def udpp_src_port_def udpp_checksum_def)
next
  case False
  moreover have "udpp_check_len packet \<noteq> None"
    by (simp add: udpp_check_len_def udpp_len_def UDP_HEADER_LEN_def Let_def not_less)
  ultimately show ?thesis
    by (cases "udpp_check_len packet") (auto simp: udp_parse_def try_then_def split: sum.splits)
qed

definition udp_body :: "udp_repr \<Rightarrow> u8 list \<Rightarrow> u8 list \<Rightarrow> u8 list" where
  "udp_body repr payload packet = poke 8 payload (poke 4 (be_bytes 2 (8 + length payload))
     (poke 2 (be_bytes 2 (unat (u_dst_port repr))) (poke 0 (be_bytes 2 (unat (u_src_port repr))) packet)))"

lemma length_udp_body [simp]: "length (udp_body repr payload packet) = length packet"
  by (simp add: udp_body_def)

lemma udp_emit_body:
  assumes "length packet = 8 + n" "8 + n < 65536" "length (emit_payload (drop 8 packet)) = n"
  shows "udp_emit repr src_addr dst_addr n emit_payload caps packet =
    (if checksum_tx (caps_udp caps) then udpp_fill_checksum src_addr dst_addr (udp_body repr (emit_payload (drop 8 packet)) packet)
     else udpp_set_checksum 0 (udp_body repr (emit_payload (drop 8 packet)) packet))"
proof -
  have n: "unat (of_nat (UDP_HEADER_LEN + n) :: u16) = 8 + n"
    using assms(2) by (subst unat_of_nat) (simp add: UDP_HEADER_LEN_def)
  define p where "p = poke 4 (be_bytes 2 (8 + n)) (poke 2 (be_bytes 2 (unat (u_dst_port repr)))
      (poke 0 (be_bytes 2 (unat (u_src_port repr))) packet))"
  have len: "length p = 8 + n" using assms(1) by (simp add: p_def)
  have l: "\<exists>l. udpp_len p = Some l \<and> unat l = 8 + n"
    using assms(1,2) by (simp add: udpp_len_def p_def unat_be_u16)
  then have "udpp_payload p = Some (drop 8 p)" using len by (auto simp: udpp_payload_def sub_slice_def)
  moreover have "drop 8 p = drop 8 packet" by (simp add: p_def)
  ultimately have w: "udpp_write_payload emit_payload p = Some (udp_body repr (emit_payload (drop 8 packet)) packet)"
    using assms(1,3) len by (simp add: udpp_write_payload_def udp_body_def p_def)
  have "udp_emit repr src_addr dst_addr n emit_payload caps packet = do {
      packet \<leftarrow> udpp_write_payload emit_payload p;
      if checksum_tx (caps_udp caps) then udpp_fill_checksum src_addr dst_addr packet else udpp_set_checksum 0 packet }"
    using assms(1) n by (simp add: udp_emit_def udpp_set_src_port_def udpp_set_dst_port_def udpp_set_len_def p_def)
  then show ?thesis by (simp only: w bind.bind_lunit)
qed

lemma all_ones_u16: "x = NOT 0 \<longleftrightarrow> unat (x :: u16) = 65535"
  by (metis diff_zero unat_0 unat_not_u16 word_unat_eq_iff)

lemma udp_fill_verifies:
  assumes "addr_version src_addr = addr_version dst_addr" "length data < 65536" "8 \<le> length data"
    "sub_slice 4 2 data = be_bytes 2 (length data)"
  obtains c :: u16 where "udpp_fill_checksum src_addr dst_addr data = Some (poke 6 (be_bytes 2 (unat c)) data)"
    "c \<noteq> 0" "udpp_verify_checksum src_addr dst_addr (poke 6 (be_bytes 2 (unat c)) data) = Some True"
proof -
  have l: "\<exists>l. udpp_len (poke 6 xs data) = Some l \<and> unat l = length data" if "length xs = 2" for xs
    using assms(2-4) by (simp add: udpp_len_def unat_be_u16)
  define l where "l = be_u16 (be_bytes 2 (length data))"
  have ul: "unat l = length data" using assms(2) by (simp add: l_def unat_be_u16)
  have len: "udpp_len (poke 6 xs data) = Some l" for xs
    using assms(3,4) by (simp add: udpp_len_def l_def)
  obtain ph where ph: "pseudo_header src_addr dst_addr Udp (ucast l) = Some ph"
    using assms(1) by (cases src_addr; cases dst_addr) simp_all
  let ?zeroed = "poke 6 (be_bytes 2 0) data"
  let ?s = "unat ph + word_sum ?zeroed"
  let ?n = "NOT (checksum_combine [ph, checksum_data ?zeroed])"
  let ?c = "if ?n = 0 then 0xffff else ?n"
  have n: "unat ?n = 65535 - oc_norm ?s"
    using assms(2) by (simp add: unat_not_u16 unat_checksum_combine unat_checksum_data)
  have sum: "oc_norm (unat ph + word_sum (poke 6 (be_bytes 2 (unat ?c)) data)) = 65535"
  proof (cases "?n = 0")
    case True
    then have "unat ?n = 0" by (simp only: unat_0)
    then have top: "oc_norm ?s = 65535" using n oc_norm_le [of ?s] by simp
    have "word_sum (poke 6 (be_bytes 2 (unat (0xffff :: u16))) data) = word_sum ?zeroed + 65535"
      using assms(3) by (simp add: word_sum_poke word_sum_be_bytes)
    then have "oc_norm (unat ph + word_sum (poke 6 (be_bytes 2 (unat (0xffff :: u16))) data)) = oc_norm (oc_norm ?s + 65535)"
      by (simp add: add.assoc)
    then show ?thesis using True top by (simp add: oc_norm_def)
  next
    case False
    have "oc_norm (unat ph + word_sum (poke 6 (be_bytes 2 (unat ?n)) data)) = 65535"
      by (rule checksum_filled [OF _ _ n]) (use assms(3) in simp_all)
    then show ?thesis using False by simp
  qed
  show thesis
  proof (rule that [of ?c])
    show "udpp_fill_checksum src_addr dst_addr data = Some (poke 6 (be_bytes 2 (unat ?c)) data)"
      using assms(2,3) ul by (simp add: udpp_fill_checksum_def udpp_set_checksum_def len ph Let_def sub_slice_def)
    show "?c \<noteq> 0" by simp
    have all: "sub_slice 0 (unat l) (poke 6 xs data) = poke 6 xs data" for xs
      by (simp add: ul sub_slice_def)
    have "be_u16 (sub_slice 6 2 (poke 6 (be_bytes 2 (unat ?c)) data)) = ?c"
      using assms(3) by simp
    moreover have "slice_range 0 (unat l) (poke 6 (be_bytes 2 (unat ?c)) data) = Some (poke 6 (be_bytes 2 (unat ?c)) data)"
      by (simp add: ul sub_slice_def)
    moreover have "checksum_combine [ph, checksum_data (poke 6 (be_bytes 2 (unat ?c)) data)] = NOT 0"
      using sum assms(2) by (simp add: all_ones_u16 unat_checksum_combine unat_checksum_data del: bit.compl_zero)
    moreover have "udpp_checksum (poke 6 (be_bytes 2 (unat ?c)) data) = Some (be_u16 (sub_slice 6 2 (poke 6 (be_bytes 2 (unat ?c)) data)))"
      using assms(3) by (simp add: udpp_checksum_def)
    ultimately show "udpp_verify_checksum src_addr dst_addr (poke 6 (be_bytes 2 (unat ?c)) data) = Some True"
      using \<open>?c \<noteq> 0\<close> by (simp only: udpp_verify_checksum_def len ph bind.bind_lunit if_False simp_thms)
  qed
qed

lemma udp_emit_parse:
  assumes "length packet = 8 + n" and "8 + n < 65536" and "u_dst_port repr \<noteq> 0"
    and "length (emit_payload (drop 8 packet)) = n" and "addr_version src_addr = addr_version dst_addr"
  shows "\<exists>out. udp_emit repr src_addr dst_addr n emit_payload tx_caps packet = Some out \<and> length out = length packet
     \<and> udp_parse out src_addr dst_addr rx_caps = Some (Inr repr) \<and> udpp_payload out = Some (emit_payload (drop 8 packet))
     \<and> (checksum_tx (caps_udp tx_caps) \<longrightarrow> udpp_checksum out \<noteq> Some 0)"
proof -
  let ?payload = "emit_payload (drop 8 packet)"
  let ?body = "udp_body repr ?payload packet"
  have parse: "udp_parse out src_addr dst_addr rx_caps = Some (Inr repr) \<and> udpp_payload out = Some ?payload
      \<and> length out = length packet \<and> udpp_checksum out = Some c"
    if out: "out = poke 6 (be_bytes 2 (unat (c :: u16))) ?body"
      and valid: "udpp_verify_checksum src_addr dst_addr out = Some True" for out c
  proof -
    have lo: "length out = 8 + n" using out assms(1) by simp
    have ports: "udpp_src_port out = Some (u_src_port repr)" "udpp_dst_port out = Some (u_dst_port repr)" "udpp_checksum out = Some c"
      using assms(1,4) by (simp_all add: out udp_body_def udpp_src_port_def udpp_dst_port_def udpp_checksum_def)
    have "\<exists>l. udpp_len out = Some l \<and> unat l = 8 + n"
      using assms(1,2,4) by (simp add: out udp_body_def udpp_len_def unat_be_u16)
    then obtain l where l: "udpp_len out = Some l" "unat l = 8 + n" by blast
    have "udpp_payload out = Some (sub_slice 8 n out)" using l lo by (simp add: udpp_payload_def)
    moreover have "sub_slice 8 n out = ?payload" using assms(1,4) by (simp add: out udp_body_def)
    moreover have "udpp_check_len out = Some (Inr ())" using l lo by (simp add: udpp_check_len_def UDP_HEADER_LEN_def)
    ultimately show ?thesis using ports valid assms(1,3) lo by (simp add: udp_parse_def)
  qed
  have field: "sub_slice 4 2 ?body = be_bytes 2 (length ?body)" using assms(1,4) by (simp add: udp_body_def)
  have lb: "length ?body < 65536" "8 \<le> length ?body" using assms(1,2) by simp_all
  show ?thesis
  proof (cases "checksum_tx (caps_udp tx_caps)")
    case True
    obtain c :: u16 where c: "udpp_fill_checksum src_addr dst_addr ?body = Some (poke 6 (be_bytes 2 (unat c)) ?body)" "c \<noteq> 0"
      "udpp_verify_checksum src_addr dst_addr (poke 6 (be_bytes 2 (unat c)) ?body) = Some True"
      by (rule udp_fill_verifies [OF assms(5) lb field])
    show ?thesis
      using udp_emit_body [where emit_payload = emit_payload, OF assms(1,2,4)] True c parse [OF refl c(3)] by simp
  next
    case False
    have "udpp_verify_checksum src_addr dst_addr (poke 6 (be_bytes 2 (unat (0 :: u16))) ?body) = Some True"
      using assms(1) by (simp add: udpp_verify_checksum_def udpp_checksum_def be_u16_def)
    from parse [OF refl this] show ?thesis
      using udp_emit_body [where emit_payload = emit_payload, OF assms(1,2,4)] False assms(1) by (simp add: udpp_set_checksum_def)
  qed
qed



text \<open>The format of datagrams with a given payload, between hosts of one IP version.\<close>

interpretation udp_format: wire_format "\<lambda>_. 8 + length payload"
  "\<lambda>repr. udp_emit repr (Ipv4 src) (Ipv4 dst) (length payload) (\<lambda>_. payload) caps"
  "\<lambda>packet. udp_parse packet (Ipv4 src) (Ipv4 dst) caps" "\<lambda>repr. u_dst_port repr \<noteq> 0 \<and> 8 + length payload < 65536"
  for src dst payload caps
proof unfold_locales
  fix r :: udp_repr and buf :: "u8 list"
  assume "u_dst_port r \<noteq> 0 \<and> 8 + length payload < 65536" "length buf = 8 + length payload"
  then show "\<exists>out. udp_emit r (Ipv4 src) (Ipv4 dst) (length payload) (\<lambda>_. payload) caps buf = Some out
      \<and> length out = length buf \<and> udp_parse out (Ipv4 src) (Ipv4 dst) caps = Some (Inr r)"
    using udp_emit_parse [of buf "length payload" r "\<lambda>_. payload" "Ipv4 src" "Ipv4 dst" caps caps] by auto
qed

end
