(* ===== verification/Link_Wire.thy ===== *)
theory Link_Wire
  imports Wire_Bytes
begin

text \<open>
  Ethernet frames and ARP packets, \<^verbatim>\<open>src/wire/ethernet.rs\<close> and \<^verbatim>\<open>src/wire/arp.rs\<close>. A frame or packet is its
  buffer, an address its octets.
\<close>

unbundle bit_operations_syntax

section \<open>Ethernet\<close>

datatype ethertype = Ether_Ipv4 | Ether_Arp | Ether_Ipv6 | Ether_Unknown u16

definition ethertype_from_u16 :: "u16 \<Rightarrow> ethertype" where
  "ethertype_from_u16 v = (if v = 0x0800 then Ether_Ipv4 else if v = 0x0806 then Ether_Arp
     else if v = 0x86DD then Ether_Ipv6 else Ether_Unknown v)"

primrec ethertype_into_u16 :: "ethertype \<Rightarrow> u16" where
  "ethertype_into_u16 Ether_Ipv4 = 0x0800"
| "ethertype_into_u16 Ether_Arp = 0x0806"
| "ethertype_into_u16 Ether_Ipv6 = 0x86DD"
| "ethertype_into_u16 (Ether_Unknown v) = v"

type_synonym eth_address = "u8 list"

definition ETH_BROADCAST :: eth_address where "ETH_BROADCAST = replicate 6 0xff"

definition eth_is_broadcast :: "eth_address \<Rightarrow> bool" where "eth_is_broadcast a \<longleftrightarrow> a = ETH_BROADCAST"
definition eth_is_multicast :: "eth_address \<Rightarrow> bool" where "eth_is_multicast a \<longleftrightarrow> (a ! 0) AND 0x01 \<noteq> 0"
definition eth_is_unicast :: "eth_address \<Rightarrow> bool" where
  "eth_is_unicast a \<longleftrightarrow> \<not> (eth_is_broadcast a \<or> eth_is_multicast a)"
definition eth_is_local :: "eth_address \<Rightarrow> bool" where "eth_is_local a \<longleftrightarrow> (a ! 0) AND 0x02 \<noteq> 0"

definition ETH_HEADER_LEN :: nat where "ETH_HEADER_LEN = 14"

definition ethf_check_len :: "u8 list \<Rightarrow> wire_error + unit" where
  "ethf_check_len data = (if length data < ETH_HEADER_LEN then Inl Wire_Error else Inr ())"

definition ethf_new_checked :: "u8 list \<Rightarrow> (wire_error + u8 list) option" where
  "ethf_new_checked buffer = try_then (Some (ethf_check_len buffer)) (\<lambda>_. Some (Inr buffer))"

definition ethf_buffer_len :: "nat \<Rightarrow> nat" where "ethf_buffer_len payload_len = ETH_HEADER_LEN + payload_len"

definition ethf_dst_addr :: "u8 list \<Rightarrow> eth_address option" where "ethf_dst_addr data = slice_range 0 6 data"
definition ethf_src_addr :: "u8 list \<Rightarrow> eth_address option" where "ethf_src_addr data = slice_range 6 12 data"

definition ethf_ethertype :: "u8 list \<Rightarrow> ethertype option" where
  "ethf_ethertype data = map_option ethertype_from_u16 (get_u16 12 data)"

definition ethf_payload :: "u8 list \<Rightarrow> u8 list option" where "ethf_payload data = slice_range 14 (length data) data"

definition ethf_set_dst_addr :: "eth_address \<Rightarrow> u8 list \<Rightarrow> u8 list option" where
  "ethf_set_dst_addr v data = (if length v = 6 then put_slice 0 v data else None)"

definition ethf_set_src_addr :: "eth_address \<Rightarrow> u8 list \<Rightarrow> u8 list option" where
  "ethf_set_src_addr v data = (if length v = 6 then put_slice 6 v data else None)"

definition ethf_set_ethertype :: "ethertype \<Rightarrow> u8 list \<Rightarrow> u8 list option" where
  "ethf_set_ethertype v data = put_u16 12 (ethertype_into_u16 v) data"

record eth_repr =
  eth_src_addr :: eth_address
  eth_dst_addr :: eth_address
  eth_ethertype :: ethertype

definition eth_parse :: "u8 list \<Rightarrow> (wire_error + eth_repr) option" where
  "eth_parse frame =
     try_then (Some (ethf_check_len frame)) (\<lambda>_.
       do { src_addr \<leftarrow> ethf_src_addr frame; dst_addr \<leftarrow> ethf_dst_addr frame; ethertype \<leftarrow> ethf_ethertype frame;
            Some (Inr \<lparr>eth_src_addr = src_addr, eth_dst_addr = dst_addr, eth_ethertype = ethertype\<rparr>) })"

definition eth_buffer_len :: "eth_repr \<Rightarrow> nat" where "eth_buffer_len repr = ETH_HEADER_LEN"

definition eth_emit :: "eth_repr \<Rightarrow> u8 list \<Rightarrow> u8 list option" where
  "eth_emit repr frame =
     do { rust_assert (length frame \<ge> eth_buffer_len repr);
          frame \<leftarrow> ethf_set_src_addr (eth_src_addr repr) frame;
          frame \<leftarrow> ethf_set_dst_addr (eth_dst_addr repr) frame;
          ethf_set_ethertype (eth_ethertype repr) frame }"

definition wire_eth :: "eth_repr \<Rightarrow> bool" where
  "wire_eth repr \<longleftrightarrow> length (eth_src_addr repr) = 6 \<and> length (eth_dst_addr repr) = 6
     \<and> ethertype_from_u16 (ethertype_into_u16 (eth_ethertype repr)) = eth_ethertype repr"

lemma eth_parse_total: "eth_parse frame \<noteq> None"
  by (cases "length frame < 14")
    (simp_all add: eth_parse_def ethf_check_len_def ETH_HEADER_LEN_def ethf_src_addr_def ethf_dst_addr_def ethf_ethertype_def)

lemma eth_emit_parse:
  assumes "wire_eth repr" "14 \<le> length frame"
  shows "\<exists>out. eth_emit repr frame = Some out \<and> length out = length frame \<and> eth_parse out = Some (Inr repr)
     \<and> ethf_payload out = ethf_payload frame"
  using assms
  by (simp add: wire_eth_def eth_emit_def eth_buffer_len_def ETH_HEADER_LEN_def ethf_set_src_addr_def ethf_set_dst_addr_def
      ethf_set_ethertype_def eth_parse_def ethf_check_len_def ethf_src_addr_def ethf_dst_addr_def ethf_ethertype_def
      ethf_payload_def)

interpretation eth_format: wire_format eth_buffer_len eth_emit eth_parse wire_eth
proof
  fix repr and frame :: "u8 list"
  assume "wire_eth repr" "length frame = eth_buffer_len repr"
  then show "\<exists>out. eth_emit repr frame = Some out \<and> length out = length frame \<and> eth_parse out = Some (Inr repr)"
    using eth_emit_parse [of repr frame] by (auto simp: eth_buffer_len_def ETH_HEADER_LEN_def)
qed

section \<open>ARP\<close>

datatype arp_hardware = Hw_Ethernet | Hw_Unknown u16
datatype arp_operation = Arp_Request | Arp_Reply | Arp_Unknown u16

definition hardware_from_u16 :: "u16 \<Rightarrow> arp_hardware" where
  "hardware_from_u16 v = (if v = 1 then Hw_Ethernet else Hw_Unknown v)"

primrec hardware_into_u16 :: "arp_hardware \<Rightarrow> u16" where
  "hardware_into_u16 Hw_Ethernet = 1"
| "hardware_into_u16 (Hw_Unknown v) = v"

definition operation_from_u16 :: "u16 \<Rightarrow> arp_operation" where
  "operation_from_u16 v = (if v = 1 then Arp_Request else if v = 2 then Arp_Reply else Arp_Unknown v)"

primrec operation_into_u16 :: "arp_operation \<Rightarrow> u16" where
  "operation_into_u16 Arp_Request = 1"
| "operation_into_u16 Arp_Reply = 2"
| "operation_into_u16 (Arp_Unknown v) = v"

text \<open>The end of each address field (the first starts at octet 8), for the lengths of hardware and protocol addresses.\<close>

definition SHA_end :: "u8 \<Rightarrow> u8 \<Rightarrow> nat" where "SHA_end hl pl = 8 + unat hl"
definition SPA_end :: "u8 \<Rightarrow> u8 \<Rightarrow> nat" where "SPA_end hl pl = SHA_end hl pl + unat pl"
definition THA_end :: "u8 \<Rightarrow> u8 \<Rightarrow> nat" where "THA_end hl pl = SPA_end hl pl + unat hl"
definition TPA_end :: "u8 \<Rightarrow> u8 \<Rightarrow> nat" where "TPA_end hl pl = THA_end hl pl + unat pl"

definition arpp_hardware_type :: "u8 list \<Rightarrow> arp_hardware option" where
  "arpp_hardware_type data = map_option hardware_from_u16 (get_u16 0 data)"
definition arpp_protocol_type :: "u8 list \<Rightarrow> ethertype option" where
  "arpp_protocol_type data = map_option ethertype_from_u16 (get_u16 2 data)"
definition arpp_hardware_len :: "u8 list \<Rightarrow> u8 option" where "arpp_hardware_len data = get_u8 4 data"
definition arpp_protocol_len :: "u8 list \<Rightarrow> u8 option" where "arpp_protocol_len data = get_u8 5 data"
definition arpp_operation :: "u8 list \<Rightarrow> arp_operation option" where
  "arpp_operation data = map_option operation_from_u16 (get_u16 6 data)"

definition arpp_check_len :: "u8 list \<Rightarrow> (wire_error + unit) option" where
  "arpp_check_len data =
     (if length data < 8 then Some (Inl Wire_Error)
      else do { hl \<leftarrow> arpp_hardware_len data; pl \<leftarrow> arpp_protocol_len data;
                Some (if length data < TPA_end hl pl then Inl Wire_Error else Inr ()) })"

definition arpp_new_checked :: "u8 list \<Rightarrow> (wire_error + u8 list) option" where
  "arpp_new_checked buffer = try_then (arpp_check_len buffer) (\<lambda>_. Some (Inr buffer))"

definition arpp_source_hardware_addr :: "u8 list \<Rightarrow> u8 list option" where
  "arpp_source_hardware_addr data =
     do { hl \<leftarrow> arpp_hardware_len data; pl \<leftarrow> arpp_protocol_len data; slice_range 8 (SHA_end hl pl) data }"
definition arpp_source_protocol_addr :: "u8 list \<Rightarrow> u8 list option" where
  "arpp_source_protocol_addr data =
     do { hl \<leftarrow> arpp_hardware_len data; pl \<leftarrow> arpp_protocol_len data; slice_range (SHA_end hl pl) (SPA_end hl pl) data }"
definition arpp_target_hardware_addr :: "u8 list \<Rightarrow> u8 list option" where
  "arpp_target_hardware_addr data =
     do { hl \<leftarrow> arpp_hardware_len data; pl \<leftarrow> arpp_protocol_len data; slice_range (SPA_end hl pl) (THA_end hl pl) data }"
definition arpp_target_protocol_addr :: "u8 list \<Rightarrow> u8 list option" where
  "arpp_target_protocol_addr data =
     do { hl \<leftarrow> arpp_hardware_len data; pl \<leftarrow> arpp_protocol_len data; slice_range (THA_end hl pl) (TPA_end hl pl) data }"

definition arpp_set_hardware_type :: "arp_hardware \<Rightarrow> u8 list \<Rightarrow> u8 list option" where
  "arpp_set_hardware_type v data = put_u16 0 (hardware_into_u16 v) data"
definition arpp_set_protocol_type :: "ethertype \<Rightarrow> u8 list \<Rightarrow> u8 list option" where
  "arpp_set_protocol_type v data = put_u16 2 (ethertype_into_u16 v) data"
definition arpp_set_hardware_len :: "u8 \<Rightarrow> u8 list \<Rightarrow> u8 list option" where "arpp_set_hardware_len v data = put_u8 4 v data"
definition arpp_set_protocol_len :: "u8 \<Rightarrow> u8 list \<Rightarrow> u8 list option" where "arpp_set_protocol_len v data = put_u8 5 v data"
definition arpp_set_operation :: "arp_operation \<Rightarrow> u8 list \<Rightarrow> u8 list option" where
  "arpp_set_operation v data = put_u16 6 (operation_into_u16 v) data"

text \<open>\<open>data[from..to].copy_from_slice(value)\<close> panics unless the lengths agree.\<close>

definition copy_field :: "nat \<Rightarrow> nat \<Rightarrow> u8 list \<Rightarrow> u8 list \<Rightarrow> u8 list option" where
  "copy_field i j v data = (if i \<le> j \<and> j - i = length v then put_slice i v data else None)"

definition arpp_set_source_hardware_addr :: "u8 list \<Rightarrow> u8 list \<Rightarrow> u8 list option" where
  "arpp_set_source_hardware_addr v data =
     do { hl \<leftarrow> arpp_hardware_len data; pl \<leftarrow> arpp_protocol_len data; copy_field 8 (SHA_end hl pl) v data }"
definition arpp_set_source_protocol_addr :: "u8 list \<Rightarrow> u8 list \<Rightarrow> u8 list option" where
  "arpp_set_source_protocol_addr v data =
     do { hl \<leftarrow> arpp_hardware_len data; pl \<leftarrow> arpp_protocol_len data; copy_field (SHA_end hl pl) (SPA_end hl pl) v data }"
definition arpp_set_target_hardware_addr :: "u8 list \<Rightarrow> u8 list \<Rightarrow> u8 list option" where
  "arpp_set_target_hardware_addr v data =
     do { hl \<leftarrow> arpp_hardware_len data; pl \<leftarrow> arpp_protocol_len data; copy_field (SPA_end hl pl) (THA_end hl pl) v data }"
definition arpp_set_target_protocol_addr :: "u8 list \<Rightarrow> u8 list \<Rightarrow> u8 list option" where
  "arpp_set_target_protocol_addr v data =
     do { hl \<leftarrow> arpp_hardware_len data; pl \<leftarrow> arpp_protocol_len data; copy_field (THA_end hl pl) (TPA_end hl pl) v data }"

text \<open>The only kind of packet that is recognised, \<open>EthernetIpv4\<close>.\<close>

record arp_repr =
  arp_op :: arp_operation
  arp_source_hardware_addr :: eth_address
  arp_source_protocol_addr :: "u8 list"
  arp_target_hardware_addr :: eth_address
  arp_target_protocol_addr :: "u8 list"

definition arp_parse :: "u8 list \<Rightarrow> (wire_error + arp_repr) option" where
  "arp_parse packet =
     try_then (arpp_check_len packet) (\<lambda>_.
       do { ht \<leftarrow> arpp_hardware_type packet; pt \<leftarrow> arpp_protocol_type packet;
            hl \<leftarrow> arpp_hardware_len packet; pl \<leftarrow> arpp_protocol_len packet;
            if ht = Hw_Ethernet \<and> pt = Ether_Ipv4 \<and> hl = 6 \<and> pl = 4
            then do { oper \<leftarrow> arpp_operation packet;
                      sha \<leftarrow> arpp_source_hardware_addr packet; spa \<leftarrow> arpp_source_protocol_addr packet;
                      tha \<leftarrow> arpp_target_hardware_addr packet; tpa \<leftarrow> arpp_target_protocol_addr packet;
                      Some (Inr \<lparr>arp_op = oper, arp_source_hardware_addr = sha, arp_source_protocol_addr = spa,
                                 arp_target_hardware_addr = tha, arp_target_protocol_addr = tpa\<rparr>) }
            else Some (Inl Wire_Error) })"

definition arp_buffer_len :: "arp_repr \<Rightarrow> nat" where "arp_buffer_len repr = TPA_end 6 4"

definition arp_emit :: "arp_repr \<Rightarrow> u8 list \<Rightarrow> u8 list option" where
  "arp_emit repr packet =
     do { packet \<leftarrow> arpp_set_hardware_type Hw_Ethernet packet;
          packet \<leftarrow> arpp_set_protocol_type Ether_Ipv4 packet;
          packet \<leftarrow> arpp_set_hardware_len 6 packet;
          packet \<leftarrow> arpp_set_protocol_len 4 packet;
          packet \<leftarrow> arpp_set_operation (arp_op repr) packet;
          packet \<leftarrow> arpp_set_source_hardware_addr (arp_source_hardware_addr repr) packet;
          packet \<leftarrow> arpp_set_source_protocol_addr (arp_source_protocol_addr repr) packet;
          packet \<leftarrow> arpp_set_target_hardware_addr (arp_target_hardware_addr repr) packet;
          arpp_set_target_protocol_addr (arp_target_protocol_addr repr) packet }"

definition wire_arp :: "arp_repr \<Rightarrow> bool" where
  "wire_arp repr \<longleftrightarrow> length (arp_source_hardware_addr repr) = 6 \<and> length (arp_source_protocol_addr repr) = 4
     \<and> length (arp_target_hardware_addr repr) = 6 \<and> length (arp_target_protocol_addr repr) = 4
     \<and> operation_from_u16 (operation_into_u16 (arp_op repr)) = arp_op repr"

lemmas arp_ends = SHA_end_def SPA_end_def THA_end_def TPA_end_def

lemmas arpp_access = arpp_hardware_type_def arpp_protocol_type_def arpp_hardware_len_def arpp_protocol_len_def
  arpp_operation_def arpp_source_hardware_addr_def arpp_source_protocol_addr_def arpp_target_hardware_addr_def
  arpp_target_protocol_addr_def arpp_set_hardware_type_def arpp_set_protocol_type_def arpp_set_hardware_len_def
  arpp_set_protocol_len_def arpp_set_operation_def arpp_set_source_hardware_addr_def arpp_set_source_protocol_addr_def
  arpp_set_target_hardware_addr_def arpp_set_target_protocol_addr_def copy_field_def

lemma arp_parse_total: "arp_parse packet \<noteq> None"
proof (cases "arpp_check_len packet")
  case None
  then show ?thesis by (simp add: arpp_check_len_def arpp_hardware_len_def arpp_protocol_len_def split: if_splits)
next
  case (Some r)
  show ?thesis
  proof (cases r)
    case (Inr u)
    with Some have "8 \<le> length packet" "TPA_end (packet ! 4) (packet ! 5) \<le> length packet"
      by (auto simp: arpp_check_len_def arpp_hardware_len_def arpp_protocol_len_def split: if_splits)
    moreover from this(2) have "packet ! 4 = 6 \<and> packet ! 5 = 4 \<Longrightarrow> 28 \<le> length packet" by (simp add: arp_ends)
    ultimately show ?thesis by (auto simp add: arp_parse_def Some Inr arpp_access arp_ends)
  qed (simp add: arp_parse_def Some)
qed

lemma arp_emit_parse:
  assumes "wire_arp repr" "length packet = 28"
  shows "\<exists>out. arp_emit repr packet = Some out \<and> length out = length packet \<and> arp_parse out = Some (Inr repr)"
  using assms
  by (simp add: wire_arp_def arp_emit_def arp_parse_def arpp_check_len_def arpp_access arp_ends
      hardware_from_u16_def ethertype_from_u16_def be_u16_be_bytes_of_nat)

interpretation arp_format: wire_format arp_buffer_len arp_emit arp_parse wire_arp
  by unfold_locales (use arp_emit_parse in \<open>simp add: arp_buffer_len_def arp_ends\<close>)

text \<open>C28. ARP packets and Ethernet headers survive the wire: emitting a representation into a buffer of its length
  succeeds and parsing returns it, so that two packets with the same octets say the same.\<close>

theorem arp_in_ethernet_roundtrip:
  assumes "wire_arp arp" and "wire_eth eth" and "eth_ethertype eth = Ether_Arp" and "length frame = 42"
  shows "\<exists>packet out. arp_emit arp (drop 14 frame) = Some packet \<and> eth_emit eth (take 14 frame @ packet) = Some out
     \<and> eth_parse out = Some (Inr eth) \<and> (\<exists>payload. ethf_payload out = Some payload \<and> arp_parse payload = Some (Inr arp))"
proof -
  obtain packet where p: "arp_emit arp (drop 14 frame) = Some packet" "length packet = 28" "arp_parse packet = Some (Inr arp)"
    using arp_format.emit_parse [OF assms(1), of "drop 14 frame"] assms(4) by (auto simp: arp_buffer_len_def arp_ends)
  have "14 \<le> length (take 14 frame @ packet)" using p(2) assms(4) by simp
  from eth_emit_parse [OF assms(2) this] obtain out where
    "eth_emit eth (take 14 frame @ packet) = Some out" "eth_parse out = Some (Inr eth)"
    "ethf_payload out = ethf_payload (take 14 frame @ packet)" by blast
  moreover have "ethf_payload (take 14 frame @ packet) = Some packet"
    using p(2) assms(4) by (simp add: ethf_payload_def sub_slice_def)
  ultimately show ?thesis using p by simp
qed

definition sample_arp :: arp_repr where
  "sample_arp = \<lparr>arp_op = Arp_Request, arp_source_hardware_addr = [2, 0, 0, 0, 0, 1], arp_source_protocol_addr = [192, 0, 2, 1],
     arp_target_hardware_addr = ETH_BROADCAST, arp_target_protocol_addr = [192, 0, 2, 7]\<rparr>"

definition sample_eth :: eth_repr where
  "sample_eth = \<lparr>eth_src_addr = [2, 0, 0, 0, 0, 1], eth_dst_addr = ETH_BROADCAST, eth_ethertype = Ether_Arp\<rparr>"

theorem arp_in_ethernet_roundtrip_witness:
  "wire_arp sample_arp \<and> wire_eth sample_eth \<and> eth_ethertype sample_eth = Ether_Arp
   \<and> (\<exists>packet out. arp_emit sample_arp (drop 14 (replicate 42 0)) = Some packet
        \<and> eth_emit sample_eth (take 14 (replicate 42 0) @ packet) = Some out \<and> eth_parse out = Some (Inr sample_eth)
        \<and> (\<exists>payload. ethf_payload out = Some payload \<and> arp_parse payload = Some (Inr sample_arp)))"
proof -
  have *: "wire_arp sample_arp" "wire_eth sample_eth" "eth_ethertype sample_eth = Ether_Arp"
    by (simp_all add: sample_arp_def sample_eth_def wire_arp_def wire_eth_def ETH_BROADCAST_def operation_from_u16_def
        ethertype_from_u16_def)
  from * arp_in_ethernet_roundtrip [OF *, of "replicate 42 0"] show ?thesis by simp
qed

end
