(* ===== verification/Packet_Buffer.thy ===== *)
theory Packet_Buffer
  imports Ring_Buffer
begin

text \<open>
  The packet buffer of \<^verbatim>\<open>src/storage/packet_buffer.rs\<close>, which the UDP, ICMP and raw sockets use: a ring of
  metadata (size and header of each packet, or the size of a padding) beside a ring of octets. A packet is
  always contiguous in the storage; where it would wrap, a padding fills the end of the ring.

  The buffer is specified by the list of its datagrams, \<open>pb_packets\<close>, and refines the contract
  \<open>datagram_queue\<close>.
\<close>

section \<open>Model\<close>

record 'h packet_metadata =
  pm_size :: nat
  pm_header :: "'h option"

definition pm_padding :: "nat \<Rightarrow> 'h packet_metadata" where
  "pm_padding sz = \<lparr>pm_size = sz, pm_header = None\<rparr>"

definition pm_packet :: "nat \<Rightarrow> 'h \<Rightarrow> 'h packet_metadata" where
  "pm_packet sz header = \<lparr>pm_size = sz, pm_header = Some header\<rparr>"

definition pm_is_padding :: "'h packet_metadata \<Rightarrow> bool" where
  "pm_is_padding m \<longleftrightarrow> pm_header m = None"

record 'h packet_buffer =
  metadata_ring :: "'h packet_metadata ring_buffer"
  payload_ring :: "u8 ring_buffer"

definition pb_new :: "'h packet_metadata list \<Rightarrow> u8 list \<Rightarrow> 'h packet_buffer" where
  "pb_new metadata_storage payload_storage =
     \<lparr>metadata_ring = rb_new metadata_storage, payload_ring = rb_new payload_storage\<rparr>"

definition pb_is_empty :: "'h packet_buffer \<Rightarrow> bool" where
  "pb_is_empty pb \<longleftrightarrow> rb_is_empty (metadata_ring pb)"

definition pb_is_full :: "'h packet_buffer \<Rightarrow> bool" where
  "pb_is_full pb \<longleftrightarrow> rb_is_full (metadata_ring pb)"

text \<open>\<open>*self.metadata_ring.enqueue_one()? = m\<close>.\<close>

definition pb_push_metadata :: "'h packet_metadata \<Rightarrow> 'h packet_buffer \<Rightarrow> (full_error + unit) \<times> 'h packet_buffer" where
  "pb_push_metadata m pb = (case rb_enqueue_one (metadata_ring pb) of
      (Inl e, _) \<Rightarrow> (Inl e, pb)
    | (Inr i, ring) \<Rightarrow> (Inr (), pb\<lparr>metadata_ring := rb_poke i m ring\<rparr>))"

text \<open>
  The room for a packet: \<open>Inl\<close> when there is none, otherwise the buffer with the padding that the packet
  needs in front of it. The code is the same in \<open>enqueue\<close> and \<open>enqueue_with_infallible\<close>.
\<close>

definition pb_make_room :: "nat \<Rightarrow> 'h packet_buffer \<Rightarrow> ((full_error + unit) \<times> 'h packet_buffer) option" where
  "pb_make_room sz pb =
     (let window = rb_window (payload_ring pb);
          contig_window = rb_contiguous_window (payload_ring pb)
      in if window < sz then Some (Inl Full, pb)
         else if contig_window < sz then
           if window - contig_window < sz then Some (Inl Full, pb)
           else (case pb_push_metadata (pm_padding contig_window) pb of
                  (Inl e, pb) \<Rightarrow> Some (Inl e, pb)
                | (Inr _, pb) \<Rightarrow>
                    do { (_, ring) \<leftarrow> rb_enqueue_many contig_window (payload_ring pb);
                         Some (Inr (), pb\<lparr>payload_ring := ring\<rparr>) })
         else Some (Inr (), pb))"

text \<open>\<open>enqueue\<close> returns a mutable slice of the payload, here its first index and its length.\<close>

definition pb_enqueue ::
  "nat \<Rightarrow> 'h \<Rightarrow> 'h packet_buffer \<Rightarrow> ((full_error + nat \<times> nat) \<times> 'h packet_buffer) option" where
  "pb_enqueue sz header pb =
     (if rb_capacity (payload_ring pb) < sz \<or> rb_is_full (metadata_ring pb) then Some (Inl Full, pb)
      else do {
        let pb = (if rb_is_empty (payload_ring pb) then pb\<lparr>payload_ring := rb_clear (payload_ring pb)\<rparr> else pb);
        (room, pb) \<leftarrow> pb_make_room sz pb;
        case room of
          Inl e \<Rightarrow> Some (Inl e, pb)
        | Inr _ \<Rightarrow>
            (case pb_push_metadata (pm_packet sz header) pb of
              (Inl e, pb) \<Rightarrow> Some (Inl e, pb)
            | (Inr _, pb) \<Rightarrow>
                do { ((at, len), ring) \<leftarrow> rb_enqueue_many sz (payload_ring pb);
                     rust_assert (len = sz);
                     Some (Inr (at, len), pb\<lparr>payload_ring := ring\<rparr>) }) })"

text \<open>The caller's \<open>payload_buf.copy_from_slice(data)\<close>.\<close>

definition pb_fill :: "nat \<times> nat \<Rightarrow> u8 list \<Rightarrow> 'h packet_buffer \<Rightarrow> 'h packet_buffer option" where
  "pb_fill rng data pb =
     do { rust_assert (snd rng = length data);
          Some (pb\<lparr>payload_ring := (payload_ring pb)
                     \<lparr>rb_storage := blit (fst rng) data (rb_storage (payload_ring pb))\<rparr>\<rparr>) }"

definition pb_enqueue_with_infallible ::
  "nat \<Rightarrow> 'h \<Rightarrow> (u8 list \<Rightarrow> u8 list \<times> nat) \<Rightarrow> 'h packet_buffer \<Rightarrow>
   ((full_error + nat) \<times> 'h packet_buffer) option" where
  "pb_enqueue_with_infallible max_size header f pb =
     (if rb_capacity (payload_ring pb) < max_size \<or> rb_is_full (metadata_ring pb) then Some (Inl Full, pb)
      else do {
        (room, pb) \<leftarrow> pb_make_room max_size pb;
        case room of
          Inl e \<Rightarrow> Some (Inl e, pb)
        | Inr _ \<Rightarrow> do {
            ((sz, long_enough), ring) \<leftarrow> rb_enqueue_many_with
              (\<lambda>data. let (written, sz) = f (take max_size data)
                      in (written @ drop max_size data, sz, max_size \<le> length data)) (payload_ring pb);
            rust_assert long_enough;
            let pb = pb\<lparr>payload_ring := ring\<rparr>;
            (case pb_push_metadata (pm_packet sz header) pb of
              (Inl e, pb) \<Rightarrow> Some (Inl e, pb)
            | (Inr _, pb) \<Rightarrow> Some (Inr sz, pb)) } })"

definition pb_dequeue_padding :: "'h packet_buffer \<Rightarrow> 'h packet_buffer option" where
  "pb_dequeue_padding pb =
     (case rb_dequeue_one_with (\<lambda>m. (m, if pm_is_padding m then Inr (pm_size m) else Inl ())) (metadata_ring pb) of
       (Inr (Inr sz), ring) \<Rightarrow>
         do { (_, payload) \<leftarrow> rb_dequeue_many sz (payload_ring pb);
              Some \<lparr>metadata_ring = ring, payload_ring = payload\<rparr> }
     | (_, ring) \<Rightarrow> Some (pb\<lparr>metadata_ring := ring\<rparr>))"

text \<open>The closure may change the header and the payload in place; the packet stays when it fails.\<close>

definition pb_dequeue_with ::
  "('h \<Rightarrow> u8 list \<Rightarrow> 'h \<times> u8 list \<times> ('e + 'r)) \<Rightarrow> 'h packet_buffer \<Rightarrow>
   ((empty_error + ('e + 'r)) \<times> 'h packet_buffer) option" where
  "pb_dequeue_with f pb =
     do { pb \<leftarrow> pb_dequeue_padding pb;
          let ring = metadata_ring pb;
          if rb_is_empty ring then Some (Inl Empty, pb)
          else do {
            let metadata = rb_storage ring ! rb_read_at ring;
            header \<leftarrow> pm_header metadata;
            ((_, long_enough, header, res), payload) \<leftarrow> rb_dequeue_many_with
              (\<lambda>buf. let (header, data, res) = f header (take (pm_size metadata) buf)
                     in (data @ drop (pm_size metadata) buf,
                         (case res of Inr _ \<Rightarrow> pm_size metadata | Inl _ \<Rightarrow> 0),
                         pm_size metadata \<le> length buf, header, res)) (payload_ring pb);
            rust_assert long_enough;
            let (res, ring) = rb_dequeue_one_with (\<lambda>m. (m\<lparr>pm_header := Some header\<rparr>, res)) ring;
            Some (res, \<lparr>metadata_ring = ring, payload_ring = payload\<rparr>) } }"

definition pb_dequeue ::
  "'h packet_buffer \<Rightarrow> ((empty_error + 'h \<times> u8 list) \<times> 'h packet_buffer) option" where
  "pb_dequeue pb =
     do { pb \<leftarrow> pb_dequeue_padding pb;
          (case rb_dequeue_one (metadata_ring pb) of
            (Inl e, _) \<Rightarrow> Some (Inl e, pb)
          | (Inr i, ring) \<Rightarrow>
              do { let meta = rb_storage ring ! i;
                   ((at, len), payload) \<leftarrow> rb_dequeue_many (pm_size meta) (payload_ring pb);
                   rust_assert (len = pm_size meta);
                   header \<leftarrow> pm_header meta;
                   Some (Inr (header, sub_slice at len (rb_storage payload)),
                         \<lparr>metadata_ring = rb_poke i (meta\<lparr>pm_header := None\<rparr>) ring, payload_ring = payload\<rparr>) }) }"

definition pb_peek ::
  "'h packet_buffer \<Rightarrow> ((empty_error + 'h \<times> u8 list) \<times> 'h packet_buffer) option" where
  "pb_peek pb =
     do { pb \<leftarrow> pb_dequeue_padding pb;
          (case rb_get_allocated (metadata_ring pb) 0 1 of
            metadata # _ \<Rightarrow>
              do { header \<leftarrow> pm_header metadata;
                   Some (Inr (header, rb_get_allocated (payload_ring pb) 0 (pm_size metadata)), pb) }
          | [] \<Rightarrow> Some (Inl Empty, pb)) }"

definition pb_packet_capacity :: "'h packet_buffer \<Rightarrow> nat" where
  "pb_packet_capacity pb = rb_capacity (metadata_ring pb)"

definition pb_payload_capacity :: "'h packet_buffer \<Rightarrow> nat" where
  "pb_payload_capacity pb = rb_capacity (payload_ring pb)"

definition pb_reset :: "'h packet_buffer \<Rightarrow> 'h packet_buffer" where
  "pb_reset pb = \<lparr>metadata_ring = rb_clear (metadata_ring pb), payload_ring = rb_clear (payload_ring pb)\<rparr>"

section \<open>Specification\<close>

fun packets_of :: "'h packet_metadata list \<Rightarrow> u8 list \<Rightarrow> ('h \<times> u8 list) list" where
  "packets_of [] bs = []"
| "packets_of (m # ms) bs =
     (case pm_header m of None \<Rightarrow> [] | Some h \<Rightarrow> [(h, take (pm_size m) bs)]) @ packets_of ms (drop (pm_size m) bs)"

definition pb_packets :: "'h packet_buffer \<Rightarrow> ('h \<times> u8 list) list" where
  "pb_packets pb = packets_of (rb_contents (metadata_ring pb)) (rb_contents (payload_ring pb))"

text \<open>The chunks, from offset \<open>off\<close> on, do not wrap.\<close>

fun contiguous :: "u8 ring_buffer \<Rightarrow> nat \<Rightarrow> 'h packet_metadata list \<Rightarrow> bool" where
  "contiguous rb off [] \<longleftrightarrow> True"
| "contiguous rb off (m # ms) \<longleftrightarrow>
     (pm_size m = 0 \<or> pm_size m \<le> until_end rb off) \<and> contiguous rb (off + pm_size m) ms"

definition chunks_ok :: "u8 ring_buffer \<Rightarrow> 'h packet_metadata list \<Rightarrow> bool" where
  "chunks_ok rb ms \<longleftrightarrow> sum_list (map pm_size ms) = rb_length rb \<and> contiguous rb 0 ms
     \<and> (\<forall>m \<in> set ms. pm_is_padding m \<longrightarrow> 0 < pm_size m)
     \<and> successively (\<lambda>a b. \<not> (pm_is_padding a \<and> pm_is_padding b)) ms"

text \<open>A padding that is the last entry ends where the storage ends.\<close>

definition tail_ok :: "u8 ring_buffer \<Rightarrow> 'h packet_metadata list \<Rightarrow> bool" where
  "tail_ok rb ms \<longleftrightarrow> (ms \<noteq> [] \<longrightarrow> pm_is_padding (last ms) \<longrightarrow> rb_get_idx rb (rb_length rb) = 0)"

definition pb_inv :: "'h packet_buffer \<Rightarrow> bool" where
  "pb_inv pb \<longleftrightarrow> rb_inv (metadata_ring pb) \<and> rb_inv (payload_ring pb)
     \<and> chunks_ok (payload_ring pb) (rb_contents (metadata_ring pb))
     \<and> tail_ok (payload_ring pb) (rb_contents (metadata_ring pb))"

section \<open>Chunks\<close>

lemma pm_simps [simp]:
  "pm_size (pm_padding n) = n" "pm_header (pm_padding n) = None" "pm_is_padding (pm_padding n)"
  "pm_size (pm_packet n h) = n" "pm_header (pm_packet n h) = Some h" "\<not> pm_is_padding (pm_packet n h)"
  by (simp_all add: pm_padding_def pm_packet_def pm_is_padding_def)

lemma pb_update_all [simp]: "(pb :: 'h packet_buffer)\<lparr>metadata_ring := a, payload_ring := b\<rparr> = \<lparr>metadata_ring = a, payload_ring = b\<rparr>"
  by (cases pb) simp

lemma packets_of_append:
  "sum_list (map pm_size ms) = length bs \<Longrightarrow> packets_of (ms @ ms') (bs @ bs') = packets_of ms bs @ packets_of ms' bs'"
proof (induction ms arbitrary: bs)
  case (Cons m ms)
  then have "pm_size m \<le> length bs" by simp
  with Cons show ?case by (simp split: option.split)
qed simp

lemma contiguous_append:
  "contiguous rb off (ms @ ms') \<longleftrightarrow> contiguous rb off ms \<and> contiguous rb (off + sum_list (map pm_size ms)) ms'"
  by (induction ms arbitrary: off) (auto simp: add.assoc)

lemma contiguous_cong:
  "rb_read_at rb = rb_read_at rb' \<Longrightarrow> rb_capacity rb = rb_capacity rb' \<Longrightarrow> contiguous rb off ms = contiguous rb' off ms"
proof (induction ms arbitrary: off)
  case (Cons m ms)
  have "until_end rb off = until_end rb' off" using Cons.prems by (simp add: until_end_def rb_get_idx_def Let_def)
  with Cons show ?case by simp
qed simp

lemma contiguous_empty: "sum_list (map pm_size ms) = 0 \<Longrightarrow> contiguous rb off ms"
  by (induction ms arbitrary: off) auto

lemma contiguous_advance:
  "rb_capacity rb' = rb_capacity rb \<Longrightarrow> rb_read_at rb' = rb_get_idx rb n \<Longrightarrow>
   contiguous rb' off ms = contiguous rb (n + off) ms"
proof (induction ms arbitrary: off)
  case (Cons m ms)
  have "until_end rb' off = until_end rb (n + off)"
    using Cons.prems by (simp add: until_end_def rb_get_idx_def Let_def mod_add_left_eq add.assoc)
  with Cons show ?case by (simp add: add.assoc)
qed simp

section \<open>Reserving and releasing octets\<close>

lemma rb_reserve:
  assumes "rb_inv rb" and "n \<le> rb_contiguous_window (rb_norm rb)"
  shows "rb_enqueue_many n rb
     = Some ((rb_get_idx (rb_norm rb) (rb_length rb), n), (rb_norm rb)\<lparr>rb_length := rb_length rb + n\<rparr>)"
proof -
  let ?m = "rb_contiguous_window (rb_norm rb)"
  let ?buf = "take ?m (rb_free (rb_norm rb))"
  have inv: "rb_inv (rb_norm rb)" using assms(1) by simp
  have "?m \<le> rb_window rb" by (simp add: rb_contiguous_window_def)
  then have "(?buf, min n (length ?buf), ()) = (?buf, n, ())" using assms(2) by simp
  from rb_enqueue_many_with_eq [where f = "\<lambda>buf. (buf, min n (length buf), ())", OF this assms]
  have "rb_enqueue_many_with (\<lambda>buf. (buf, min n (length buf), ())) rb = Some ((n, ()), (rb_norm rb)
      \<lparr>rb_storage := blit (rb_get_idx (rb_norm rb) (rb_length rb)) ?buf (rb_storage rb), rb_length := rb_length rb + n\<rparr>)" .
  moreover have "?buf = sub_slice (rb_get_idx (rb_norm rb) (rb_length rb)) ?m (rb_storage rb)"
    using rb_contiguous_slice [OF inv, of ?m] by simp
  moreover have "rb_get_idx (rb_norm rb) (rb_length rb) + ?m \<le> length (rb_storage rb)"
    using rb_contiguous_window_le(2) [OF inv] by simp
  ultimately show ?thesis by (simp add: rb_enqueue_many_def rb_norm_def)
qed

lemma rb_reserved:
  assumes "rb_inv rb" and "n \<le> rb_window rb"
  shows "rb_inv ((rb_norm rb)\<lparr>rb_length := rb_length rb + n\<rparr>)"
    and "\<exists>bs. length bs = n \<and> rb_contents ((rb_norm rb)\<lparr>rb_length := rb_length rb + n\<rparr>) = rb_contents rb @ bs"
proof -
  show "rb_inv ((rb_norm rb)\<lparr>rb_length := rb_length rb + n\<rparr>)"
    using assms by (auto simp: rb_norm_def rb_inv_def rb_window_def rb_len_def)
  have "rb_contents ((rb_norm rb)\<lparr>rb_length := rb_length rb + n\<rparr>)
      = take (rb_length rb) (rb_view (rb_norm rb)) @ take n (drop (rb_length rb) (rb_view (rb_norm rb)))"
    by (simp add: rb_contents_def take_add)
  moreover have "take (rb_length rb) (rb_view (rb_norm rb)) = rb_contents rb"
    using rb_norm_simps(5) [of rb] by (simp add: rb_contents_def)
  moreover have "length (take n (drop (rb_length rb) (rb_view (rb_norm rb)))) = n"
    using assms by (simp add: rb_window_def rb_len_def)
  ultimately show "\<exists>bs. length bs = n \<and> rb_contents ((rb_norm rb)\<lparr>rb_length := rb_length rb + n\<rparr>) = rb_contents rb @ bs"
    by metis
qed

lemma rb_release:
  assumes "rb_inv rb" and "n \<le> rb_length rb" and "n \<le> rb_capacity rb - rb_read_at rb"
  defines "rb' \<equiv> rb\<lparr>rb_read_at := rb_get_idx rb n, rb_length := rb_length rb - n\<rparr>"
  shows "rb_dequeue_many n rb = Some ((rb_read_at rb, n), rb')"
    and "rb_inv rb'" and "rb_contents rb' = drop n (rb_contents rb)"
    and "sub_slice (rb_read_at rb) n (rb_storage rb) = take n (rb_contents rb)"
proof -
  let ?m = "min (rb_length rb) (rb_capacity rb - rb_read_at rb)"
  let ?buf = "take ?m (rb_contents rb)"
  have len: "length ?buf = ?m" using assms(1) by simp
  have n: "n \<le> ?m" using assms(2,3) by simp
  have slice: "sub_slice (rb_read_at rb) ?m (rb_storage rb) = ?buf"
    using rb_dequeue_slice_area [OF assms(1), of ?m] by simp
  have bound: "rb_read_at rb + ?m \<le> length (rb_storage rb)"
    using assms(1) by (auto simp: rb_inv_def split: if_splits)
  have "(?buf, min n (length ?buf), ()) = (?buf, n, ())" using len n by simp
  from rb_dequeue_many_with_eq [where f = "\<lambda>buf. (buf, min n (length buf), ())", OF this assms(1) n len]
  have "rb_dequeue_many_with (\<lambda>buf. (buf, min n (length buf), ())) rb = Some ((n, ()), rb
      \<lparr>rb_storage := blit (rb_read_at rb) ?buf (rb_storage rb), rb_read_at := rb_get_idx rb n, rb_length := rb_length rb - n\<rparr>)" .
  moreover have st: "blit (rb_read_at rb) ?buf (rb_storage rb) = rb_storage rb"
    using bound by (simp flip: slice)
  ultimately show "rb_dequeue_many n rb = Some ((rb_read_at rb, n), rb')"
    by (simp add: rb_dequeue_many_def rb'_def)
  show "rb_inv rb'" "rb_contents rb' = drop n (rb_contents rb)"
    using rb_dequeue_at_front(1,3) [OF assms(1) len n] n st by (simp_all add: rb'_def drop_take_append)
  show "sub_slice (rb_read_at rb) n (rb_storage rb) = take n (rb_contents rb)"
    using rb_dequeue_slice_area [OF assms(1) n] .
qed

lemma pb_push_metadata_full: "rb_is_full (metadata_ring pb) \<Longrightarrow> pb_push_metadata m pb = (Inl Full, pb)"
  by (simp add: pb_push_metadata_def rb_enqueue_one_def)

lemma pb_push_metadata_room:
  assumes "rb_inv (metadata_ring pb)" and "\<not> rb_is_full (metadata_ring pb)"
  obtains ring where "pb_push_metadata m pb = (Inr (), pb\<lparr>metadata_ring := ring\<rparr>)" and "rb_inv ring"
    and "rb_capacity ring = rb_capacity (metadata_ring pb)"
    and "rb_contents ring = rb_contents (metadata_ring pb) @ [m]"
proof -
  from rb_enqueue_one_spec [OF assms, of m] show ?thesis
    using that by (fastforce simp: pb_push_metadata_def)
qed

section \<open>Enqueueing\<close>

lemma rb_contiguous_window_norm: "rb_contiguous_window rb \<le> rb_contiguous_window (rb_norm rb)"
  by (auto simp: rb_norm_def rb_contiguous_window_def rb_get_idx_def rb_window_def rb_len_def Let_def)

lemma chunks_push:
  assumes "rb_inv rb" and "chunks_ok rb ms" and "pm_size m \<le> rb_contiguous_window (rb_norm rb)"
    and "pm_is_padding m \<Longrightarrow> 0 < pm_size m \<and> (ms = [] \<or> \<not> pm_is_padding (last ms))"
  shows "chunks_ok ((rb_norm rb)\<lparr>rb_length := rb_length rb + pm_size m\<rparr>) (ms @ [m])"
proof -
  let ?rb = "(rb_norm rb)\<lparr>rb_length := rb_length rb + pm_size m\<rparr>"
  have total: "sum_list (map pm_size ms) = rb_length rb" using assms(2) by (simp add: chunks_ok_def)
  have "contiguous ?rb 0 ms"
  proof (cases "rb_length rb = 0")
    case True
    then show ?thesis using total by (intro contiguous_empty) simp
  next
    case False
    then have "contiguous ?rb 0 ms = contiguous rb 0 ms" by (intro contiguous_cong) (simp_all add: rb_norm_def)
    then show ?thesis using assms(2) by (simp add: chunks_ok_def)
  qed
  moreover have "pm_size m \<le> until_end ?rb (rb_length rb)"
  proof -
    have "rb_contiguous_window (rb_norm rb) \<le> rb_capacity rb - rb_get_idx (rb_norm rb) (rb_length rb)"
      by (simp add: rb_contiguous_window_def)
    then show ?thesis using assms(3) by (auto simp: until_end_def rb_get_idx_def Let_def split: if_splits)
  qed
  ultimately show ?thesis
    using assms(2,4) total by (auto simp: chunks_ok_def contiguous_append successively_append_iff)
qed

lemma padding_room:
  assumes "rb_inv rb" and "rb_contiguous_window rb < n" and "n \<le> rb_window rb - rb_contiguous_window rb"
  defines "rb' \<equiv> (rb_norm rb)\<lparr>rb_length := rb_length rb + rb_contiguous_window rb\<rparr>"
  shows "0 < rb_contiguous_window rb" and "n \<le> rb_contiguous_window (rb_norm rb')"
    and "rb_norm rb = rb \<Longrightarrow> rb_get_idx rb' (rb_length rb') = 0"
proof -
  let ?cap = "rb_capacity rb" and ?idx = "rb_get_idx rb (rb_length rb)"
  have w: "rb_contiguous_window rb < rb_window rb" using assms(2,3) by linarith
  then have cap: "0 < ?cap" by (simp add: rb_window_def)
  have idx: "?idx = (rb_read_at rb + rb_length rb) mod ?cap" using cap by (simp add: rb_get_idx_def)
  then have lt: "?idx < ?cap" using cap by simp
  have cw: "rb_contiguous_window rb = ?cap - ?idx" using w by (simp add: rb_contiguous_window_def)
  then show pos: "0 < rb_contiguous_window rb" using lt by simp
  have norm: "rb_norm rb' = rb'" using pos by (simp add: rb'_def rb_norm_def)
  have win: "rb_window rb' = rb_window rb - rb_contiguous_window rb"
    by (simp add: rb'_def rb_window_def rb_len_def)
  have zero: "rb_get_idx rb' (rb_length rb') = 0" if "rb_norm rb = rb"
  proof -
    have "rb_read_at rb + (rb_length rb + (?cap - ?idx)) = (rb_read_at rb + rb_length rb) div ?cap * ?cap + ?cap"
      using lt idx by (metis (no_types, lifting) add.assoc div_mult_mod_eq le_add_diff_inverse less_imp_le)
    then have "(rb_read_at rb + (rb_length rb + (?cap - ?idx))) mod ?cap = 0" by simp
    then show ?thesis using cap that cw by (simp add: rb'_def rb_get_idx_def Let_def)
  qed
  then show "rb_norm rb = rb \<Longrightarrow> rb_get_idx rb' (rb_length rb') = 0" .
  show "n \<le> rb_contiguous_window (rb_norm rb')"
  proof (cases "rb_norm rb = rb")
    case True
    have "rb_capacity rb' = ?cap" by (simp add: rb'_def)
    moreover have "rb_window rb \<le> ?cap" by (simp add: rb_window_def)
    ultimately show ?thesis using zero [OF True] norm win assms(3) by (simp add: rb_contiguous_window_def)
  next
    case False
    then have len: "rb_length rb = 0" "rb_read_at rb \<noteq> 0"
      by (auto simp: rb_norm_def split: if_splits) (cases rb, simp)
    then have "rb_read_at rb < ?cap" using assms(1) cap by (simp add: rb_inv_def)
    then have i: "?idx = rb_read_at rb" using len idx by simp
    have "rb_get_idx rb' (rb_length rb') = ?cap - rb_read_at rb"
      using len cw i cap by (simp add: rb'_def rb_norm_def rb_get_idx_def)
    moreover have "rb_capacity rb' = ?cap" by (simp add: rb'_def)
    moreover have "rb_window rb = ?cap" using len by (simp add: rb_window_def rb_len_def)
    ultimately show ?thesis using norm win assms(3) cw i by (simp add: rb_contiguous_window_def)
  qed
qed

definition rings_ok :: "'h packet_buffer \<Rightarrow> bool" where
  "rings_ok pb \<longleftrightarrow> rb_inv (metadata_ring pb) \<and> rb_inv (payload_ring pb)
     \<and> chunks_ok (payload_ring pb) (rb_contents (metadata_ring pb))"

lemma pb_inv_alt: "pb_inv pb \<longleftrightarrow> rings_ok pb \<and> tail_ok (payload_ring pb) (rb_contents (metadata_ring pb))"
  by (auto simp: pb_inv_def rings_ok_def)

lemma rings_ok_total:
  "rings_ok pb \<Longrightarrow> sum_list (map pm_size (rb_contents (metadata_ring pb))) = length (rb_contents (payload_ring pb))"
  by (simp add: rings_ok_def chunks_ok_def)

lemma pb_make_room_spec:
  assumes inv: "pb_inv pb" and room: "\<not> rb_is_full (metadata_ring pb)"
  shows "pb_make_room n pb = Some (Inl Full, pb) \<or>
    (\<exists>pb'. pb_make_room n pb = Some (Inr (), pb') \<and> rings_ok pb' \<and> pb_packets pb' = pb_packets pb
       \<and> rb_capacity (metadata_ring pb') = rb_capacity (metadata_ring pb)
       \<and> rb_capacity (payload_ring pb') = rb_capacity (payload_ring pb)
       \<and> n \<le> rb_contiguous_window (rb_norm (payload_ring pb'))
       \<and> rb_length (metadata_ring pb') \<le> rb_length (metadata_ring pb) + 1
       \<and> (rb_norm (payload_ring pb) = payload_ring pb \<longrightarrow> pb_inv pb'))"
proof -
  let ?rb = "payload_ring pb" and ?cw = "rb_contiguous_window (payload_ring pb)"
  consider (full) "rb_window ?rb < n \<or> ?cw < n \<and> rb_window ?rb - ?cw < n"
    | (direct) "n \<le> rb_window ?rb" "n \<le> ?cw" | (pad) "n \<le> rb_window ?rb" "?cw < n" "n \<le> rb_window ?rb - ?cw"
    by linarith
  then show ?thesis
  proof cases
    case full
    then show ?thesis by (auto simp: pb_make_room_def Let_def)
  next
    case direct
    have "?cw \<le> rb_contiguous_window (rb_norm ?rb)" by (rule rb_contiguous_window_norm)
    with direct inv show ?thesis by (simp add: pb_make_room_def pb_inv_alt Let_def)
  next
    case pad
    have rings: "rings_ok pb" "rb_inv ?rb" using inv by (simp_all add: pb_inv_alt rings_ok_def)
    note gap = padding_room [OF rings(2) pad(2,3)]
    obtain ring where ring: "pb_push_metadata (pm_padding ?cw) pb = (Inr (), pb\<lparr>metadata_ring := ring\<rparr>)" "rb_inv ring"
      "rb_capacity ring = rb_capacity (metadata_ring pb)" "rb_contents ring = rb_contents (metadata_ring pb) @ [pm_padding ?cw]"
      using pb_push_metadata_room [OF _ room] inv unfolding pb_inv_def by metis
    let ?rb' = "(rb_norm ?rb)\<lparr>rb_length := rb_length ?rb + ?cw\<rparr>"
    let ?pb = "\<lparr>metadata_ring = ring, payload_ring = ?rb'\<rparr>"
    have le: "?cw \<le> rb_window ?rb" "?cw \<le> rb_contiguous_window (rb_norm ?rb)"
      by (simp add: rb_contiguous_window_def) (rule rb_contiguous_window_norm)
    obtain bs where bs: "length bs = ?cw" "rb_contents ?rb' = rb_contents ?rb @ bs"
      using rb_reserved(2) [OF rings(2) le(1)] by blast
    have last: "rb_contents (metadata_ring pb) = [] \<or> \<not> pm_is_padding (last (rb_contents (metadata_ring pb)))"
    proof (rule ccontr)
      assume "\<not> ?thesis"
      then have "rb_get_idx ?rb (rb_length ?rb) = 0" using inv by (simp add: pb_inv_alt tail_ok_def)
      then have "?cw = rb_window ?rb" by (simp add: rb_contiguous_window_def rb_window_def)
      then show False using pad by simp
    qed
    have "chunks_ok ?rb' (rb_contents (metadata_ring pb) @ [pm_padding ?cw])"
      using chunks_push [OF rings(2), of "rb_contents (metadata_ring pb)" "pm_padding ?cw"] inv le last gap(1)
      by (simp add: pb_inv_def)
    then have ok: "rings_ok ?pb" using ring rb_reserved(1) [OF rings(2) le(1)] by (simp add: rings_ok_def)
    moreover have "pb_packets ?pb = pb_packets pb"
      using packets_of_append [OF rings_ok_total [OF rings(1)]] ring(4) bs by (simp add: pb_packets_def)
    moreover have "rb_norm ?rb = ?rb \<longrightarrow> pb_inv ?pb"
      using gap(3) ring(4) ok by (auto simp: tail_ok_def pb_inv_alt)
    moreover have "pb_make_room n pb = Some (Inr (), ?pb)"
      using pad ring(1) rb_reserve [OF rings(2) le(2)] by (simp add: pb_make_room_def Let_def)
    moreover have "rb_length (metadata_ring ?pb) = rb_length (metadata_ring pb) + 1"
      using ring(2,4) inv length_rb_contents [OF ring(2)] by (simp add: pb_inv_def)
    moreover have "rb_capacity (payload_ring ?pb) = rb_capacity ?rb"
      "rb_capacity (metadata_ring ?pb) = rb_capacity (metadata_ring pb)"
      "n \<le> rb_contiguous_window (rb_norm (payload_ring ?pb))"
      using ring(3) gap(2) by simp_all
    ultimately show ?thesis by (metis order_refl)
  qed
qed

lemma pb_clear_empty:
  fixes pb :: "'h packet_buffer"
  defines "pb' \<equiv> if rb_is_empty (payload_ring pb) then pb\<lparr>payload_ring := rb_clear (payload_ring pb)\<rparr> else pb"
  assumes "pb_inv pb"
  shows "pb_inv pb'" and "pb_packets pb' = pb_packets pb" and "rb_norm (payload_ring pb') = payload_ring pb'"
    and "metadata_ring pb' = metadata_ring pb" and "rb_capacity (payload_ring pb') = rb_capacity (payload_ring pb)"
proof -
  show "rb_norm (payload_ring pb') = payload_ring pb'"
    by (simp add: pb'_def rb_norm_def rb_is_empty_def rb_len_def rb_clear_def)
  show "metadata_ring pb' = metadata_ring pb" "rb_capacity (payload_ring pb') = rb_capacity (payload_ring pb)"
    by (simp_all add: pb'_def rb_clear_def)
  have cont: "rb_contents (payload_ring pb') = rb_contents (payload_ring pb)"
    by (simp add: pb'_def rb_contents_def rb_clear_def rb_is_empty_def rb_len_def)
  then show "pb_packets pb' = pb_packets pb" by (simp add: pb_packets_def pb'_def)
  show "pb_inv pb'"
  proof (cases "rb_is_empty (payload_ring pb)")
    case True
    let ?ms = "rb_contents (metadata_ring pb)"
    have zero: "sum_list (map pm_size ?ms) = 0"
      using assms True by (simp add: pb_inv_def chunks_ok_def rb_is_empty_def rb_len_def)
    have "\<not> pm_is_padding (last ?ms)" if "?ms \<noteq> []"
      using that assms(2) zero by (fastforce simp: pb_inv_def chunks_ok_def)
    then show ?thesis
      using assms(2) True zero contiguous_empty [OF zero]
      by (auto simp: pb'_def pb_inv_def chunks_ok_def tail_ok_def rb_clear_def rb_inv_def)
  qed (simp add: pb'_def assms)
qed

lemma pb_append_packet:
  fixes pb :: "'h packet_buffer"
  defines "rb \<equiv> payload_ring pb"
  assumes ok: "rings_ok pb" and n: "length data \<le> rb_contiguous_window (rb_norm rb)"
    and ring: "rb_inv ring" "rb_contents ring = rb_contents (metadata_ring pb) @ [pm_packet (length data) h]"
  defines "rb' \<equiv> (rb_norm rb)\<lparr>rb_length := rb_length rb + length data\<rparr>"
  defines "pb' \<equiv> \<lparr>metadata_ring = ring, payload_ring = rb'
      \<lparr>rb_storage := blit (rb_get_idx (rb_norm rb) (rb_length rb)) data (rb_storage rb')\<rparr>\<rparr>"
  shows "pb_inv pb'" and "pb_packets pb' = pb_packets pb @ [(h, data)]"
proof -
  let ?at = "rb_get_idx (rb_norm rb) (rb_length rb)"
  have inv: "rb_inv rb" "rb_inv (rb_norm rb)" using ok by (simp_all add: rings_ok_def rb_def)
  have w: "length data \<le> rb_window rb" using n by (simp add: rb_contiguous_window_def)
  then have len: "rb_length rb + length data \<le> rb_capacity rb"
    using inv(1) by (auto simp: rb_window_def rb_len_def rb_inv_def)
  have inv': "rb_inv rb'" using rb_reserved(1) [OF inv(1) w] by (simp add: rb'_def)
  have cap: "rb_capacity rb' = rb_capacity rb" by (simp add: rb'_def)
  have at: "?at + length data \<le> rb_capacity rb" using rb_contiguous_window_le(2) [OF inv(2)] n by simp
  have at': "?at = rb_get_idx rb' (rb_length rb)" by (simp add: rb'_def rb_get_idx_def Let_def)
  have "rb_view (rb'\<lparr>rb_storage := blit ?at data (rb_storage rb')\<rparr>) = blit (rb_length rb) data (rb_view rb')"
    using len at cap by (intro rb_view_blit [OF inv' _ at']) simp_all
  moreover have "take (rb_length rb) (rb_view rb') = rb_contents rb"
    using rb_norm_simps(5) [of rb] by (simp add: rb'_def rb_contents_def)
  ultimately have cont: "rb_contents (payload_ring pb') = rb_contents rb @ data"
    using len by (simp add: pb'_def rb_contents_def rb'_def blit_def)
  have "chunks_ok rb' (rb_contents ring)"
    using chunks_push [OF inv(1), of "rb_contents (metadata_ring pb)" "pm_packet (length data) h"] ok n ring(2)
    by (simp add: rings_ok_def rb_def rb'_def)
  moreover have "contiguous (payload_ring pb') 0 ms = contiguous rb' 0 ms" for ms :: "'h packet_metadata list"
    using at cap by (intro contiguous_cong) (simp_all add: pb'_def)
  ultimately have "chunks_ok (payload_ring pb') (rb_contents ring)" by (simp add: chunks_ok_def pb'_def)
  moreover have "rb_inv (payload_ring pb')" using inv' at cap by (auto simp: pb'_def rb_inv_def split: if_splits)
  ultimately show "pb_inv pb'" using ring by (simp add: pb_inv_def tail_ok_def pb'_def)
  show "pb_packets pb' = pb_packets pb @ [(h, data)]"
    using packets_of_append [OF rings_ok_total [OF ok]] cont ring(2) by (simp add: pb_packets_def pb'_def rb_def)
qed

text \<open>What \<open>process\<close> and \<open>send_slice\<close> of the sockets do: reserve the room of a datagram and copy it there.\<close>

definition pb_put :: "'h \<Rightarrow> u8 list \<Rightarrow> 'h packet_buffer \<Rightarrow> (bool \<times> 'h packet_buffer) option" where
  "pb_put header data pb =
     do { (res, pb) \<leftarrow> pb_enqueue (length data) header pb;
          (case res of
            Inl _ \<Rightarrow> Some (False, pb)
          | Inr buf \<Rightarrow> do { pb \<leftarrow> pb_fill buf data pb; Some (True, pb) }) }"

lemma pb_put_spec:
  assumes "pb_inv pb"
  shows "\<exists>ok pb'. pb_put h data pb = Some (ok, pb') \<and> pb_inv pb'
     \<and> pb_packets pb' = pb_packets pb @ (if ok then [(h, data)] else [])"
proof (cases "rb_capacity (payload_ring pb) < length data \<or> rb_is_full (metadata_ring pb)")
  case True
  then have "pb_put h data pb = Some (False, pb)" by (simp add: pb_put_def pb_enqueue_def)
  with assms show ?thesis by auto
next
  case False
  define pb0 where "pb0 = (if rb_is_empty (payload_ring pb) then pb\<lparr>payload_ring := rb_clear (payload_ring pb)\<rparr> else pb)"
  note pb0 = pb_clear_empty [OF assms, folded pb0_def]
  have room: "\<not> rb_is_full (metadata_ring pb0)" using False pb0(4) by simp
  have enq: "pb_enqueue (length data) h pb = (do {
        (room, pb) \<leftarrow> pb_make_room (length data) pb0;
        case room of
          Inl e \<Rightarrow> Some (Inl e, pb)
        | Inr _ \<Rightarrow>
            (case pb_push_metadata (pm_packet (length data) h) pb of
              (Inl e, pb) \<Rightarrow> Some (Inl e, pb)
            | (Inr _, pb) \<Rightarrow>
                do { ((at, len), ring) \<leftarrow> rb_enqueue_many (length data) (payload_ring pb);
                     rust_assert (len = length data);
                     Some (Inr (at, len), pb\<lparr>payload_ring := ring\<rparr>) }) })"
    using False by (simp add: pb_enqueue_def pb0_def)
  consider (no) "pb_make_room (length data) pb0 = Some (Inl Full, pb0)"
    | (yes) pb1 where "pb_make_room (length data) pb0 = Some (Inr (), pb1)" "rings_ok pb1" "pb_inv pb1"
        "pb_packets pb1 = pb_packets pb0" "length data \<le> rb_contiguous_window (rb_norm (payload_ring pb1))"
    using pb_make_room_spec [OF pb0(1) room, of "length data"] pb0(3) by blast
  then show ?thesis
  proof cases
    case no
    then have "pb_put h data pb = Some (False, pb0)" by (simp add: pb_put_def enq)
    with pb0 show ?thesis by auto
  next
    case yes
    show ?thesis
    proof (cases "rb_is_full (metadata_ring pb1)")
      case True
      then have "pb_put h data pb = Some (False, pb1)" using yes(1) by (simp add: pb_put_def enq pb_push_metadata_full)
      with yes pb0 show ?thesis by auto
    next
      case False
      have inv: "rb_inv (metadata_ring pb1)" "rb_inv (payload_ring pb1)" using yes(2) by (simp_all add: rings_ok_def)
      from inv(1) False obtain ring where
        ring: "pb_push_metadata (pm_packet (length data) h) pb1 = (Inr (), pb1\<lparr>metadata_ring := ring\<rparr>)" "rb_inv ring"
          "rb_contents ring = rb_contents (metadata_ring pb1) @ [pm_packet (length data) h]"
        by (rule pb_push_metadata_room)
      note appended = pb_append_packet [OF yes(2,5) ring(2,3)]
      have "\<exists>pb'. pb_put h data pb = Some (True, pb') \<and> pb_inv pb' \<and> pb_packets pb' = pb_packets pb1 @ [(h, data)]"
        using appended yes(1) ring(1) rb_reserve [OF inv(2) yes(5)] by (simp add: pb_put_def enq pb_fill_def)
      then show ?thesis using yes(4) pb0(2) by auto
    qed
  qed
qed

section \<open>Dequeueing\<close>

lemma chunks_pop:
  assumes inv: "rb_inv rb" and ok: "chunks_ok rb (m # ms)" and tail: "tail_ok rb (m # ms)"
  defines "rb' \<equiv> rb\<lparr>rb_read_at := rb_get_idx rb (pm_size m), rb_length := rb_length rb - pm_size m\<rparr>"
  shows "chunks_ok rb' ms" and "tail_ok rb' ms"
    and "pm_size m \<le> rb_length rb" and "pm_size m \<le> rb_capacity rb - rb_read_at rb"
proof -
  show le: "pm_size m \<le> rb_length rb" using ok by (auto simp: chunks_ok_def)
  have idx0: "rb_get_idx rb 0 = rb_read_at rb" using inv by (auto simp: rb_get_idx_def rb_inv_def Let_def split: if_splits)
  then show "pm_size m \<le> rb_capacity rb - rb_read_at rb" using ok by (auto simp: chunks_ok_def until_end_def)
  have "contiguous rb' 0 ms = contiguous rb (pm_size m + 0) ms" by (rule contiguous_advance) (simp_all add: rb'_def)
  then show "chunks_ok rb' ms"
    using ok by (auto simp: chunks_ok_def rb'_def successively_Cons)
  have "rb_get_idx rb' (rb_length rb') = rb_get_idx rb (rb_length rb)"
    using le mod_add_left_eq [of "rb_read_at rb + pm_size m" "rb_capacity rb" "rb_length rb - pm_size m"]
    by (simp add: rb'_def rb_get_idx_def Let_def)
  then show "tail_ok rb' ms" using tail by (auto simp: tail_ok_def)
qed

lemma rb_first:
  assumes "rb_inv rb" and "\<not> rb_is_empty rb"
  obtains xs where "rb_contents rb = rb_storage rb ! rb_read_at rb # xs"
proof -
  obtain i rb' where d: "rb_dequeue_one rb = (Inr i, rb')" "rb_storage rb' ! i = hd (rb_contents rb)"
    using rb_dequeue_one_spec [OF assms] by blast
  have "rb_contents rb \<noteq> []"
    using assms(2) length_rb_contents [OF assms(1)] unfolding rb_is_empty_def rb_len_def by (metis list.size(3))
  moreover have "rb_storage rb ! rb_read_at rb = hd (rb_contents rb)"
    using d assms(2) by (auto simp: rb_dequeue_one_def)
  ultimately show ?thesis using that by (metis list.exhaust_sel)
qed

lemma rb_storage_same [simp]: "(rb :: 'a ring_buffer)\<lparr>rb_storage := rb_storage rb\<rparr> = rb"
  by (cases rb) simp

lemma rb_dequeue_one_alt:
  assumes "rb_inv rb" and "\<not> rb_is_empty rb"
  defines "rb' \<equiv> rb\<lparr>rb_length := rb_length rb - 1, rb_read_at := rb_get_idx_unchecked rb 1\<rparr>"
  shows "rb_dequeue_one rb = (Inr (rb_read_at rb), rb')" and "rb_inv rb'"
    and "rb_capacity rb' = rb_capacity rb" and "rb_contents rb' = tl (rb_contents rb)"
proof -
  show eq: "rb_dequeue_one rb = (Inr (rb_read_at rb), rb')" using assms(2) by (simp add: rb_dequeue_one_def rb'_def)
  show "rb_inv rb'" "rb_capacity rb' = rb_capacity rb" "rb_contents rb' = tl (rb_contents rb)"
    using rb_dequeue_one_spec [OF assms(1,2)] eq by auto
qed

text \<open>Writing a slot of the free area changes nothing that is stored.\<close>

lemma rb_poke_dequeued:
  assumes "rb_inv rb" and "\<not> rb_is_empty rb"
  defines "rb' \<equiv> rb\<lparr>rb_length := rb_length rb - 1, rb_read_at := rb_get_idx_unchecked rb 1\<rparr>"
  shows "rb_inv (rb_poke (rb_read_at rb) x rb')" and "rb_contents (rb_poke (rb_read_at rb) x rb') = tl (rb_contents rb)"
proof -
  note d = rb_dequeue_one_alt [OF assms(1,2), folded rb'_def]
  have len: "0 < rb_length rb" "rb_length rb \<le> rb_capacity rb"
    using assms(1,2) by (auto simp: rb_is_empty_def rb_len_def rb_inv_def)
  then have r: "rb_read_at rb < rb_capacity rb" using assms(1) by (auto simp: rb_inv_def split: if_splits)
  show "rb_inv (rb_poke (rb_read_at rb) x rb')"
    using d(2) by (simp add: rb_poke_def rb_inv_def)
  have "rb_get_idx rb' (rb_capacity rb - 1) = ((rb_read_at rb + 1) mod rb_capacity rb + (rb_capacity rb - 1)) mod rb_capacity rb"
    using r d(3) by (simp add: rb'_def rb_get_idx_def rb_get_idx_unchecked_def Let_def)
  also have "\<dots> = (rb_read_at rb + 1 + (rb_capacity rb - 1)) mod rb_capacity rb" by (rule mod_add_left_eq)
  also have "\<dots> = rb_read_at rb" using r by simp
  finally have at: "rb_read_at rb = rb_get_idx rb' (rb_capacity rb - 1)" by simp
  have "rb_view (rb'\<lparr>rb_storage := blit (rb_read_at rb) [x] (rb_storage rb')\<rparr>)
      = blit (rb_capacity rb - 1) [x] (rb_view rb')"
    using len r d(3) by (intro rb_view_blit [OF d(2) _ at]) simp_all
  moreover have "rb_poke (rb_read_at rb) x rb' = rb'\<lparr>rb_storage := blit (rb_read_at rb) [x] (rb_storage rb')\<rparr>"
    using r d(3) by (simp add: rb_poke_def list_update_blit)
  ultimately show "rb_contents (rb_poke (rb_read_at rb) x rb') = tl (rb_contents rb)"
    using len d(3,4) by (simp add: rb_contents_def rb'_def blit_def)
qed

definition padding_first :: "'h packet_buffer \<Rightarrow> bool" where
  "padding_first pb \<longleftrightarrow> (case rb_contents (metadata_ring pb) of [] \<Rightarrow> False | m # _ \<Rightarrow> pm_is_padding m)"

lemma pb_release_first:
  assumes inv: "pb_inv pb" and cont: "rb_contents (metadata_ring pb) = m # ms"
    and ring: "rb_inv ring" "rb_contents ring = ms"
  defines "pb' \<equiv> \<lparr>metadata_ring = ring, payload_ring = (payload_ring pb)
      \<lparr>rb_read_at := rb_get_idx (payload_ring pb) (pm_size m), rb_length := rb_length (payload_ring pb) - pm_size m\<rparr>\<rparr>"
  shows "rb_dequeue_many (pm_size m) (payload_ring pb) = Some ((rb_read_at (payload_ring pb), pm_size m), payload_ring pb')"
    and "pb_inv pb'"
    and "pb_packets pb = (case pm_header m of None \<Rightarrow> [] | Some h \<Rightarrow>
           [(h, sub_slice (rb_read_at (payload_ring pb)) (pm_size m) (rb_storage (payload_ring pb)))]) @ pb_packets pb'"
proof -
  have p: "rb_inv (payload_ring pb)" "chunks_ok (payload_ring pb) (m # ms)" "tail_ok (payload_ring pb) (m # ms)"
    using inv cont by (simp_all add: pb_inv_def)
  note pop = chunks_pop [OF p]
  note rel = rb_release [OF p(1) pop(3,4)]
  show "rb_dequeue_many (pm_size m) (payload_ring pb) = Some ((rb_read_at (payload_ring pb), pm_size m), payload_ring pb')"
    using rel(1) by (simp add: pb'_def)
  show "pb_inv pb'" using ring rel(2) pop(1,2) by (simp add: pb_inv_def pb'_def)
  show "pb_packets pb = (case pm_header m of None \<Rightarrow> [] | Some h \<Rightarrow>
           [(h, sub_slice (rb_read_at (payload_ring pb)) (pm_size m) (rb_storage (payload_ring pb)))]) @ pb_packets pb'"
    using cont ring(2) rel(3,4) by (simp add: pb_packets_def pb'_def split: option.split)
qed

lemma pb_dequeue_padding_spec:
  assumes inv: "pb_inv pb"
  obtains pb' where "pb_dequeue_padding pb = Some pb'" and "pb_inv pb'" and "pb_packets pb' = pb_packets pb"
    and "\<not> padding_first pb'"
proof (cases "rb_is_empty (metadata_ring pb)")
  case True
  then have "rb_contents (metadata_ring pb) = []"
    by (simp add: rb_contents_def rb_is_empty_def rb_len_def)
  then have "pb_dequeue_padding pb = Some pb" "\<not> padding_first pb"
    using True by (simp_all add: pb_dequeue_padding_def rb_dequeue_one_with_def padding_first_def)
  with inv show ?thesis by (intro that) simp_all
next
  case False
  let ?ring = "metadata_ring pb" and ?m = "rb_storage (metadata_ring pb) ! rb_read_at (metadata_ring pb)"
  have ri: "rb_inv ?ring" using inv by (simp add: pb_inv_def)
  obtain ms where ms: "rb_contents ?ring = ?m # ms" using rb_first [OF ri False] .
  show ?thesis
  proof (cases "pm_is_padding ?m")
    case True
    let ?r = "?ring\<lparr>rb_length := rb_length ?ring - 1, rb_read_at := rb_get_idx_unchecked ?ring 1\<rparr>"
    note d = rb_dequeue_one_alt [OF ri False]
    have r: "rb_inv ?r" "rb_contents ?r = ms" using d ms by simp_all
    note rel = pb_release_first [OF inv ms r]
    have "ms = [] \<or> \<not> pm_is_padding (hd ms)"
      using inv ms True by (cases ms) (simp_all add: pb_inv_def chunks_ok_def)
    moreover have "pb_dequeue_padding pb = Some \<lparr>metadata_ring = ?r, payload_ring = (payload_ring pb)
      \<lparr>rb_read_at := rb_get_idx (payload_ring pb) (pm_size ?m), rb_length := rb_length (payload_ring pb) - pm_size ?m\<rparr>\<rparr>"
      using True False rel(1) by (simp add: pb_dequeue_padding_def rb_dequeue_one_with_def Let_def)
    ultimately show ?thesis
      using rel(2,3) True r(2) by (intro that) (auto simp: padding_first_def pm_is_padding_def split: list.split)
  next
    case no: False
    then have "pb_dequeue_padding pb = Some pb" "\<not> padding_first pb"
      using False ms by (simp_all add: pb_dequeue_padding_def rb_dequeue_one_with_def padding_first_def Let_def)
    with inv show ?thesis by (intro that) simp_all
  qed
qed

text \<open>After the padding, the first entry is a packet, or there is none.\<close>

lemma pb_first_packet:
  assumes "pb_inv pb" and "\<not> padding_first pb" and "\<not> rb_is_empty (metadata_ring pb)"
  obtains header sz ms where "rb_contents (metadata_ring pb) = pm_packet sz header # ms"
    and "rb_storage (metadata_ring pb) ! rb_read_at (metadata_ring pb) = pm_packet sz header"
proof -
  have ri: "rb_inv (metadata_ring pb)" using assms(1) by (simp add: pb_inv_def)
  obtain ms where ms: "rb_contents (metadata_ring pb)
      = rb_storage (metadata_ring pb) ! rb_read_at (metadata_ring pb) # ms" (is "_ = ?m # ms")
    using rb_first [OF ri assms(3)] .
  then obtain h where "pm_header ?m = Some h" using assms(2) by (auto simp: padding_first_def pm_is_padding_def)
  then have "?m = pm_packet (pm_size ?m) h" by (cases ?m) (simp add: pm_packet_def)
  with ms show ?thesis by (metis that)
qed

lemma pb_no_packet:
  assumes "pb_inv pb" and "rb_is_empty (metadata_ring pb)"
  shows "pb_packets pb = []"
  using assms by (simp add: pb_packets_def rb_contents_def rb_is_empty_def rb_len_def)

lemma pb_dequeue_spec:
  assumes "pb_inv pb"
  shows "\<exists>pb'. pb_dequeue pb = Some (case pb_packets pb of [] \<Rightarrow> Inl Empty | p # _ \<Rightarrow> Inr p, pb') \<and> pb_inv pb'
     \<and> pb_packets pb' = tl (pb_packets pb)"
proof -
  obtain pb1 where pb1: "pb_dequeue_padding pb = Some pb1" "pb_inv pb1" "pb_packets pb1 = pb_packets pb" "\<not> padding_first pb1"
    using pb_dequeue_padding_spec [OF assms] .
  show ?thesis
  proof (cases "rb_is_empty (metadata_ring pb1)")
    case True
    then show ?thesis
      using pb1 pb_no_packet [OF pb1(2) True] by (simp add: pb_dequeue_def rb_dequeue_one_empty)
  next
    case False
    let ?ring = "metadata_ring pb1"
    obtain h n ms where m: "rb_contents ?ring = pm_packet n h # ms" "rb_storage ?ring ! rb_read_at ?ring = pm_packet n h"
      using pb_first_packet [OF pb1(2,4) False] .
    have ri: "rb_inv ?ring" using pb1(2) by (simp add: pb_inv_def)
    note d = rb_dequeue_one_alt [OF ri False]
    note r = rb_poke_dequeued [OF ri False, of "(pm_packet n h)\<lparr>pm_header := None\<rparr>"]
    note rel = pb_release_first [OF pb1(2) m(1) r(1), simplified r(2) m(1) list.sel, OF refl]
    have ps: "pb_packets pb = (h, sub_slice (rb_read_at (payload_ring pb1)) n (rb_storage (payload_ring pb1))) #
        pb_packets \<lparr>metadata_ring = rb_poke (rb_read_at ?ring) ((pm_packet n h)\<lparr>pm_header := None\<rparr>)
            (?ring\<lparr>rb_length := rb_length ?ring - 1, rb_read_at := rb_get_idx_unchecked ?ring 1\<rparr>),
          payload_ring = (payload_ring pb1)\<lparr>rb_read_at := rb_get_idx (payload_ring pb1) n,
            rb_length := rb_length (payload_ring pb1) - n\<rparr>\<rparr>"
      using rel(3) pb1(3) by simp
    show ?thesis
      using pb1(1) d(1) m rel(1,2) by (simp add: pb_dequeue_def ps)
  qed
qed

lemma rb_consume:
  fixes rb :: "'a ring_buffer"
  defines "area \<equiv> take (min (rb_length rb) (rb_capacity rb - rb_read_at rb)) (rb_contents rb)"
  assumes inv: "rb_inv rb" and f: "f area = (area, k, r)" and k: "k \<le> length area"
  shows "rb_dequeue_many_with f rb = Some ((k, r), rb\<lparr>rb_read_at := rb_get_idx rb k, rb_length := rb_length rb - k\<rparr>)"
proof -
  let ?m = "min (rb_length rb) (rb_capacity rb - rb_read_at rb)"
  have len: "length area = ?m" using inv by (simp add: area_def)
  have slice: "sub_slice (rb_read_at rb) ?m (rb_storage rb) = area"
    using rb_dequeue_slice_area [OF inv, of ?m] by (simp add: area_def)
  have "rb_read_at rb + ?m \<le> length (rb_storage rb)" using inv by (auto simp: rb_inv_def split: if_splits)
  then have st: "blit (rb_read_at rb) area (rb_storage rb) = rb_storage rb" by (simp flip: slice)
  from rb_dequeue_many_with_eq [where f = f, OF _ inv] f k len show ?thesis
    by (simp add: area_def [symmetric] st)
qed

lemma rb_stay: "rb_inv rb \<Longrightarrow> (rb :: 'a ring_buffer)\<lparr>rb_read_at := rb_get_idx rb 0, rb_length := rb_length rb - 0\<rparr> = rb"
  by (cases rb) (auto simp: rb_get_idx_def rb_inv_def Let_def rb_capacity_def split: if_splits simp del: length_rb_storage)

text \<open>\<open>dequeue_with\<close> for a closure that reads the packet and decides whether it leaves the buffer.\<close>

lemma pb_dequeue_with_spec:
  assumes "pb_inv pb"
  shows "\<exists>pb'. pb_dequeue_with (\<lambda>h d. (h, d, g h d)) pb
      = Some (case pb_packets pb of [] \<Rightarrow> Inl Empty | (h, d) # _ \<Rightarrow> Inr (g h d), pb') \<and> pb_inv pb'
      \<and> pb_packets pb' = (case pb_packets pb of [] \<Rightarrow> []
          | (h, d) # ps \<Rightarrow> (case g h d of Inr _ \<Rightarrow> ps | Inl _ \<Rightarrow> pb_packets pb))"
proof -
  obtain pb1 where pb1: "pb_dequeue_padding pb = Some pb1" "pb_inv pb1" "pb_packets pb1 = pb_packets pb" "\<not> padding_first pb1"
    using pb_dequeue_padding_spec [OF assms] .
  show ?thesis
  proof (cases "rb_is_empty (metadata_ring pb1)")
    case True
    then show ?thesis
      using pb1 pb_no_packet [OF pb1(2) True] by (simp add: pb_dequeue_with_def)
  next
    case False
    let ?ring = "metadata_ring pb1" and ?rb = "payload_ring pb1"
    obtain h n ms where m: "rb_contents ?ring = pm_packet n h # ms" "rb_storage ?ring ! rb_read_at ?ring = pm_packet n h"
      using pb_first_packet [OF pb1(2,4) False] .
    have ri: "rb_inv ?ring" and rp: "rb_inv ?rb" using pb1(2) by (simp_all add: pb_inv_def)
    have pop: "n \<le> rb_length ?rb" "n \<le> rb_capacity ?rb - rb_read_at ?rb"
      using chunks_pop(3,4) [OF rp, of "pm_packet n h" ms] pb1(2) m(1) by (simp_all add: pb_inv_def)
    let ?r = "?ring\<lparr>rb_length := rb_length ?ring - 1, rb_read_at := rb_get_idx_unchecked ?ring 1\<rparr>"
    have r: "rb_inv ?r" "rb_contents ?r = ms" using rb_dequeue_one_alt(2,4) [OF ri False] m(1) by simp_all
    note rel = pb_release_first [OF pb1(2) m(1) r]
    let ?d = "sub_slice (rb_read_at ?rb) n (rb_storage ?rb)"
    have d: "?d = take n (rb_contents ?rb)" using rb_release(4) [OF rp pop] .
    let ?f = "\<lambda>buf. let (header, data, res) = (h, take n buf, g h (take n buf))
                 in (data @ drop n buf, (case res of Inr _ \<Rightarrow> pm_size (pm_packet n h) | Inl _ \<Rightarrow> 0), n \<le> length buf, header, res)"
    let ?a = "take (min (rb_length ?rb) (rb_capacity ?rb - rb_read_at ?rb)) (rb_contents ?rb)"
    have "take n ?a = take n (rb_contents ?rb)" using pop by simp
    then have area: "take n (rb_contents ?rb) @ drop n ?a = ?a" by (metis append_take_drop_id)
    let ?k = "case g h ?d of Inr _ \<Rightarrow> n | Inl _ \<Rightarrow> 0"
    have deq: "rb_dequeue_many_with ?f ?rb = Some ((?k, True, h, g h ?d),
        ?rb\<lparr>rb_read_at := rb_get_idx ?rb ?k, rb_length := rb_length ?rb - ?k\<rparr>)"
      using pop rp d area by (intro rb_consume [OF rp]) (simp_all add: Let_def split: sum.split)
    have upd: "(pm_packet n h)\<lparr>pm_header := Some h\<rparr> = pm_packet n h" by (simp add: pm_packet_def)
    have ps: "pb_packets pb = (h, ?d) # pb_packets \<lparr>metadata_ring = ?r, payload_ring = ?rb
      \<lparr>rb_read_at := rb_get_idx ?rb n, rb_length := rb_length ?rb - n\<rparr>\<rparr>"
      using rel(3) pb1(3) by simp
    have same: "\<lparr>metadata_ring = ?ring, payload_ring = ?rb\<rparr> = pb1" by simp
    have stay: "?rb\<lparr>rb_read_at := rb_get_idx ?rb 0\<rparr> = ?rb" using rb_stay [OF rp] by simp
    have ids: "(rb_storage ?ring)[rb_read_at ?ring := pm_packet n h] = rb_storage ?ring"
      using m(2) by (metis list_update_id)
    show ?thesis
    proof (cases "g h ?d")
      case (Inr x)
      then show ?thesis
        using pb1(1) False m(2) deq rel(2) ids
        by (simp add: pb_dequeue_with_def Let_def ps rb_dequeue_one_with_def upd)
    next
      case (Inl e)
      then show ?thesis
        using pb1 False m(2) deq ids stay
        by (simp add: pb_dequeue_with_def Let_def ps [symmetric] rb_dequeue_one_with_def upd same) (simp add: ps)
    qed
  qed
qed

lemma pb_peek_spec:
  assumes "pb_inv pb"
  shows "\<exists>pb'. pb_peek pb = Some (case pb_packets pb of [] \<Rightarrow> Inl Empty | p # _ \<Rightarrow> Inr p, pb') \<and> pb_inv pb'
     \<and> pb_packets pb' = pb_packets pb"
proof -
  obtain pb1 where pb1: "pb_dequeue_padding pb = Some pb1" "pb_inv pb1" "pb_packets pb1 = pb_packets pb" "\<not> padding_first pb1"
    using pb_dequeue_padding_spec [OF assms] .
  have ri: "rb_inv (metadata_ring pb1)" and rp: "rb_inv (payload_ring pb1)" using pb1(2) by (simp_all add: pb_inv_def)
  show ?thesis
  proof (cases "rb_is_empty (metadata_ring pb1)")
    case True
    then have "rb_contents (metadata_ring pb1) = []" by (simp add: rb_contents_def rb_is_empty_def rb_len_def)
    then show ?thesis
      using pb1 ri pb_no_packet [OF pb1(2) True] by (simp add: pb_peek_def rb_get_allocated_eq)
  next
    case False
    obtain h n ms where m: "rb_contents (metadata_ring pb1) = pm_packet n h # ms"
      using pb_first_packet [OF pb1(2,4) False] .
    have pop: "n \<le> rb_capacity (payload_ring pb1) - rb_read_at (payload_ring pb1)"
      using chunks_pop(4) [OF rp, of "pm_packet n h" ms] pb1(2) m(1) by (simp add: pb_inv_def)
    have idx: "rb_get_idx rb 0 = rb_read_at rb" if "rb_inv rb" for rb :: "'x ring_buffer"
      using that by (auto simp: rb_get_idx_def rb_inv_def Let_def split: if_splits)
    have "0 < rb_length (metadata_ring pb1)" using length_rb_contents [OF ri] m by simp
    then have "0 < until_end (metadata_ring pb1) 0"
      using ri idx [OF ri] by (auto simp: until_end_def rb_inv_def split: if_splits)
    then have "rb_get_allocated (metadata_ring pb1) 0 1 = [pm_packet n h]"
      using ri m by (simp add: rb_get_allocated_eq min_def)
    moreover have "rb_get_allocated (payload_ring pb1) 0 n = take n (rb_contents (payload_ring pb1))"
      using rp pop idx [OF rp] by (simp add: rb_get_allocated_eq until_end_def min_absorb1)
    moreover have "pb_packets pb = (h, take n (rb_contents (payload_ring pb1)))
        # packets_of ms (drop n (rb_contents (payload_ring pb1)))"
      using pb1(3) m by (simp add: pb_packets_def)
    ultimately show ?thesis using pb1 by (simp add: pb_peek_def)
  qed
qed

lemma pb_new_inv [simp]: "pb_inv (pb_new metadata payload)" "pb_packets (pb_new metadata payload) = []"
  by (simp_all add: pb_new_def pb_inv_def rb_new_def rb_inv_def rb_contents_def chunks_ok_def tail_ok_def pb_packets_def)

lemma pb_reset_inv [simp]: "pb_inv (pb_reset pb)" "pb_packets (pb_reset pb) = []"
  by (simp_all add: pb_reset_def pb_inv_def rb_clear_def rb_inv_def rb_contents_def chunks_ok_def tail_ok_def pb_packets_def)

section \<open>The contract\<close>

definition pb_get :: "'h packet_buffer \<Rightarrow> (('h \<times> u8 list) option \<times> 'h packet_buffer) option" where
  "pb_get pb =
     do { (res, pb) \<leftarrow> pb_dequeue pb; Some (case res of Inl _ \<Rightarrow> None | Inr p \<Rightarrow> Some p, pb) }"

interpretation pb_queue: datagram_queue pb_inv pb_packets pb_put pb_get
proof
  fix q :: "'h packet_buffer" and h data
  assume inv: "pb_inv q"
  show "\<exists>ok q'. pb_put h data q = Some (ok, q') \<and> pb_inv q' \<and> pb_packets q' = pb_packets q @ (if ok then [(h, data)] else [])"
    using pb_put_spec [OF inv] .
  show "\<exists>q'. pb_get q = Some (case pb_packets q of [] \<Rightarrow> None | p # _ \<Rightarrow> Some p, q') \<and> pb_inv q' \<and> pb_packets q' = tl (pb_packets q)"
    using pb_dequeue_spec [OF inv] by (auto simp: pb_get_def split: list.split)
qed

lemma pb_put_idle:
  assumes inv: "pb_inv pb" and idle: "rb_is_empty (payload_ring pb)" and slot: "\<not> rb_is_full (metadata_ring pb)"
    and fits: "length data \<le> rb_capacity (payload_ring pb)"
  shows "\<exists>pb'. pb_put h data pb = Some (True, pb')"
proof -
  let ?pb = "pb\<lparr>payload_ring := rb_clear (payload_ring pb)\<rparr>"
  have win: "rb_window (payload_ring ?pb) = rb_capacity (payload_ring pb)"
    "rb_contiguous_window (payload_ring ?pb) = rb_capacity (payload_ring pb)"
    by (simp_all add: rb_clear_def rb_defs Let_def)
  then have room: "pb_make_room (length data) ?pb = Some (Inr (), ?pb)" using fits by (simp add: pb_make_room_def Let_def)
  have ri: "rb_inv (metadata_ring ?pb)" "\<not> rb_is_full (metadata_ring ?pb)" using inv slot by (simp_all add: pb_inv_def)
  obtain ring where "pb_push_metadata (pm_packet (length data) h) ?pb = (Inr (), ?pb\<lparr>metadata_ring := ring\<rparr>)"
    using pb_push_metadata_room [OF ri] .
  moreover have "rb_inv (payload_ring ?pb)" by (simp add: rb_clear_def rb_inv_def)
  moreover have "rb_norm (payload_ring ?pb) = payload_ring ?pb" by (simp add: rb_norm_def rb_clear_def)
  ultimately show ?thesis
    using room idle slot fits win rb_reserve [of "payload_ring ?pb" "length data"]
    by (simp add: pb_put_def pb_enqueue_def pb_fill_def)
qed

section \<open>Properties\<close>

text \<open>C29. A packet buffer keeps datagrams whole and in order: whatever sequence of datagrams is offered and taken
  from a new buffer, nothing panics, and the datagrams that were accepted are those that were taken, in order and
  with their headers, followed by those still stored. None is split, merged, lost or repeated, although packets wrap
  around the ring and paddings come and go.\<close>

theorem packet_buffer_fifo:
  "\<exists>accepted taken pb'. d_run pb_put pb_get ops (pb_new metadata payload) = Some (accepted, taken, pb')
     \<and> accepted = taken @ pb_packets pb'"
  using pb_queue.d_run_fifo [of "pb_new metadata payload" ops] by auto

text \<open>A packet buffer does not refuse without need: while no octets are stored and a metadata slot is free, every
  datagram that fits the payload storage is accepted, wherever the read position is.\<close>

theorem packet_buffer_accepts:
  assumes "pb_inv pb" and "rb_is_empty (payload_ring pb)" and "\<not> pb_is_full pb" and "length data \<le> pb_payload_capacity pb"
  shows "\<exists>pb'. pb_put header data pb = Some (True, pb') \<and> pb_packets pb' = pb_packets pb @ [(header, data)]"
  using pb_put_idle [OF assms(1,2), of data header] assms(3,4) pb_put_spec [OF assms(1), of header data]
  by (auto simp: pb_is_full_def pb_payload_capacity_def)

theorem packet_buffer_accepts_witness:
  "\<exists>pb'. pb_put (7::nat) [1, 2, 3] (pb_new (replicate 2 (pm_padding 0)) (replicate 3 0)) = Some (True, pb')
     \<and> pb_packets pb' = [(7, [1, 2, 3])]"
  using packet_buffer_accepts [of "pb_new (replicate 2 (pm_padding 0)) (replicate 3 0)" "[1, 2, 3]" "7::nat"]
  by (simp add: pb_is_full_def pb_payload_capacity_def) (simp add: pb_new_def rb_new_def rb_is_empty_def rb_len_def
      rb_is_full_def rb_window_def rb_capacity_def del: length_rb_storage)

definition orphan_script :: "nat packet_buffer \<Rightarrow> ((empty_error + nat \<times> u8 list) \<times> nat packet_buffer) option" where
  "orphan_script pb =
     do { (_, pb) \<leftarrow> pb_put 1 [1, 1, 1] pb;
          (_, pb) \<leftarrow> pb_put 2 [2, 2] pb;
          (_, pb) \<leftarrow> pb_dequeue pb;
          (_, pb) \<leftarrow> pb_enqueue_with_infallible 3 3 (\<lambda>buf. ([9, 9, 9], 3)) pb;
          (_, pb) \<leftarrow> pb_dequeue pb;
          (_, pb) \<leftarrow> pb_put 4 [4, 4] pb;
          pb_dequeue pb }"


end
