(* ===== verification/Neighbor_Cache.thy ===== *)
theory Neighbor_Cache
  imports Smol_Time Ip_Types Link_Wire
begin

text \<open>
  Hardware addresses (\<^verbatim>\<open>src/wire/mod.rs\<close>) and the neighbor cache of \<^verbatim>\<open>src/iface/neighbor.rs\<close>. The cache stores its
  entries in a \<open>LinearMap\<close> of the crate heapless, which is a parameter here: a record of its operations, of which
  \<open>linear_map_laws\<close> states what its documentation promises.
\<close>

section \<open>Hardware addresses\<close>

datatype ieee802154_address = Ieee_Absent | Ieee_Short "u8 list" | Ieee_Extended "u8 list"

datatype hardware_address = Haddr_Ip | Haddr_Ethernet eth_address | Haddr_Ieee802154 ieee802154_address

definition ieee_is_broadcast :: "ieee802154_address \<Rightarrow> bool" where
  "ieee_is_broadcast a \<longleftrightarrow> a = Ieee_Short [0xff, 0xff]"

fun hw_is_unicast :: "hardware_address \<Rightarrow> bool option" where
  "hw_is_unicast Haddr_Ip = None"
| "hw_is_unicast (Haddr_Ethernet addr) = Some (eth_is_unicast addr)"
| "hw_is_unicast (Haddr_Ieee802154 addr) = Some (\<not> ieee_is_broadcast addr)"

section \<open>The linear map\<close>

record ('k, 'v, 'm) linear_map =
  lm_new :: 'm
  lm_get :: "'k \<Rightarrow> 'm \<Rightarrow> 'v option"
  lm_insert :: "'k \<Rightarrow> 'v \<Rightarrow> 'm \<Rightarrow> ('k \<times> 'v + 'v option) \<times> 'm"
  lm_remove :: "'k \<Rightarrow> 'm \<Rightarrow> 'v option \<times> 'm"
  lm_iter :: "'m \<Rightarrow> ('k \<times> 'v) list"
  lm_clear :: "'m \<Rightarrow> 'm"

text \<open>A map in use: its keys are distinct and it is within its capacity.\<close>

definition lm_valid :: "('k, 'v, 'm) linear_map \<Rightarrow> nat \<Rightarrow> 'm \<Rightarrow> bool" where
  "lm_valid lm cap m \<longleftrightarrow> distinct (map fst (lm_iter lm m)) \<and> length (lm_iter lm m) \<le> cap"

definition linear_map_laws :: "('k, 'v, 'm) linear_map \<Rightarrow> nat \<Rightarrow> bool" where
  "linear_map_laws lm cap \<longleftrightarrow>
     lm_iter lm (lm_new lm) = []
   \<and> (\<forall>m. lm_iter lm (lm_clear lm m) = [])
   \<and> (\<forall>m k. lm_valid lm cap m \<longrightarrow> lm_get lm k m = map_of (lm_iter lm m) k)
   \<and> (\<forall>m k v. lm_valid lm cap m \<longrightarrow>
        (let (res, m') = lm_insert lm k v m
         in if map_of (lm_iter lm m) k \<noteq> None \<or> length (lm_iter lm m) < cap
            then res = Inr (map_of (lm_iter lm m) k) \<and> lm_valid lm cap m'
               \<and> map_of (lm_iter lm m') = (map_of (lm_iter lm m))(k \<mapsto> v)
            else res = Inl (k, v) \<and> m' = m))
   \<and> (\<forall>m k. lm_valid lm cap m \<longrightarrow>
        (let (res, m') = lm_remove lm k m
         in res = map_of (lm_iter lm m) k \<and> lm_valid lm cap m'
          \<and> map_of (lm_iter lm m') = (map_of (lm_iter lm m))(k := None)))"

lemma lm_get_law: "linear_map_laws lm cap \<Longrightarrow> lm_valid lm cap m \<Longrightarrow> lm_get lm k m = map_of (lm_iter lm m) k"
  by (simp add: linear_map_laws_def)

lemma lm_insert_law:
  assumes "linear_map_laws lm cap" and "lm_valid lm cap m" and "lm_insert lm k v m = (res, m')"
  shows "if map_of (lm_iter lm m) k \<noteq> None \<or> length (lm_iter lm m) < cap
     then res = Inr (map_of (lm_iter lm m) k) \<and> lm_valid lm cap m'
        \<and> map_of (lm_iter lm m') = (map_of (lm_iter lm m))(k \<mapsto> v)
     else res = Inl (k, v) \<and> m' = m"
proof -
  from assms(1) have "\<forall>m k v. lm_valid lm cap m \<longrightarrow> (let (res, m') = lm_insert lm k v m
     in if map_of (lm_iter lm m) k \<noteq> None \<or> length (lm_iter lm m) < cap
        then res = Inr (map_of (lm_iter lm m) k) \<and> lm_valid lm cap m'
           \<and> map_of (lm_iter lm m') = (map_of (lm_iter lm m))(k \<mapsto> v)
        else res = Inl (k, v) \<and> m' = m)" unfolding linear_map_laws_def by (elim conjE)
  from this [rule_format, OF assms(2), of k v] assms(3) show ?thesis by simp
qed

lemma lm_remove_law:
  assumes "linear_map_laws lm cap" and "lm_valid lm cap m" and "lm_remove lm k m = (res, m')"
  shows "res = map_of (lm_iter lm m) k" and "lm_valid lm cap m'"
    and "map_of (lm_iter lm m') = (map_of (lm_iter lm m))(k := None)"
proof -
  from assms(1) have "\<forall>m k. lm_valid lm cap m \<longrightarrow> (let (res, m') = lm_remove lm k m
     in res = map_of (lm_iter lm m) k \<and> lm_valid lm cap m'
      \<and> map_of (lm_iter lm m') = (map_of (lm_iter lm m))(k := None))" unfolding linear_map_laws_def by (elim conjE)
  from this [rule_format, OF assms(2), of k] assms(3) show "res = map_of (lm_iter lm m) k" "lm_valid lm cap m'"
    "map_of (lm_iter lm m') = (map_of (lm_iter lm m))(k := None)" by simp_all
qed

lemma lm_valid_card: "lm_valid lm cap m \<Longrightarrow> card (dom (map_of (lm_iter lm m))) = length (lm_iter lm m)"
  unfolding lm_valid_def dom_map_of_conv_image_fst by (metis distinct_card length_map list.set_map)

section \<open>The cache\<close>

record neighbor =
  n_hardware_addr :: hardware_address
  n_expires_at :: instant

datatype answer = Found hardware_address | NotFound | RateLimited

definition answer_found :: "answer \<Rightarrow> bool" where
  "answer_found a = (case a of Found _ \<Rightarrow> True | _ \<Rightarrow> False)"

record 'm neighbor_cache =
  nc_storage :: 'm
  nc_silent_until :: instant

definition SILENT_TIME :: duration where "SILENT_TIME = duration_from_millis 1000"
definition ENTRY_LIFETIME :: duration where "ENTRY_LIFETIME = duration_from_millis 60000"

definition nc_new :: "(ip_address, neighbor, 'm) linear_map \<Rightarrow> 'm neighbor_cache" where
  "nc_new lm = \<lparr>nc_storage = lm_new lm, nc_silent_until = instant_from_millis 0\<rparr>"

text \<open>\<open>min_by_key\<close>: the first of the entries that expire earliest.\<close>

fun first_to_expire :: "(ip_address \<times> neighbor) list \<Rightarrow> (ip_address \<times> neighbor) option" where
  "first_to_expire [] = None"
| "first_to_expire (e # es) = (case first_to_expire es of
      None \<Rightarrow> Some e
    | Some e' \<Rightarrow> if n_expires_at (snd e) \<le> n_expires_at (snd e') then Some e else Some e')"

definition nc_fill_with_expiration ::
  "(ip_address, neighbor, 'm) linear_map \<Rightarrow> ip_address \<Rightarrow> hardware_address \<Rightarrow> instant \<Rightarrow>
   'm neighbor_cache \<Rightarrow> 'm neighbor_cache option" where
  "nc_fill_with_expiration lm protocol_addr hardware_addr expires_at c =
     do { rust_assert (addr_is_unicast protocol_addr);
          unicast \<leftarrow> hw_is_unicast hardware_addr;
          rust_assert unicast;
          let neighbor = \<lparr>n_hardware_addr = hardware_addr, n_expires_at = expires_at\<rparr>;
          case lm_insert lm protocol_addr neighbor (nc_storage c) of
            (Inr _, storage) \<Rightarrow> Some (c\<lparr>nc_storage := storage\<rparr>)
          | (Inl (protocol_addr, neighbor), storage) \<Rightarrow>
              do { (old_protocol_addr, _) \<leftarrow> first_to_expire (lm_iter lm storage);
                   let (old, storage) = lm_remove lm old_protocol_addr storage;
                   _ \<leftarrow> old;
                   case lm_insert lm protocol_addr neighbor storage of
                     (Inr None, storage) \<Rightarrow> Some (c\<lparr>nc_storage := storage\<rparr>)
                   | _ \<Rightarrow> None } }"

definition nc_fill ::
  "(ip_address, neighbor, 'm) linear_map \<Rightarrow> ip_address \<Rightarrow> hardware_address \<Rightarrow> instant \<Rightarrow>
   'm neighbor_cache \<Rightarrow> 'm neighbor_cache option" where
  "nc_fill lm protocol_addr hardware_addr timestamp c =
     do { rust_assert (addr_is_unicast protocol_addr);
          unicast \<leftarrow> hw_is_unicast hardware_addr;
          rust_assert unicast;
          nc_fill_with_expiration lm protocol_addr hardware_addr (instant_add timestamp ENTRY_LIFETIME) c }"

definition nc_lookup ::
  "(ip_address, neighbor, 'm) linear_map \<Rightarrow> ip_address \<Rightarrow> instant \<Rightarrow> 'm neighbor_cache \<Rightarrow> answer option" where
  "nc_lookup lm protocol_addr timestamp c =
     do { rust_assert (addr_is_unicast protocol_addr);
          let miss = (if timestamp < nc_silent_until c then RateLimited else NotFound);
          Some (case lm_get lm protocol_addr (nc_storage c) of
             Some n \<Rightarrow> if timestamp < n_expires_at n then Found (n_hardware_addr n) else miss
           | None \<Rightarrow> miss) }"

definition nc_limit_rate :: "instant \<Rightarrow> 'm neighbor_cache \<Rightarrow> 'm neighbor_cache" where
  "nc_limit_rate timestamp c = c\<lparr>nc_silent_until := instant_add timestamp SILENT_TIME\<rparr>"

definition nc_flush :: "(ip_address, neighbor, 'm) linear_map \<Rightarrow> 'm neighbor_cache \<Rightarrow> 'm neighbor_cache" where
  "nc_flush lm c = c\<lparr>nc_storage := lm_clear lm (nc_storage c)\<rparr>"

section \<open>Correctness\<close>

definition nc_valid :: "(ip_address, neighbor, 'm) linear_map \<Rightarrow> nat \<Rightarrow> 'm neighbor_cache \<Rightarrow> bool" where
  "nc_valid lm cap c \<longleftrightarrow> lm_valid lm cap (nc_storage c)"

text \<open>The entries as a map.\<close>

definition nc_map :: "(ip_address, neighbor, 'm) linear_map \<Rightarrow> 'm neighbor_cache \<Rightarrow> ip_address \<rightharpoonup> neighbor" where
  "nc_map lm c = map_of (lm_iter lm (nc_storage c))"

lemma first_to_expire_spec:
  assumes "es \<noteq> []"
  obtains e where "first_to_expire es = Some e" and "e \<in> set es"
    and "\<And>e'. e' \<in> set es \<Longrightarrow> n_expires_at (snd e) \<le> n_expires_at (snd e')"
proof -
  have "\<exists>e. first_to_expire es = Some e \<and> e \<in> set es
      \<and> (\<forall>e' \<in> set es. n_expires_at (snd e) \<le> n_expires_at (snd e'))"
    using assms
  proof (induction es)
    case (Cons x es)
    show ?case
    proof (cases es)
      case Nil
      then show ?thesis by simp
    next
      case (Cons y ys)
      with Cons.IH obtain e where "first_to_expire es = Some e" "e \<in> set es"
        "\<forall>e' \<in> set es. n_expires_at (snd e) \<le> n_expires_at (snd e')" by blast
      then show ?thesis
        by (cases "n_expires_at (snd x) \<le> n_expires_at (snd e)") (auto intro: order_trans)
    qed
  qed simp
  then show ?thesis using that by blast
qed

lemma nc_fill_with_expiration_spec:
  assumes laws: "linear_map_laws lm cap" and cap: "0 < cap" and valid: "nc_valid lm cap c"
    and addr: "addr_is_unicast addr" and hw: "hw_is_unicast hw = Some True"
  obtains c' where "nc_fill_with_expiration lm addr hw expires c = Some c'" and "nc_valid lm cap c'"
    and "nc_silent_until c' = nc_silent_until c"
    and "nc_map lm c' = (nc_map lm c)(addr \<mapsto> \<lparr>n_hardware_addr = hw, n_expires_at = expires\<rparr>) \<or>
      (\<exists>old n. nc_map lm c old = Some n \<and> card (dom (nc_map lm c)) = cap
         \<and> (\<forall>b n'. nc_map lm c b = Some n' \<longrightarrow> n_expires_at n \<le> n_expires_at n')
         \<and> nc_map lm c' = (nc_map lm c)(old := None, addr \<mapsto> \<lparr>n_hardware_addr = hw, n_expires_at = expires\<rparr>))"
proof -
  let ?m = "nc_storage c" and ?n = "\<lparr>n_hardware_addr = hw, n_expires_at = expires\<rparr>"
  have v: "lm_valid lm cap ?m" using valid by (simp add: nc_valid_def)
  obtain res m1 where ins: "lm_insert lm addr ?n ?m = (res, m1)" by (cases "lm_insert lm addr ?n ?m")
  show ?thesis
  proof (cases "map_of (lm_iter lm ?m) addr \<noteq> None \<or> length (lm_iter lm ?m) < cap")
    case True
    then have "res = Inr (map_of (lm_iter lm ?m) addr)" "lm_valid lm cap m1"
      "map_of (lm_iter lm m1) = (map_of (lm_iter lm ?m))(addr \<mapsto> ?n)"
      using lm_insert_law [OF laws v ins] by simp_all
    then show ?thesis
      using ins addr hw
      by (intro that [of "c\<lparr>nc_storage := m1\<rparr>"]) (simp_all add: nc_fill_with_expiration_def nc_valid_def nc_map_def)
  next
    case False
    then have res: "res = Inl (addr, ?n)" "m1 = ?m"
      using lm_insert_law [OF laws v ins] by simp_all
    have full: "length (lm_iter lm ?m) = cap" "distinct (map fst (lm_iter lm ?m))"
      using False v by (simp_all add: lm_valid_def)
    then have "lm_iter lm ?m \<noteq> []" using cap by auto
    then obtain e where e: "first_to_expire (lm_iter lm ?m) = Some e" "e \<in> set (lm_iter lm ?m)"
      "\<And>e'. e' \<in> set (lm_iter lm ?m) \<Longrightarrow> n_expires_at (snd e) \<le> n_expires_at (snd e')"
      using first_to_expire_spec by blast
    obtain old n where en: "e = (old, n)" by (cases e)
    have old: "map_of (lm_iter lm ?m) old = Some n" using full(2) e(2) en by (simp add: map_of_eq_Some_iff)
    obtain r m2 where rem: "lm_remove lm old ?m = (r, m2)" by (cases "lm_remove lm old ?m")
    then have m2: "r = Some n" "lm_valid lm cap m2" "map_of (lm_iter lm m2) = (map_of (lm_iter lm ?m))(old := None)"
      using lm_remove_law [OF laws v] old by simp_all
    have "map_of (lm_iter lm m2) addr = None" using m2(3) False by simp
    moreover have "length (lm_iter lm m2) < cap"
    proof -
      have "length (lm_iter lm m2) = card (dom (map_of (lm_iter lm m2)))" using lm_valid_card [OF m2(2)] by simp
      also have "\<dots> = card (dom (map_of (lm_iter lm ?m)) - {old})" using m2(3) by simp
      also have "\<dots> < card (dom (map_of (lm_iter lm ?m)))"
        using old by (intro card_Diff1_less) (auto simp: finite_dom_map_of)
      also have "\<dots> = cap" using full lm_valid_card [OF v] by simp
      finally show ?thesis .
    qed
    moreover obtain r3 m3 where ins2: "lm_insert lm addr ?n m2 = (r3, m3)" by (cases "lm_insert lm addr ?n m2")
    ultimately have m3: "r3 = Inr None" "lm_valid lm cap m3" "map_of (lm_iter lm m3) = (map_of (lm_iter lm m2))(addr \<mapsto> ?n)"
      using lm_insert_law [OF laws m2(2) ins2] by simp_all
    have "nc_fill_with_expiration lm addr hw expires c = Some (c\<lparr>nc_storage := m3\<rparr>)"
      using ins res e(1) en rem m2(1) ins2 m3(1) addr hw by (simp add: nc_fill_with_expiration_def)
    moreover have "card (dom (nc_map lm c)) = cap"
      using full lm_valid_card [OF v] by (simp add: nc_map_def)
    moreover have "\<forall>b n'. nc_map lm c b = Some n' \<longrightarrow> n_expires_at n \<le> n_expires_at n'"
      using e(3) en by (fastforce simp: nc_map_def dest: map_of_SomeD)
    ultimately show ?thesis
      using m3 m2(3) old
      by (intro that [of "c\<lparr>nc_storage := m3\<rparr>"] disjI2 exI [of _ old] exI [of _ n])
        (simp_all add: nc_valid_def nc_map_def)
  qed
qed

lemma nc_lookup_eq:
  assumes "linear_map_laws lm cap" and "nc_valid lm cap c" and "addr_is_unicast b"
  shows "nc_lookup lm b t c = Some (case nc_map lm c b of
      Some n \<Rightarrow> if t < n_expires_at n then Found (n_hardware_addr n)
                else if t < nc_silent_until c then RateLimited else NotFound
    | None \<Rightarrow> if t < nc_silent_until c then RateLimited else NotFound)"
  using lm_get_law [OF assms(1), of "nc_storage c" b] assms(2,3)
  by (simp add: nc_lookup_def nc_valid_def nc_map_def Let_def)

section \<open>Properties\<close>

text \<open>C32. The neighbor cache answers with what it was filled with: after \<open>fill\<close> the address resolves to its hardware
  address for the lifetime of an entry and no longer, the cache stays within its capacity, and every other address
  resolves as before, except that a full cache forgets one entry, and none that expires earlier than another.\<close>

theorem neighbor_fill_lookup:
  assumes "linear_map_laws lm cap" and "0 < cap" and "nc_valid lm cap c"
    and "addr_is_unicast addr" and "hw_is_unicast hw = Some True"
  shows "\<exists>c'. nc_fill lm addr hw t c = Some c' \<and> nc_valid lm cap c'
    \<and> nc_lookup lm addr t' c' = Some (if t' < t + 60000000 then Found hw
         else if t' < nc_silent_until c then RateLimited else NotFound)
    \<and> (\<forall>b. b \<noteq> addr \<longrightarrow> addr_is_unicast b \<longrightarrow>
         nc_lookup lm b t' c' = nc_lookup lm b t' c
         \<or> card (dom (nc_map lm c)) = cap \<and> (\<exists>n. nc_map lm c b = Some n
             \<and> (\<forall>d n'. nc_map lm c d = Some n' \<longrightarrow> n_expires_at n \<le> n_expires_at n')))"
proof -
  let ?exp = "instant_add t ENTRY_LIFETIME"
  have exp: "?exp = t + 60000000"
    by (simp add: instant_add_def instant_from_micros_def ENTRY_LIFETIME_def duration_from_millis_def duration_total_micros_def)
  obtain c' where c': "nc_fill_with_expiration lm addr hw ?exp c = Some c'" "nc_valid lm cap c'"
    "nc_silent_until c' = nc_silent_until c"
    and maps: "nc_map lm c' = (nc_map lm c)(addr \<mapsto> \<lparr>n_hardware_addr = hw, n_expires_at = ?exp\<rparr>) \<or>
      (\<exists>old n. nc_map lm c old = Some n \<and> card (dom (nc_map lm c)) = cap
         \<and> (\<forall>b n'. nc_map lm c b = Some n' \<longrightarrow> n_expires_at n \<le> n_expires_at n')
         \<and> nc_map lm c' = (nc_map lm c)(old := None, addr \<mapsto> \<lparr>n_hardware_addr = hw, n_expires_at = ?exp\<rparr>))"
    using nc_fill_with_expiration_spec [OF assms] .
  note look = nc_lookup_eq [OF assms(1) c'(2)] nc_lookup_eq [OF assms(1,3)]
  have "nc_fill lm addr hw t c = Some c'" using c'(1) assms(4,5) by (simp add: nc_fill_def)
  moreover have "nc_map lm c' addr = Some \<lparr>n_hardware_addr = hw, n_expires_at = ?exp\<rparr>" using maps by auto
  moreover have "nc_lookup lm b t' c' = nc_lookup lm b t' c
       \<or> card (dom (nc_map lm c)) = cap \<and> (\<exists>n. nc_map lm c b = Some n
             \<and> (\<forall>d n'. nc_map lm c d = Some n' \<longrightarrow> n_expires_at n \<le> n_expires_at n'))"
    if "b \<noteq> addr" "addr_is_unicast b" for b
  proof (cases "nc_map lm c' b = nc_map lm c b")
    case True
    then show ?thesis using look that c'(3) by simp
  next
    case False
    with maps that(1) show ?thesis by (auto split: if_splits)
  qed
  ultimately show ?thesis using c'(2,3) look(1) [OF assms(4)] exp by simp
qed

text \<open>A map of capacity \<open>cap\<close> that keeps the documented promises.\<close>

definition alist_map :: "nat \<Rightarrow> ('k, 'v, ('k \<times> 'v) list) linear_map" where
  "alist_map cap = \<lparr>lm_new = [], lm_get = (\<lambda>k m. map_of m k),
     lm_insert = (\<lambda>k v m. if map_of m k \<noteq> None \<or> length m < cap
        then (Inr (map_of m k), (k, v) # filter (\<lambda>p. fst p \<noteq> k) m) else (Inl (k, v), m)),
     lm_remove = (\<lambda>k m. (map_of m k, filter (\<lambda>p. fst p \<noteq> k) m)), lm_iter = (\<lambda>m. m), lm_clear = (\<lambda>m. [])\<rparr>"

lemma map_of_filter_key: "map_of (filter (\<lambda>p. fst p \<noteq> k) m) = (map_of m)(k := None)"
  by (induction m) (auto simp: fun_eq_iff)

lemma length_filter_key: "map_of m k \<noteq> None \<Longrightarrow> length (filter (\<lambda>p. fst p \<noteq> k) m) < length m"
  by (induction m) (auto simp: le_imp_less_Suc split: if_splits)

lemma alist_map_laws: "linear_map_laws (alist_map cap) cap"
proof -
  have "lm_valid (alist_map cap) cap ((k, v) # filter (\<lambda>p. fst p \<noteq> k) m)"
    if "lm_valid (alist_map cap) cap m" "map_of m k \<noteq> None \<or> length m < cap" for m :: "('a \<times> 'b) list" and k v
  proof -
    have len: "length m \<le> cap" "distinct (map fst m)" using that(1) by (simp_all add: lm_valid_def alist_map_def)
    then have "length (filter (\<lambda>p. fst p \<noteq> k) m) < cap"
      using that(2) length_filter_key [of m k] length_filter_le [of "\<lambda>p. fst p \<noteq> k" m] by linarith
    then show ?thesis using len(2) by (auto simp: lm_valid_def alist_map_def distinct_map_filter)
  qed
  moreover have "lm_valid (alist_map cap) cap (filter (\<lambda>p. fst p \<noteq> k) m)"
    if "lm_valid (alist_map cap) cap m" for m :: "('a \<times> 'b) list" and k
    using that by (auto simp: lm_valid_def alist_map_def distinct_map_filter intro: le_trans [OF length_filter_le])
  ultimately show ?thesis
    by (simp add: linear_map_laws_def alist_map_def map_of_filter_key fun_upd_idem_iff)
qed

theorem neighbor_fill_lookup_witness:
  "\<exists>c'. nc_fill (alist_map 2) (Ipv4 [192, 0, 2, 7]) (Haddr_Ethernet [2, 0, 0, 0, 0, 7]) 0 (nc_new (alist_map 2)) = Some c'
     \<and> nc_lookup (alist_map 2) (Ipv4 [192, 0, 2, 7]) 59000000 c' = Some (Found (Haddr_Ethernet [2, 0, 0, 0, 0, 7]))"
proof -
  have rep: "replicate 4 x = [x, x, x, x]" "replicate 6 x = [x, x, x, x, x, x]" for x :: u8
    by (simp_all add: eval_nat_numeral)
  have valid: "nc_valid (alist_map 2) 2 (nc_new (alist_map 2))"
    by (simp add: nc_valid_def lm_valid_def nc_new_def alist_map_def)
  have addr: "addr_is_unicast (Ipv4 [192, 0, 2, 7])"
    by (simp add: v4_is_unicast_def v4_is_broadcast_def v4_is_multicast_def v4_is_unspecified_def rep)
  have hw: "hw_is_unicast (Haddr_Ethernet [2, 0, 0, 0, 0, 7]) = Some True"
    by (simp add: eth_is_unicast_def eth_is_broadcast_def eth_is_multicast_def ETH_BROADCAST_def rep)
  have cap: "0 < (2::nat)" by simp
  from neighbor_fill_lookup [OF alist_map_laws cap valid addr hw, of 0 59000000] show ?thesis by auto
qed

end
