(* ===== verification/Ip_Cidr.thy ===== *)
theory Ip_Cidr
  imports Wire_Bytes Ip_Types
begin

text \<open>
  CIDR blocks: \<open>Cidr\<close> of \<^verbatim>\<open>src/wire/ipv4.rs\<close>, \<^verbatim>\<open>src/wire/ipv6.rs\<close> and \<^verbatim>\<open>src/wire/ip.rs\<close>. The IPv4 code shifts 32-bit
  words, the IPv6 code masks octets; both are compared with the bits of the address, counted from the first.
\<close>

unbundle bit_operations_syntax

section \<open>Model\<close>

text \<open>The two structs have the same fields; the enum \<open>ip_cidr\<close> keeps them apart.\<close>

record cidr =
  c_address :: "u8 list"
  c_prefix_len :: u8

definition ipv4_cidr_new :: "u8 list \<Rightarrow> u8 \<Rightarrow> cidr option" where
  "ipv4_cidr_new address prefix_len =
     do { rust_assert (\<not> prefix_len > 32); Some \<lparr>c_address = address, c_prefix_len = prefix_len\<rparr> }"

text \<open>The bit counts of the standard library, on the bits from the most significant one.\<close>

definition u32_bits :: "u32 \<Rightarrow> bool list" where "u32_bits w = map (bit w) (rev [0 ..< 32])"

definition leading_zeros :: "u32 \<Rightarrow> nat" where "leading_zeros w = length (takeWhile Not (u32_bits w))"
definition trailing_zeros :: "u32 \<Rightarrow> nat" where "trailing_zeros w = length (takeWhile Not (rev (u32_bits w)))"
definition count_zeros :: "u32 \<Rightarrow> nat" where "count_zeros w = length (filter Not (u32_bits w))"
definition count_ones :: "u32 \<Rightarrow> nat" where "count_ones w = length (filter id (u32_bits w))"

definition cidr_from_netmask :: "u8 list \<Rightarrow> u8 list \<Rightarrow> wire_error + cidr" where
  "cidr_from_netmask addr netmask =
     (let netmask = be_u32 netmask
      in if leading_zeros netmask = 0 \<and> trailing_zeros netmask = count_zeros netmask
         then Inr \<lparr>c_address = addr, c_prefix_len = of_nat (count_ones netmask)\<rparr>
         else Inl Wire_Error)"

definition u32_octets :: "u32 \<Rightarrow> u8 list" where
  "u32_octets number =
     [ucast (drop_bit 24 number AND 0xff), ucast (drop_bit 16 number AND 0xff),
      ucast (drop_bit 8 number AND 0xff), ucast (drop_bit 0 number AND 0xff)]"

definition cidr_netmask :: "cidr \<Rightarrow> u8 list" where
  "cidr_netmask c =
     (if c_prefix_len c = 0 then [0, 0, 0, 0]
      else u32_octets (push_bit (32 - unat (c_prefix_len c)) 0xffffffff))"

definition cidr_network :: "cidr \<Rightarrow> cidr" where
  "cidr_network c =
     (let mask = cidr_netmask c
      in \<lparr>c_address = [c_address c ! 0 AND mask ! 0, c_address c ! 1 AND mask ! 1,
                       c_address c ! 2 AND mask ! 2, c_address c ! 3 AND mask ! 3],
          c_prefix_len = c_prefix_len c\<rparr>)"

definition cidr_broadcast :: "cidr \<Rightarrow> u8 list option" where
  "cidr_broadcast c =
     (let network = cidr_network c
      in if c_prefix_len network = 31 \<or> c_prefix_len network = 32 then None
         else Some (u32_octets (be_u32 (c_address network) OR drop_bit (unat (c_prefix_len network)) 0xffffffff)))"

definition cidr4_contains_addr :: "cidr \<Rightarrow> u8 list \<Rightarrow> bool" where
  "cidr4_contains_addr c addr \<longleftrightarrow>
     (if c_prefix_len c = 0 then True
      else let shift = 32 - unat (c_prefix_len c)
           in drop_bit shift (be_u32 (c_address c)) = drop_bit shift (be_u32 addr))"

definition cidr4_contains_subnet :: "cidr \<Rightarrow> cidr \<Rightarrow> bool" where
  "cidr4_contains_subnet c subnet \<longleftrightarrow> c_prefix_len c \<le> c_prefix_len subnet \<and> cidr4_contains_addr c (c_address subnet)"

definition ipv6_cidr_new :: "u8 list \<Rightarrow> u8 \<Rightarrow> cidr option" where
  "ipv6_cidr_new address prefix_len =
     do { rust_assert (prefix_len \<le> 128); Some \<lparr>c_address = address, c_prefix_len = prefix_len\<rparr> }"

definition ipv6_mask :: "u8 list \<Rightarrow> u8 \<Rightarrow> u8 list option" where
  "ipv6_mask addr plen =
     do { rust_assert (plen \<le> 128);
          let idx = unat plen div 8;
          let modulus = unat plen mod 8;
          let bytes = blit 0 (take idx addr) (replicate 16 0);
          Some (if idx < 16 then bytes[idx := addr ! idx AND NOT (drop_bit modulus 0xff)] else bytes) }"

definition cidr6_contains_addr :: "cidr \<Rightarrow> u8 list \<Rightarrow> bool option" where
  "cidr6_contains_addr c addr =
     (if c_prefix_len c = 0 then Some True
      else do { a \<leftarrow> ipv6_mask (c_address c) (c_prefix_len c); b \<leftarrow> ipv6_mask addr (c_prefix_len c); Some (a = b) })"

definition cidr6_contains_subnet :: "cidr \<Rightarrow> cidr \<Rightarrow> bool option" where
  "cidr6_contains_subnet c subnet =
     (if c_prefix_len c \<le> c_prefix_len subnet then cidr6_contains_addr c (c_address subnet) else Some False)"

datatype ip_cidr = Cidr4 cidr | Cidr6 cidr

fun ip_cidr_address :: "ip_cidr \<Rightarrow> ip_address" where
  "ip_cidr_address (Cidr4 c) = Ipv4 (c_address c)"
| "ip_cidr_address (Cidr6 c) = Ipv6 (c_address c)"

fun ip_cidr_prefix_len :: "ip_cidr \<Rightarrow> u8" where
  "ip_cidr_prefix_len (Cidr4 c) = c_prefix_len c"
| "ip_cidr_prefix_len (Cidr6 c) = c_prefix_len c"

fun ip_cidr_contains_addr :: "ip_cidr \<Rightarrow> ip_address \<Rightarrow> bool option" where
  "ip_cidr_contains_addr (Cidr4 c) (Ipv4 addr) = Some (cidr4_contains_addr c addr)"
| "ip_cidr_contains_addr (Cidr6 c) (Ipv6 addr) = cidr6_contains_addr c addr"
| "ip_cidr_contains_addr _ _ = Some False"

fun ip_cidr_contains_subnet :: "ip_cidr \<Rightarrow> ip_cidr \<Rightarrow> bool option" where
  "ip_cidr_contains_subnet (Cidr4 c) (Cidr4 other) = Some (cidr4_contains_subnet c other)"
| "ip_cidr_contains_subnet (Cidr6 c) (Cidr6 other) = cidr6_contains_subnet c other"
| "ip_cidr_contains_subnet _ _ = Some False"

section \<open>Bits of addresses\<close>

definition addr_bit :: "u8 list \<Rightarrow> nat \<Rightarrow> bool" where
  "addr_bit a i = bit (a ! (i div 8)) (7 - i mod 8)"

fun wf_cidr :: "ip_cidr \<Rightarrow> bool" where
  "wf_cidr (Cidr4 c) \<longleftrightarrow> length (c_address c) = 4 \<and> c_prefix_len c \<le> 32"
| "wf_cidr (Cidr6 c) \<longleftrightarrow> length (c_address c) = 16 \<and> c_prefix_len c \<le> 128"

lemma be_u32_quad: "be_u32 [a, b, c, d] =
    push_bit 24 (ucast a) OR push_bit 16 (ucast b) OR push_bit 8 (ucast c) OR (ucast d :: u32)"
proof -
  have "be_u32 [a, b, c, d] = of_nat (unat a) * 0x1000000 + of_nat (unat b) * 0x10000 + of_nat (unat c) * 0x100 + of_nat (unat d)"
    by (simp add: be_u32_def be_nat_def algebra_simps)
  also have "\<dots> = push_bit 24 (ucast a) + (push_bit 16 (ucast b) + (push_bit 8 (ucast c) + (ucast d :: u32)))"
    by (simp add: push_bit_eq_mult of_nat_unat mult.commute)
  also have "\<dots> = push_bit 24 (ucast a) OR (push_bit 16 (ucast b) OR (push_bit 8 (ucast c) OR ucast d))"
  proof -
    have low: "push_bit 8 (ucast c) AND (ucast d :: u32) = 0"
      by (rule bit_eqI) (auto simp: bit_simps dest: bit_imp_le_length)
    have mid: "push_bit 16 (ucast b) AND (push_bit 8 (ucast c) OR (ucast d :: u32)) = 0"
      by (rule bit_eqI) (auto simp: bit_simps dest: bit_imp_le_length)
    have high: "push_bit 24 (ucast a) AND (push_bit 16 (ucast b) OR (push_bit 8 (ucast c) OR (ucast d :: u32))) = 0"
      by (rule bit_eqI) (auto simp: bit_simps dest: bit_imp_le_length)
    show ?thesis
      by (simp only: disjunctive_add_eq_or [OF low] disjunctive_add_eq_or [OF mid] disjunctive_add_eq_or [OF high])
  qed
  finally show ?thesis by (simp add: or.assoc)
qed

lemma octet_index: "x < 8 \<Longrightarrow> (8 * j + x) div 8 = j \<and> (8 * j + x) mod (8::nat) = x"
  by simp

lemma bit_be_u32:
  assumes "length a = 4" and "n < 32"
  shows "bit (be_u32 a) n = addr_bit a (31 - n)"
proof -
  obtain w x y z where a: "a = [w, x, y, z]"
    using assms(1) by (auto simp: numeral_eq_Suc length_Suc_conv)
  have big: "\<not> bit v k" if "8 \<le> k" for v :: u8 and k using that bit_imp_le_length [of v k] by auto
  consider "n < 8" | "8 \<le> n" "n < 16" | "16 \<le> n" "n < 24" | "24 \<le> n" using assms(2) by linarith
  then show ?thesis
  proof cases
    case 1
    then have e: "31 - n = 8 * 3 + (7 - n)" by simp
    have "(31 - n) div 8 = 3" "7 - (31 - n) mod 8 = n" using octet_index [of "7 - n" 3] 1 unfolding e by simp_all
    then show ?thesis using 1 a by (simp add: be_u32_quad addr_bit_def bit_simps)
  next
    case 2
    then have e: "31 - n = 8 * 2 + (15 - n)" by simp
    have "(31 - n) div 8 = 2" "7 - (31 - n) mod 8 = n - 8" using octet_index [of "15 - n" 2] 2 unfolding e by simp_all
    then show ?thesis using 2 a big by (auto simp add: be_u32_quad addr_bit_def bit_simps)
  next
    case 3
    then have e: "31 - n = 8 * 1 + (23 - n)" by simp
    have "(31 - n) div 8 = 1" "7 - (31 - n) mod 8 = n - 16" using octet_index [of "23 - n" 1] 3 unfolding e by simp_all
    then show ?thesis using 3 a big by (auto simp add: be_u32_quad addr_bit_def bit_simps)
  next
    case 4
    have "(31 - n) div 8 = 0" "7 - (31 - n) mod 8 = n - 24" using octet_index [of "31 - n" 0] 4 assms(2) by simp_all
    then show ?thesis using 4 assms(2) a big by (auto simp add: be_u32_quad addr_bit_def bit_simps)
  qed
qed

lemma addr_eq_bits:
  assumes "length a = n" and "length b = n"
  shows "a = b \<longleftrightarrow> (\<forall>i < 8 * n. addr_bit a i = addr_bit b i)"
proof
  assume eq: "\<forall>i < 8 * n. addr_bit a i = addr_bit b i"
  show "a = b"
  proof (rule nth_equalityI)
    fix j assume "j < length a"
    then have j: "j < n" using assms by simp
    show "a ! j = b ! j"
    proof (rule bit_eqI)
      fix k assume "possible_bit TYPE(8 word) k"
      then have k: "k < 8" by (simp add: possible_bit_word)
      then have "8 * j + (7 - k) < 8 * n" "(8 * j + (7 - k)) div 8 = j" "7 - (8 * j + (7 - k)) mod 8 = k"
        using j octet_index [of "7 - k" j] by simp_all
      then show "bit (a ! j) k = bit (b ! j) k" using eq by (metis addr_bit_def)
    qed
  qed (simp add: assms)
qed simp

lemma cidr4_contains_bits:
  assumes "length (c_address c) = 4" and "length a = 4" and "c_prefix_len c \<le> 32"
  shows "cidr4_contains_addr c a \<longleftrightarrow> (\<forall>i < unat (c_prefix_len c). addr_bit (c_address c) i = addr_bit a i)"
proof (cases "c_prefix_len c = 0")
  case False
  let ?p = "unat (c_prefix_len c)"
  have p: "?p \<le> 32" using assms(3) by (simp add: word_le_nat_alt)
  have beyond: "\<not> bit w k" if "32 \<le> k" for w :: u32 and k using that bit_imp_le_length [of w k] by auto
  have "drop_bit (32 - ?p) (be_u32 (c_address c)) = drop_bit (32 - ?p) (be_u32 a)
      \<longleftrightarrow> (\<forall>k. bit (be_u32 (c_address c)) (32 - ?p + k) = bit (be_u32 a) (32 - ?p + k))"
    by (simp add: bit_eq_iff bit_drop_bit_eq possible_bit_word) (metis add_leD2 beyond linorder_not_le trans_le_add2)
  also have "\<dots> \<longleftrightarrow> (\<forall>i < ?p. addr_bit (c_address c) i = addr_bit a i)"
  proof
    assume l: "\<forall>k. bit (be_u32 (c_address c)) (32 - ?p + k) = bit (be_u32 a) (32 - ?p + k)"
    show "\<forall>i < ?p. addr_bit (c_address c) i = addr_bit a i"
    proof (intro allI impI)
      fix i assume "i < ?p"
      then have "31 - (32 - ?p + (?p - 1 - i)) = i" "32 - ?p + (?p - 1 - i) < 32" using p by simp_all
      then show "addr_bit (c_address c) i = addr_bit a i" using l bit_be_u32 assms(1,2) by metis
    qed
  next
    assume r: "\<forall>i < ?p. addr_bit (c_address c) i = addr_bit a i"
    show "\<forall>k. bit (be_u32 (c_address c)) (32 - ?p + k) = bit (be_u32 a) (32 - ?p + k)"
    proof
      fix k
      show "bit (be_u32 (c_address c)) (32 - ?p + k) = bit (be_u32 a) (32 - ?p + k)"
      proof (cases "32 - ?p + k < 32")
        case True
        then have "31 - (32 - ?p + k) < ?p" using p by linarith
        then show ?thesis using r bit_be_u32 [OF assms(1) True] bit_be_u32 [OF assms(2) True] by simp
      qed (simp add: beyond)
    qed
  qed
  finally show ?thesis using False by (simp add: cidr4_contains_addr_def Let_def)
qed (simp add: cidr4_contains_addr_def)

lemma ipv6_mask_bits:
  assumes "length a = 16" and "p \<le> 128"
  shows "\<exists>m. ipv6_mask a p = Some m \<and> length m = 16 \<and> (\<forall>i < 128. addr_bit m i \<longleftrightarrow> i < unat p \<and> addr_bit a i)"
proof -
  let ?p = "unat p" and ?idx = "unat p div 8" and ?mod = "unat p mod 8"
  have p: "?p \<le> 128" using assms(2) by (simp add: word_le_nat_alt)
  then have idx: "?idx \<le> 16" by simp
  define m where "m = (let bytes = blit 0 (take ?idx a) (replicate 16 0)
     in if ?idx < 16 then bytes[?idx := a ! ?idx AND NOT (drop_bit ?mod 0xff)] else bytes)"
  have "ipv6_mask a p = Some m" using assms(2) by (simp add: ipv6_mask_def m_def Let_def)
  moreover have len: "length m = 16" using assms(1) idx by (simp add: m_def Let_def)
  moreover have nth: "m ! j = (if j < ?idx then a ! j else if j = ?idx then a ! j AND NOT (drop_bit ?mod 0xff) else 0)"
    if "j < 16" for j
    using that assms(1) idx by (auto simp: m_def Let_def blit_def nth_append nth_list_update)
  moreover have "addr_bit m i \<longleftrightarrow> i < ?p \<and> addr_bit a i" if "i < 128" for i
  proof -
    have j: "i div 8 < 16" using that by simp
    consider "i div 8 < ?idx" | "i div 8 = ?idx" | "?idx < i div 8" by linarith
    then show ?thesis
    proof cases
      case 1
      then have "i < ?p" by (metis div_le_mono linorder_not_le)
      then show ?thesis using 1 nth [OF j] by (simp add: addr_bit_def)
    next
      case 2
      have "i = 8 * ?idx + i mod 8" "?p = 8 * ?idx + ?mod" using 2 by (metis mult_div_mod_eq) simp
      then have lt: "i < ?p \<longleftrightarrow> i mod 8 < ?mod" by linarith
      have "bit (drop_bit ?mod (0xff :: u8)) (7 - i mod 8) \<longleftrightarrow> \<not> i mod 8 < ?mod"
      proof -
        have ff: "(0xff :: u8) = - 1" by simp
        have "bit (drop_bit ?mod (- 1 :: u8)) (7 - i mod 8) \<longleftrightarrow> ?mod + (7 - i mod 8) < 8"
          using mod_less_divisor [of 8 i] mod_less_divisor [of 8 "unat p"] by (auto simp: bit_simps possible_bit_word)
        also have "\<dots> \<longleftrightarrow> \<not> i mod 8 < ?mod" using mod_less_divisor [of 8 i] by linarith
        finally show ?thesis unfolding ff .
      qed
      then show ?thesis
        using 2 nth [OF j] lt by (simp add: addr_bit_def bit_and_iff bit_not_iff possible_bit_word)
          (use zero_less_Suc in \<open>auto\<close>)
    next
      case 3
      then have "\<not> i < ?p" by (metis div_le_mono less_imp_le linorder_not_le)
      then show ?thesis using 3 nth [OF j] by (simp add: addr_bit_def)
    qed
  qed
  ultimately show ?thesis by blast
qed

lemma cidr6_contains_bits:
  assumes "length (c_address c) = 16" and "length a = 16" and "c_prefix_len c \<le> 128"
  shows "cidr6_contains_addr c a = Some (\<forall>i < unat (c_prefix_len c). addr_bit (c_address c) i = addr_bit a i)"
proof (cases "c_prefix_len c = 0")
  case False
  obtain m m' where m: "ipv6_mask (c_address c) (c_prefix_len c) = Some m" "ipv6_mask a (c_prefix_len c) = Some m'"
    "length m = 16" "length m' = 16"
    "\<forall>i < 128. addr_bit m i \<longleftrightarrow> i < unat (c_prefix_len c) \<and> addr_bit (c_address c) i"
    "\<forall>i < 128. addr_bit m' i \<longleftrightarrow> i < unat (c_prefix_len c) \<and> addr_bit a i"
    using ipv6_mask_bits [OF assms(1,3)] ipv6_mask_bits [OF assms(2,3)] by blast
  have p: "unat (c_prefix_len c) \<le> 128" using assms(3) by (simp add: word_le_nat_alt)
  have "m = m' \<longleftrightarrow> (\<forall>i < 128. addr_bit m i = addr_bit m' i)" using addr_eq_bits [OF m(3,4)] by simp
  also have "\<dots> \<longleftrightarrow> (\<forall>i < unat (c_prefix_len c). addr_bit (c_address c) i = addr_bit a i)"
    using m(5,6) p by (metis order_less_le_trans)
  finally show ?thesis using m(1,2) False by (simp add: cidr6_contains_addr_def)
qed (simp add: cidr6_contains_addr_def)

lemma ip_cidr_contains_bits:
  assumes "wf_cidr c" and "wf_addr a"
  shows "ip_cidr_contains_addr c a = Some (addr_version (ip_cidr_address c) = addr_version a
     \<and> (\<forall>i < unat (ip_cidr_prefix_len c). addr_bit (addr_as_bytes (ip_cidr_address c)) i = addr_bit (addr_as_bytes a) i))"
  using assms by (cases c; cases a) (simp_all add: cidr4_contains_bits cidr6_contains_bits)

lemma unat_le: "(a :: u8) \<le> b \<Longrightarrow> unat a \<le> unat b"
  by (simp add: word_le_nat_alt)

section \<open>Properties\<close>

text \<open>C31. \<open>contains_addr\<close> is prefix equality: for both versions of IP a block contains an address exactly when the
  address has the version of the block and the first \<open>prefix_len\<close> bits of the block's address, the IPv4 code with
  its word shifts and the IPv6 code with its octet masks alike; and neither panics on a valid prefix length.\<close>

theorem cidr_contains_is_prefix:
  assumes "wf_cidr c" and "wf_addr a"
  shows "ip_cidr_contains_addr c a = Some (addr_version (ip_cidr_address c) = addr_version a
     \<and> (\<forall>i < unat (ip_cidr_prefix_len c). addr_bit (addr_as_bytes (ip_cidr_address c)) i = addr_bit (addr_as_bytes a) i))"
  using assms by (rule ip_cidr_contains_bits)

theorem cidr_contains_is_prefix_witness:
  "ip_cidr_contains_addr (Cidr4 \<lparr>c_address = [192, 168, 69, 1], c_prefix_len = 24\<rparr>) (Ipv4 [192, 168, 69, 200]) = Some True"
proof -
  have "wf_cidr (Cidr4 \<lparr>c_address = [192, 168, 69, 1], c_prefix_len = 24\<rparr>)" "wf_addr (Ipv4 [192, 168, 69, 200])"
    by simp_all
  note contains = cidr_contains_is_prefix [OF this]
  have "addr_bit [192, 168, 69, 1] i = addr_bit [192, 168, 69, 200] i" if "i < 24" for i
  proof -
    have "i div 8 = 0 \<or> i div 8 = 1 \<or> i div 8 = 2" using that by linarith
    then show ?thesis by (auto simp: addr_bit_def)
  qed
  then show ?thesis unfolding contains by simp
qed

text \<open>\<open>contains_subnet\<close> is inclusion: when a block contains another block, every address of the second is an
  address of the first.\<close>

theorem cidr_contains_subnet_inclusion:
  assumes "wf_cidr c" and "wf_cidr d" and "wf_addr a"
    and "ip_cidr_contains_subnet c d = Some True" and "ip_cidr_contains_addr d a = Some True"
  shows "ip_cidr_contains_addr c a = Some True"
proof -
  have le: "unat (ip_cidr_prefix_len c) \<le> unat (ip_cidr_prefix_len d)"
    and sub: "ip_cidr_contains_addr c (ip_cidr_address d) = Some True"
    using assms(4)
    by (cases c; cases d; auto simp: cidr4_contains_subnet_def cidr6_contains_subnet_def unat_le split: if_splits)+
  have wf: "wf_addr (ip_cidr_address d)" using assms(2) by (cases d) simp_all
  from sub le assms(5) show ?thesis
    unfolding ip_cidr_contains_bits [OF assms(1) wf] ip_cidr_contains_bits [OF assms(2,3)]
      ip_cidr_contains_bits [OF assms(1,3)] by simp
qed

theorem cidr_contains_subnet_inclusion_witness:
  "ip_cidr_contains_addr (Cidr4 \<lparr>c_address = [10, 0, 0, 0], c_prefix_len = 8\<rparr>) (Ipv4 [10, 1, 2, 3]) = Some True"
proof (rule cidr_contains_subnet_inclusion [where d = "Cidr4 \<lparr>c_address = [10, 1, 0, 0], c_prefix_len = 16\<rparr>"])
  show "ip_cidr_contains_subnet (Cidr4 \<lparr>c_address = [10, 0, 0, 0], c_prefix_len = 8\<rparr>)
      (Cidr4 \<lparr>c_address = [10, 1, 0, 0], c_prefix_len = 16\<rparr>) = Some True"
    by (simp add: cidr4_contains_subnet_def cidr4_contains_addr_def be_u32_def be_nat_def)
  show "ip_cidr_contains_addr (Cidr4 \<lparr>c_address = [10, 1, 0, 0], c_prefix_len = 16\<rparr>) (Ipv4 [10, 1, 2, 3]) = Some True"
    by (simp add: cidr4_contains_addr_def be_u32_def be_nat_def)
qed simp_all

lemma netmask_table:
  "list_all (\<lambda>p. cidr_from_netmask [] (cidr_netmask \<lparr>c_address = [], c_prefix_len = of_nat p\<rparr>)
      = (if p = 0 then Inl Wire_Error else Inr \<lparr>c_address = [], c_prefix_len = of_nat p\<rparr>)) [0 ..< 33]"
  by (simp add: cidr_from_netmask_def cidr_netmask_def u32_octets_def be_u32_def be_nat_def u32_bits_def upt_rec
      leading_zeros_def trailing_zeros_def count_zeros_def count_ones_def)

text \<open>\<open>from_netmask\<close> inverts \<open>netmask\<close> for every prefix length but zero: the mask 0.0.0.0, which \<open>netmask\<close> computes
  for a prefix length of zero, is refused.\<close>

theorem cidr_netmask_roundtrip:
  assumes "p \<le> 32"
  shows "cidr_from_netmask addr (cidr_netmask \<lparr>c_address = a, c_prefix_len = p\<rparr>)
     = (if p = 0 then Inl Wire_Error else Inr \<lparr>c_address = addr, c_prefix_len = p\<rparr>)"
proof -
  have "unat p \<le> 32" using assms by (simp add: word_le_nat_alt)
  then have "unat p \<in> set [0 ..< 33]" by simp
  with netmask_table have "cidr_from_netmask [] (cidr_netmask \<lparr>c_address = [], c_prefix_len = of_nat (unat p)\<rparr>)
      = (if unat p = 0 then Inl Wire_Error else Inr \<lparr>c_address = [], c_prefix_len = of_nat (unat p)\<rparr>)"
    unfolding list_all_iff by blast
  moreover have "cidr_netmask \<lparr>c_address = a, c_prefix_len = p\<rparr> = cidr_netmask \<lparr>c_address = [], c_prefix_len = p\<rparr>"
    by (simp add: cidr_netmask_def)
  ultimately show ?thesis by (auto simp: cidr_from_netmask_def Let_def unat_eq_0 split: if_splits)
qed

theorem cidr_netmask_roundtrip_witness:
  "cidr_from_netmask [192, 0, 2, 1] (cidr_netmask \<lparr>c_address = [10, 0, 0, 0], c_prefix_len = 24\<rparr>)
     = Inr \<lparr>c_address = [192, 0, 2, 1], c_prefix_len = 24\<rparr>"
  using cidr_netmask_roundtrip [of 24 "[192, 0, 2, 1]" "[10, 0, 0, 0]"] by simp

end
