(* ===== verification/Routes.thy ===== *)
theory Routes
  imports Smol_Time Ip_Cidr
begin

text \<open>
  The routing table of \<^verbatim>\<open>src/iface/route.rs\<close>. The vector of the routes is the list of its elements, with its
  capacity (\<open>IFACE_MAX_ROUTE_COUNT\<close>, a constant of the build) as a parameter.
\<close>

section \<open>Model\<close>

record route =
  rt_cidr :: ip_cidr
  rt_via_router :: ip_address
  rt_preferred_until :: "instant option"
  rt_expires_at :: "instant option"

type_synonym routes = "route list"

datatype route_table_full = RouteTableFull

definition IPV4_DEFAULT :: ip_cidr where
  "IPV4_DEFAULT = Cidr4 \<lparr>c_address = [0, 0, 0, 0], c_prefix_len = 0\<rparr>"

definition IPV6_DEFAULT :: ip_cidr where
  "IPV6_DEFAULT = Cidr6 \<lparr>c_address = replicate 16 0, c_prefix_len = 0\<rparr>"

definition new_ipv4_gateway :: "u8 list \<Rightarrow> route" where
  "new_ipv4_gateway gateway =
     \<lparr>rt_cidr = IPV4_DEFAULT, rt_via_router = Ipv4 gateway, rt_preferred_until = None, rt_expires_at = None\<rparr>"

definition new_ipv6_gateway :: "u8 list \<Rightarrow> route" where
  "new_ipv6_gateway gateway =
     \<lparr>rt_cidr = IPV6_DEFAULT, rt_via_router = Ipv6 gateway, rt_preferred_until = None, rt_expires_at = None\<rparr>"

text \<open>\<open>find\<close> the first route of the block and \<open>remove\<close> it: both default routes are removed this way.\<close>

fun remove_route :: "ip_cidr \<Rightarrow> routes \<Rightarrow> route option \<times> routes" where
  "remove_route cidr [] = (None, [])"
| "remove_route cidr (r # rs) =
     (if rt_cidr r = cidr then (Some r, rs) else let (old, rs) = remove_route cidr rs in (old, r # rs))"

definition remove_default_ipv4_route :: "routes \<Rightarrow> route option \<times> routes" where
  "remove_default_ipv4_route rs = remove_route IPV4_DEFAULT rs"

definition remove_default_ipv6_route :: "routes \<Rightarrow> route option \<times> routes" where
  "remove_default_ipv6_route rs = remove_route IPV6_DEFAULT rs"

definition add_default_ipv4_route :: "nat \<Rightarrow> u8 list \<Rightarrow> routes \<Rightarrow> (route_table_full + route option) \<times> routes" where
  "add_default_ipv4_route max_count gateway rs =
     (let (old, rs) = remove_default_ipv4_route rs
      in if length rs < max_count then (Inr old, rs @ [new_ipv4_gateway gateway]) else (Inl RouteTableFull, rs))"

definition add_default_ipv6_route :: "nat \<Rightarrow> u8 list \<Rightarrow> routes \<Rightarrow> (route_table_full + route option) \<times> routes" where
  "add_default_ipv6_route max_count gateway rs =
     (let (old, rs) = remove_default_ipv6_route rs
      in if length rs < max_count then (Inr old, rs @ [new_ipv6_gateway gateway]) else (Inl RouteTableFull, rs))"

text \<open>The closure of the filter.\<close>

definition route_matches :: "ip_address \<Rightarrow> instant \<Rightarrow> route \<Rightarrow> bool option" where
  "route_matches addr timestamp r =
     (if (case rt_expires_at r of Some expires_at \<Rightarrow> timestamp > expires_at | None \<Rightarrow> False) then Some False
      else ip_cidr_contains_addr (rt_cidr r) addr)"

text \<open>\<open>filter\<close> and \<open>max_by_key\<close>, which keeps the last of the elements with the greatest key.\<close>

fun best_route :: "ip_address \<Rightarrow> instant \<Rightarrow> route option \<Rightarrow> routes \<Rightarrow> route option option" where
  "best_route addr timestamp best [] = Some best"
| "best_route addr timestamp best (r # rs) =
     do { matches \<leftarrow> route_matches addr timestamp r;
          best_route addr timestamp
            (if matches then case best of
                 None \<Rightarrow> Some r
               | Some b \<Rightarrow> if ip_cidr_prefix_len (rt_cidr b) \<le> ip_cidr_prefix_len (rt_cidr r) then Some r else best
             else best) rs }"

definition routes_lookup :: "ip_address \<Rightarrow> instant \<Rightarrow> routes \<Rightarrow> ip_address option option" where
  "routes_lookup addr timestamp rs =
     do { rust_assert (addr_is_unicast addr);
          best \<leftarrow> best_route addr timestamp None rs;
          Some (map_option rt_via_router best) }"

section \<open>Correctness\<close>

definition wf_routes :: "routes \<Rightarrow> bool" where
  "wf_routes rs \<longleftrightarrow> (\<forall>r \<in> set rs. wf_cidr (rt_cidr r))"

text \<open>The route is in force and its block has the prefix of the address.\<close>

definition applies :: "ip_address \<Rightarrow> instant \<Rightarrow> route \<Rightarrow> bool" where
  "applies addr timestamp r \<longleftrightarrow> (\<forall>e. rt_expires_at r = Some e \<longrightarrow> timestamp \<le> e)
     \<and> addr_version (ip_cidr_address (rt_cidr r)) = addr_version addr
     \<and> (\<forall>i < unat (ip_cidr_prefix_len (rt_cidr r)).
          addr_bit (addr_as_bytes (ip_cidr_address (rt_cidr r))) i = addr_bit (addr_as_bytes addr) i)"

lemma route_matches_applies:
  "wf_cidr (rt_cidr r) \<Longrightarrow> wf_addr addr \<Longrightarrow> route_matches addr timestamp r = Some (applies addr timestamp r)"
  by (auto simp: route_matches_def applies_def ip_cidr_contains_bits split: option.splits)

text \<open>\<open>b\<close> is a most specific one of the routes in \<open>S\<close> that apply.\<close>

definition most_specific :: "ip_address \<Rightarrow> instant \<Rightarrow> route set \<Rightarrow> route option \<Rightarrow> bool" where
  "most_specific addr timestamp S best = (case best of
      None \<Rightarrow> \<forall>r \<in> S. \<not> applies addr timestamp r
    | Some b \<Rightarrow> b \<in> S \<and> applies addr timestamp b
        \<and> (\<forall>r \<in> S. applies addr timestamp r \<longrightarrow> ip_cidr_prefix_len (rt_cidr r) \<le> ip_cidr_prefix_len (rt_cidr b)))"

lemma best_route_spec:
  assumes "wf_routes rs" and "wf_addr addr" and "most_specific addr timestamp S best"
  shows "\<exists>b. best_route addr timestamp best rs = Some b \<and> most_specific addr timestamp (S \<union> set rs) b"
  using assms
proof (induction rs arbitrary: S best)
  case (Cons r rs)
  let ?best = "if applies addr timestamp r then case best of
                 None \<Rightarrow> Some r
               | Some b \<Rightarrow> if ip_cidr_prefix_len (rt_cidr b) \<le> ip_cidr_prefix_len (rt_cidr r) then Some r else best
             else best"
  have wf: "wf_cidr (rt_cidr r)" "wf_routes rs" using Cons.prems(1) by (simp_all add: wf_routes_def)
  have "most_specific addr timestamp (insert r S) ?best"
    using Cons.prems(3) by (auto simp: most_specific_def split: option.splits if_splits intro: order_trans)
  from Cons.IH [OF wf(2) Cons.prems(2) this] show ?case
    using route_matches_applies [OF wf(1) Cons.prems(2)] by simp
qed simp

lemma remove_route_spec:
  "remove_route cidr rs = (old, rs') \<Longrightarrow> length rs' \<le> length rs \<and> set rs' \<subseteq> set rs
     \<and> (old = None \<longrightarrow> rs' = rs) \<and> (\<forall>r. old = Some r \<longrightarrow> r \<in> set rs \<and> rt_cidr r = cidr)"
  by (induction rs arbitrary: rs') (auto split: if_splits prod.splits)

section \<open>Properties\<close>

text \<open>C33. Routing is longest prefix match: \<open>lookup\<close> never panics on a unicast address, answers with no router exactly
  when no route in force has the prefix of the address, and otherwise with the router of a route in force whose prefix
  is a prefix of the address and than which no other such route is more specific.\<close>

theorem routes_longest_prefix:
  assumes "wf_routes rs" and "wf_addr addr" and "addr_is_unicast addr"
  shows "case routes_lookup addr timestamp rs of
      None \<Rightarrow> False
    | Some None \<Rightarrow> \<forall>r \<in> set rs. \<not> applies addr timestamp r
    | Some (Some router) \<Rightarrow> \<exists>r \<in> set rs. rt_via_router r = router \<and> applies addr timestamp r
        \<and> (\<forall>r' \<in> set rs. applies addr timestamp r' \<longrightarrow>
              ip_cidr_prefix_len (rt_cidr r') \<le> ip_cidr_prefix_len (rt_cidr r))"
proof -
  obtain b where "best_route addr timestamp None rs = Some b" "most_specific addr timestamp (set rs) b"
    using best_route_spec [OF assms(1,2), of timestamp "{}" None] by (auto simp: most_specific_def)
  then show ?thesis using assms(3) by (auto simp: routes_lookup_def most_specific_def split: option.splits)
qed

definition sample_routes :: routes where
  "sample_routes =
     [\<lparr>rt_cidr = Cidr4 \<lparr>c_address = [10, 0, 0, 0], c_prefix_len = 8\<rparr>, rt_via_router = Ipv4 [10, 0, 0, 1],
       rt_preferred_until = None, rt_expires_at = Some 5\<rparr>, new_ipv4_gateway [192, 0, 2, 1]]"

theorem routes_longest_prefix_witness:
  "wf_routes sample_routes \<and> wf_addr (Ipv4 [10, 1, 2, 3]) \<and> addr_is_unicast (Ipv4 [10, 1, 2, 3])
   \<and> routes_lookup (Ipv4 [10, 1, 2, 3]) 0 sample_routes = Some (Some (Ipv4 [10, 0, 0, 1]))
   \<and> (\<exists>r \<in> set sample_routes. rt_via_router r = Ipv4 [10, 0, 0, 1] \<and> applies (Ipv4 [10, 1, 2, 3]) 0 r)"
proof -
  have rep: "replicate 4 x = [x, x, x, x]" for x :: u8 by (simp add: eval_nat_numeral)
  have wf: "wf_routes sample_routes" "wf_addr (Ipv4 [10, 1, 2, 3])" "addr_is_unicast (Ipv4 [10, 1, 2, 3])"
    by (simp_all add: wf_routes_def sample_routes_def new_ipv4_gateway_def IPV4_DEFAULT_def
        v4_is_unicast_def v4_is_broadcast_def v4_is_multicast_def v4_is_unspecified_def rep)
  have look: "routes_lookup (Ipv4 [10, 1, 2, 3]) 0 sample_routes = Some (Some (Ipv4 [10, 0, 0, 1]))"
    using wf(3) by (simp add: routes_lookup_def sample_routes_def new_ipv4_gateway_def IPV4_DEFAULT_def route_matches_def
        cidr4_contains_addr_def be_u32_def be_nat_def)
  from routes_longest_prefix [OF wf, of 0] look wf show ?thesis by auto
qed

end
