(* ===== verification/Fragmentation.thy ===== *)
theory Fragmentation
  imports Assembler Smol_Time
begin

text \<open>
  Reassembly of fragmented packets, \<open>PacketAssembler\<close> and \<open>PacketAssemblerSet\<close> of
  \<^verbatim>\<open>src/iface/fragmentation.rs\<close>, and what \<open>InterfaceInner::process_ipv4\<close> of
  \<^verbatim>\<open>src/iface/interface/ipv4.rs\<close> does with a fragment.

  The feature \<open>alloc\<close> decides whether a buffer grows when a fragment does not fit; it is the first parameter of the
  operations it concerns. The number of slots, the size of a static buffer and the number of ranges an assembler
  tracks are set when the crate is built; they are parameters of \<open>pas_new\<close>.

  The theorem is about arbitrary interleavings of the fragments of many packets, repeated, reordered, overlapping or
  lost, with expiry in between: whatever is handed to the upper layers under a key is the packet with that key.
\<close>

section \<open>One packet\<close>

datatype assembler_error = AssemblerError
datatype assembler_full_error = AssemblerFullError

record 'k packet_assembler =
  pa_key :: "'k option"
  pa_buffer :: "u8 list"
  pa_assembler :: assembler
  pa_total_size :: "nat option"
  pa_expires_at :: instant

definition pa_new :: "bool \<Rightarrow> nat \<Rightarrow> nat \<Rightarrow> 'k packet_assembler" where
  "pa_new alloc buffer_size max_segment_count =
     \<lparr>pa_key = None, pa_buffer = (if alloc then [] else replicate buffer_size 0),
      pa_assembler = asm_new max_segment_count, pa_total_size = None, pa_expires_at = 0\<rparr>"

definition pa_reset :: "'k packet_assembler \<Rightarrow> 'k packet_assembler" where
  "pa_reset pa = pa\<lparr>pa_key := None, pa_assembler := asm_clear (pa_assembler pa), pa_total_size := None, pa_expires_at := 0\<rparr>"

text \<open>A buffer that is too short for \<open>n\<close> octets: an error, or \<open>Vec::resize\<close>.\<close>

definition fit_buffer :: "bool \<Rightarrow> nat \<Rightarrow> u8 list \<Rightarrow> assembler_error + u8 list" where
  "fit_buffer alloc n buffer =
     (if length buffer < n then if alloc then Inr (buffer @ replicate (n - length buffer) 0) else Inl AssemblerError
      else Inr buffer)"

definition pa_set_total_size ::
  "bool \<Rightarrow> nat \<Rightarrow> 'k packet_assembler \<Rightarrow> (assembler_error + unit) \<times> 'k packet_assembler" where
  "pa_set_total_size alloc sz pa =
     (if (case pa_total_size pa of Some old_size \<Rightarrow> old_size \<noteq> sz | None \<Rightarrow> False) then (Inl AssemblerError, pa)
      else case fit_buffer alloc sz (pa_buffer pa) of
          Inl e \<Rightarrow> (Inl e, pa)
        | Inr buffer \<Rightarrow> (Inr (), pa\<lparr>pa_buffer := buffer, pa_total_size := Some sz\<rparr>))"

text \<open>\<open>f\<close> writes into the rest of the buffer and returns how many octets it wrote, with the buffer after it.\<close>

definition pa_add_with ::
  "nat \<Rightarrow> (u8 list \<Rightarrow> assembler_error + (nat \<times> u8 list)) \<Rightarrow> 'k packet_assembler \<Rightarrow>
   ((assembler_error + unit) \<times> 'k packet_assembler) option" where
  "pa_add_with offset f pa =
     (if length (pa_buffer pa) < offset then Some (Inl AssemblerError, pa)
      else case f (drop offset (pa_buffer pa)) of
          Inl e \<Rightarrow> Some (Inl e, pa)
        | Inr (len, rest) \<Rightarrow>
            do { let pa = pa\<lparr>pa_buffer := take offset (pa_buffer pa) @ rest\<rparr>;
                 rust_assert (offset + len \<le> length (pa_buffer pa));
                 (_, assembler) \<leftarrow> asm_add offset len (pa_assembler pa);
                 Some (Inr (), pa\<lparr>pa_assembler := assembler\<rparr>) })"

definition pa_add ::
  "bool \<Rightarrow> u8 list \<Rightarrow> nat \<Rightarrow> 'k packet_assembler \<Rightarrow> ((assembler_error + unit) \<times> 'k packet_assembler) option" where
  "pa_add alloc data offset pa =
     (case fit_buffer alloc (offset + length data) (pa_buffer pa) of
        Inl e \<Rightarrow> Some (Inl e, pa)
      | Inr buffer \<Rightarrow>
          do { let pa = pa\<lparr>pa_buffer := blit offset data buffer\<rparr>;
               (_, assembler) \<leftarrow> asm_add offset (length data) (pa_assembler pa);
               Some (Inr (), pa\<lparr>pa_assembler := assembler\<rparr>) })"

definition pa_is_complete :: "'k packet_assembler \<Rightarrow> bool" where
  "pa_is_complete pa \<longleftrightarrow> pa_total_size pa = Some (asm_peek_front (pa_assembler pa))"

definition pa_is_free :: "'k packet_assembler \<Rightarrow> bool" where
  "pa_is_free pa \<longleftrightarrow> pa_key pa = None"

definition pa_assemble :: "'k packet_assembler \<Rightarrow> (u8 list option \<times> 'k packet_assembler) option" where
  "pa_assemble pa =
     (if \<not> pa_is_complete pa then Some (None, pa)
      else do { total_size \<leftarrow> pa_total_size pa;
                let pa = pa_reset pa;
                data \<leftarrow> slice_range 0 total_size (pa_buffer pa);
                Some (Some data, pa) })"

section \<open>The set\<close>

definition pas_new :: "nat \<Rightarrow> bool \<Rightarrow> nat \<Rightarrow> nat \<Rightarrow> 'k packet_assembler list" where
  "pas_new buffer_count alloc buffer_size max_segment_count =
     replicate buffer_count (pa_new alloc buffer_size max_segment_count)"

text \<open>The loop of \<open>get\<close>: the first slot with the key, or else the last free one. \<open>Inl\<close> is the free slot.\<close>

fun pas_find :: "'k \<Rightarrow> nat \<Rightarrow> nat option \<Rightarrow> 'k packet_assembler list \<Rightarrow> nat option + nat" where
  "pas_find key i empty_slot [] = Inl empty_slot"
| "pas_find key i empty_slot (slot # slots) =
     (if pa_key slot = Some key then Inr i
      else pas_find key (i + 1) (if pa_is_free slot then Some i else empty_slot) slots)"

text \<open>The slot that \<open>get\<close> returns a reference to is given by its index.\<close>

definition pas_get ::
  "'k \<Rightarrow> instant \<Rightarrow> 'k packet_assembler list \<Rightarrow> (assembler_full_error + nat) \<times> 'k packet_assembler list" where
  "pas_get key expires_at assemblers =
     (case pas_find key 0 None assemblers of
        Inr i \<Rightarrow> (Inr i, assemblers)
      | Inl None \<Rightarrow> (Inl AssemblerFullError, assemblers)
      | Inl (Some i) \<Rightarrow>
          (Inr i, assemblers[i := (assemblers ! i)\<lparr>pa_key := Some key, pa_expires_at := expires_at\<rparr>]))"

definition pas_remove_expired :: "instant \<Rightarrow> 'k packet_assembler list \<Rightarrow> 'k packet_assembler list" where
  "pas_remove_expired timestamp assemblers =
     map (\<lambda>frag. if \<not> pa_is_free frag \<and> pa_expires_at frag < timestamp then pa_reset frag else frag) assemblers"

section \<open>A fragment that has arrived\<close>

text \<open>
  What \<open>process_ipv4\<close> does with a fragment of \<open>size\<close> octets (the total length without the header) at
  \<open>frag_offset\<close>. The result is the packet, once it is complete; every early return is \<open>None\<close>.
\<close>

definition pa_fragment ::
  "bool \<Rightarrow> bool \<Rightarrow> nat \<Rightarrow> nat \<Rightarrow> u8 list \<Rightarrow> 'k packet_assembler \<Rightarrow> (u8 list option \<times> 'k packet_assembler) option" where
  "pa_fragment alloc more_frags frag_offset size' payload f =
     (let (sized, f) = (if \<not> more_frags then pa_set_total_size alloc (size' + frag_offset) f else (Inr (), f))
      in case sized of
           Inl _ \<Rightarrow> Some (None, f)
         | Inr _ \<Rightarrow>
             do { (added, f) \<leftarrow> pa_add alloc payload frag_offset f;
                  case added of Inl _ \<Rightarrow> Some (None, f) | Inr _ \<Rightarrow> pa_assemble f })"

definition pas_fragment ::
  "bool \<Rightarrow> instant \<Rightarrow> 'k \<Rightarrow> bool \<Rightarrow> nat \<Rightarrow> nat \<Rightarrow> u8 list \<Rightarrow> 'k packet_assembler list \<Rightarrow>
   (u8 list option \<times> 'k packet_assembler list) option" where
  "pas_fragment alloc expires_at key more_frags frag_offset size' payload assemblers =
     (case pas_get key expires_at assemblers of
        (Inl _, assemblers) \<Rightarrow> Some (None, assemblers)
      | (Inr i, assemblers) \<Rightarrow>
          do { (res, f) \<leftarrow> pa_fragment alloc more_frags frag_offset size' payload (assemblers ! i);
               Some (res, assemblers[i := f]) })"

section \<open>What a slot holds\<close>

text \<open>
  \<open>pa_holds packet pa\<close>: a slot in use holds octets of the packet with its key, and knows the length of that packet or
  none; a free slot tracks nothing. \<open>packet\<close> gives every key its packet.
\<close>

definition pa_holds :: "('k \<Rightarrow> u8 list) \<Rightarrow> 'k packet_assembler \<Rightarrow> bool" where
  "pa_holds packet pa \<longleftrightarrow> asm_inv (pa_assembler pa) \<and> (case pa_key pa of
      None \<Rightarrow> asm_present (pa_assembler pa) = {} \<and> pa_total_size pa = None
    | Some k \<Rightarrow>
        (\<forall>i\<in>asm_present (pa_assembler pa). i < length (pa_buffer pa) \<and> i < length (packet k) \<and> pa_buffer pa ! i = packet k ! i)
        \<and> (case pa_total_size pa of None \<Rightarrow> True | Some t \<Rightarrow> t = length (packet k) \<and> t \<le> length (pa_buffer pa)))"

definition piece_of :: "u8 list \<Rightarrow> bool \<Rightarrow> nat \<Rightarrow> u8 list \<Rightarrow> bool" where
  "piece_of packet more_frags off data \<longleftrightarrow> off + length data \<le> length packet \<and> data = sub_slice off (length data) packet
     \<and> (\<not> more_frags \<longrightarrow> off + length data = length packet)"

lemma pa_new_holds: "0 < n \<Longrightarrow> pa_holds packet (pa_new alloc m n)"
  by (simp add: pa_holds_def pa_new_def)

lemma pa_reset_holds: "pa_holds packet pa \<Longrightarrow> pa_holds packet (pa_reset pa)"
  by (simp add: pa_holds_def pa_reset_def)

lemma pa_claim_holds:
  "pa_holds packet pa \<Longrightarrow> pa_is_free pa \<Longrightarrow> pa_holds packet (pa\<lparr>pa_key := Some k, pa_expires_at := t\<rparr>)"
  by (simp add: pa_holds_def pa_is_free_def)

lemma fit_buffer_cases:
  obtains (small) "fit_buffer alloc n buffer = Inl AssemblerError" "\<not> alloc" "length buffer < n"
  | (fits) buffer' where "fit_buffer alloc n buffer = Inr buffer'" "n \<le> length buffer'" "length buffer \<le> length buffer'"
      "\<And>i. i < length buffer \<Longrightarrow> buffer' ! i = buffer ! i"
proof (cases "length buffer < n \<and> \<not> alloc")
  case True
  then show thesis using small by (simp add: fit_buffer_def)
next
  case False
  then show thesis
    by (intro fits [of "buffer @ replicate (n - length buffer) 0"]) (auto simp: fit_buffer_def nth_append)
qed

lemma pa_set_total_size_holds:
  assumes h: "pa_holds packet pa" and k: "pa_key pa = Some k" and n: "n = length (packet k)"
  obtains r pa' where "pa_set_total_size alloc n pa = (r, pa')" "pa_holds packet pa'" "pa_key pa' = Some k"
    "pa_assembler pa' = pa_assembler pa" "r = Inr () \<Longrightarrow> pa_total_size pa' = Some (length (packet k))" "r = Inr () \<or> \<not> alloc"
proof -
  have old: "\<not> (case pa_total_size pa of Some old_size \<Rightarrow> old_size \<noteq> n | None \<Rightarrow> False)"
    using h k n by (auto simp: pa_holds_def split: option.splits)
  show thesis
  proof (rule fit_buffer_cases [of alloc n "pa_buffer pa"])
    assume "fit_buffer alloc n (pa_buffer pa) = Inl AssemblerError" "\<not> alloc"
    then show thesis using that [of "Inl AssemblerError" pa] old h k by (simp add: pa_set_total_size_def)
  next
    fix buffer' assume b: "fit_buffer alloc n (pa_buffer pa) = Inr buffer'" "n \<le> length buffer'"
      "length (pa_buffer pa) \<le> length buffer'" "\<And>i. i < length (pa_buffer pa) \<Longrightarrow> buffer' ! i = pa_buffer pa ! i"
    let ?pa = "pa\<lparr>pa_buffer := buffer', pa_total_size := Some n\<rparr>"
    have "pa_holds packet ?pa" using h k n b(2-4) by (fastforce simp: pa_holds_def)
    then show thesis using that [of "Inr ()" ?pa] old [unfolded n] b(1) k by (simp add: pa_set_total_size_def n)
  qed
qed

text \<open>Fragments that arrive in order always find room in the assembler.\<close>

lemma full_not_prefix:
  assumes inv: "asm_inv a" and full: "length (asm_used a) = length (contigs a)"
    and apart: "\<forall>x\<in>asm_present a. x + 1 < off \<or> off + n < x" and p: "asm_present a = {0..<off}"
  shows False
proof (cases off)
  case 0
  then have "asm_is_empty a" using asm_is_empty_iff [OF inv] p by simp
  moreover have "contigs a \<noteq> []" using inv by (simp add: asm_inv_def)
  then obtain c cs where "contigs a = c # cs" by (cases "contigs a") auto
  ultimately show False using full by (simp add: asm_is_empty_def asm_front_def asm_used_def)
next
  case (Suc m)
  then have "m \<in> asm_present a" using p by simp
  then show False using apart Suc by fastforce
qed

lemma pa_add_holds:
  assumes h: "pa_holds packet pa" and k: "pa_key pa = Some k" and p: "piece_of (packet k) m off data"
  obtains r pa' where "pa_add alloc data off pa = Some (r, pa')" "pa_holds packet pa'" "pa_key pa' = Some k"
    "pa_total_size pa' = pa_total_size pa" "r = Inr () \<or> \<not> alloc"
    "alloc \<Longrightarrow> asm_present (pa_assembler pa) = {0..<off} \<Longrightarrow> asm_present (pa_assembler pa') = {0..<off + length data}"
proof (rule fit_buffer_cases [of alloc "off + length data" "pa_buffer pa"])
  assume "fit_buffer alloc (off + length data) (pa_buffer pa) = Inl AssemblerError" "\<not> alloc"
  then show thesis using that [of "Inl AssemblerError" pa] h k by (simp add: pa_add_def)
next
  fix b assume b: "fit_buffer alloc (off + length data) (pa_buffer pa) = Inr b" "off + length data \<le> length b"
    "length (pa_buffer pa) \<le> length b" "\<And>i. i < length (pa_buffer pa) \<Longrightarrow> b ! i = pa_buffer pa ! i"
  have inv: "asm_inv (pa_assembler pa)" using h by (simp add: pa_holds_def)
  have new: "blit off data b ! i = packet k ! i" if "off \<le> i" "i < off + length data" for i
  proof -
    have d: "data = sub_slice off (length data) (packet k)" "off + length data \<le> length (packet k)"
      using p by (simp_all add: piece_of_def)
    have "data ! (i - off) = sub_slice off (length data) (packet k) ! (i - off)" by (rule arg_cong [OF d(1), of "\<lambda>xs. xs ! (i - off)"])
    also have "\<dots> = packet k ! i" using d(2) that by simp
    finally show ?thesis using that b(2) by (simp add: nth_blit)
  qed
  have old: "i < length (packet k) \<and> i < length b \<and> blit off data b ! i = packet k ! i" if "i \<in> asm_present (pa_assembler pa)" for i
  proof -
    have i: "i < length (pa_buffer pa)" "i < length (packet k)" "pa_buffer pa ! i = packet k ! i"
      using h k that by (auto simp: pa_holds_def)
    then show ?thesis using b(2-4) new [of i] nth_blit [of off data b i] by auto
  qed
  have keep: "pa_holds packet (pa\<lparr>pa_buffer := blit off data b, pa_assembler := a\<rparr>)"
    if "asm_inv a" "asm_present a \<subseteq> asm_present (pa_assembler pa) \<union> {off..<off + length data}" for a
  proof -
    have "i < length b \<and> i < length (packet k) \<and> blit off data b ! i = packet k ! i" if "i \<in> asm_present a" for i
    proof (cases "i \<in> asm_present (pa_assembler pa)")
      case True
      then show ?thesis using old by blast
    next
      case False
      then have "off \<le> i" "i < off + length data" using that \<open>asm_present a \<subseteq> _\<close> by auto
      then show ?thesis using new b(2) p by (auto simp: piece_of_def)
    qed
    then show ?thesis
      using that h k b(2,3) by (auto simp: pa_holds_def split: option.splits)
  qed
  show thesis
  proof (rule asm_add_cases [OF inv, of off "length data"])
    assume e: "asm_add off (length data) (pa_assembler pa) = Some (Inl TooManyHolesError, pa_assembler pa)" "0 < length data"
      "\<forall>x\<in>asm_present (pa_assembler pa). x + 1 < off \<or> off + length data < x"
      "length (asm_used (pa_assembler pa)) = length (contigs (pa_assembler pa))"
    show thesis
    proof (rule that [of "Inr ()" "pa\<lparr>pa_buffer := blit off data b, pa_assembler := pa_assembler pa\<rparr>"])
      show "pa_holds packet (pa\<lparr>pa_buffer := blit off data b, pa_assembler := pa_assembler pa\<rparr>)"
        by (rule keep) (use inv in auto)
      assume "asm_present (pa_assembler pa) = {0..<off}"
      then show "asm_present (pa_assembler (pa\<lparr>pa_buffer := blit off data b, pa_assembler := pa_assembler pa\<rparr>)) = {0..<off + length data}"
        using full_not_prefix [OF inv e(4,3)] by blast
    qed (use e(1) b(1) k in \<open>simp_all add: pa_add_def\<close>)
  next
    fix a' assume a: "asm_add off (length data) (pa_assembler pa) = Some (Inr (), a')" "asm_inv a'"
      "asm_present a' = asm_present (pa_assembler pa) \<union> {off ..< off + length data}"
    show thesis
    proof (rule that [of "Inr ()" "pa\<lparr>pa_buffer := blit off data b, pa_assembler := a'\<rparr>"])
      show "pa_holds packet (pa\<lparr>pa_buffer := blit off data b, pa_assembler := a'\<rparr>)"
        by (rule keep) (use a(2,3) in auto)
    qed (use a b(1) k in \<open>auto simp: pa_add_def\<close>)
  qed
qed

lemma pa_assemble_holds:
  assumes h: "pa_holds packet pa" and k: "pa_key pa = Some k"
  obtains (unfinished) "pa_assemble pa = Some (None, pa)" "\<not> pa_is_complete pa"
  | (finished) "pa_assemble pa = Some (Some (packet k), pa_reset pa)" "pa_is_complete pa"
proof (cases "pa_is_complete pa")
  case False
  then show thesis using unfinished by (simp add: pa_assemble_def)
next
  case True
  let ?n = "length (packet k)" and ?buf = "pa_buffer pa"
  have t: "pa_total_size pa = Some ?n" "?n \<le> length ?buf" "asm_peek_front (pa_assembler pa) = ?n"
    using h k True by (auto simp: pa_holds_def pa_is_complete_def)
  have inv: "asm_inv (pa_assembler pa)" using h by (simp add: pa_holds_def)
  have run: "front_run (asm_present (pa_assembler pa)) ?n"
    using asm_peek_front_spec [OF inv] t(3) by simp
  have "sub_slice 0 ?n ?buf = packet k"
  proof (rule nth_equalityI)
    fix i assume "i < length (sub_slice 0 ?n ?buf)"
    then have i: "i < ?n" by simp
    then have "i \<in> asm_present (pa_assembler pa)" using run by (auto simp: front_run_def)
    then show "sub_slice 0 ?n ?buf ! i = packet k ! i" using h k i t(2) by (auto simp: pa_holds_def)
  qed (use t(2) in simp)
  then have "pa_assemble pa = Some (Some (packet k), pa_reset pa)"
    using True t(1,2) by (simp add: pa_assemble_def pa_reset_def slice_range_def)
  then show thesis using finished True by blast
qed

lemma pa_fragment_holds:
  assumes h: "pa_holds packet pa" and k: "pa_key pa = Some k" and p: "piece_of (packet k) m off data"
  shows "\<exists>res pa'. pa_fragment alloc m off (length data) data pa = Some (res, pa') \<and> pa_holds packet pa'
    \<and> (res = None \<or> res = Some (packet k))"
proof -
  obtain r pa1 where r: "(if \<not> m then pa_set_total_size alloc (length data + off) pa else (Inr (), pa)) = (r, pa1)"
    "pa_holds packet pa1" "pa_key pa1 = Some k"
  proof (cases m)
    case True
    then show thesis using that h k by simp
  next
    case False
    then have "length data + off = length (packet k)" using p by (simp add: piece_of_def)
    then show thesis using that False pa_set_total_size_holds [OF h k, of "length data + off" alloc] by (metis (full_types))
  qed
  obtain r' pa2 where a: "pa_add alloc data off pa1 = Some (r', pa2)" "pa_holds packet pa2" "pa_key pa2 = Some k"
    using pa_add_holds [OF r(2,3) p, of alloc] .
  have "\<exists>res pa'. pa_assemble pa2 = Some (res, pa') \<and> pa_holds packet pa' \<and> (res = None \<or> res = Some (packet k))"
    by (rule pa_assemble_holds [OF a(2,3)]) (use a(2) pa_reset_holds in auto)
  then show ?thesis
    using r a by (cases r; cases r') (auto simp: pa_fragment_def)
qed

section \<open>What the set holds\<close>

lemma pas_find_result:
  assumes "pas_find key i empty_slot slots = r"
    and "\<And>j. empty_slot = Some j \<Longrightarrow> j < i"
  shows "(\<forall>j. r = Inr j \<longrightarrow> i \<le> j \<and> j < i + length slots \<and> pa_key (slots ! (j - i)) = Some key)
    \<and> (\<forall>j. r = Inl (Some j) \<longrightarrow> empty_slot = Some j \<or> (i \<le> j \<and> j < i + length slots \<and> pa_is_free (slots ! (j - i))))
    \<and> (r = Inl None \<longrightarrow> empty_slot = None \<and> (\<forall>pa\<in>set slots. \<not> pa_is_free pa))
    \<and> (\<forall>e. r = Inl e \<longrightarrow> (\<forall>pa\<in>set slots. pa_key pa \<noteq> Some key))"
  using assms
proof (induction key i empty_slot slots arbitrary: r rule: pas_find.induct)
  case (2 key i empty_slot slot slots)
  show ?case
  proof (cases "pa_key slot = Some key")
    case True
    then show ?thesis using "2.prems" by auto
  next
    case False
    let ?e = "if pa_is_free slot then Some i else empty_slot"
    have find: "pas_find key (i + 1) ?e slots = r" using "2.prems"(1) False by simp
    have bound: "j < i + 1" if "?e = Some j" for j
      using that "2.prems"(2) by (auto split: if_splits intro: less_SucI)
    show ?thesis
      using "2.IH" [OF False find bound] False by (auto simp: nth_Cons' split: if_splits)
  qed
qed auto

lemma pas_get_cases:
  obtains (full) "pas_get key t slots = (Inl AssemblerFullError, slots)" "\<forall>pa\<in>set slots. \<not> pa_is_free pa"
      "\<forall>pa\<in>set slots. pa_key pa \<noteq> Some key"
  | (found) i where "pas_get key t slots = (Inr i, slots)" "i < length slots" "pa_key (slots ! i) = Some key"
  | (claimed) i where "pas_get key t slots = (Inr i, slots[i := (slots ! i)\<lparr>pa_key := Some key, pa_expires_at := t\<rparr>])"
      "i < length slots" "pa_is_free (slots ! i)" "\<forall>pa\<in>set slots. pa_key pa \<noteq> Some key"
proof -
  note r = pas_find_result [OF refl, of None 0 key slots]
  show thesis
  proof (cases "pas_find key 0 None slots")
    case (Inl e)
    then show thesis using r full claimed by (cases e) (auto simp: pas_get_def)
  next
    case (Inr i)
    then show thesis using r found by (auto simp: pas_get_def)
  qed
qed

definition pas_holds :: "('k \<Rightarrow> u8 list) \<Rightarrow> 'k packet_assembler list \<Rightarrow> bool" where
  "pas_holds packet slots \<longleftrightarrow> (\<forall>pa\<in>set slots. pa_holds packet pa)"

lemma pas_holds_update: "pas_holds packet slots \<Longrightarrow> pa_holds packet pa \<Longrightarrow> pas_holds packet (slots[i := pa])"
  using set_update_subset_insert [of slots i pa] by (auto simp: pas_holds_def)

lemma pas_new_holds: "0 < n \<Longrightarrow> pas_holds packet (pas_new c alloc m n)"
  by (simp add: pas_holds_def pas_new_def pa_new_holds)

lemma pas_fragment_holds:
  assumes h: "pas_holds packet slots" and p: "piece_of (packet k) m off data"
  shows "\<exists>res slots'. pas_fragment alloc t k m off (length data) data slots = Some (res, slots') \<and> pas_holds packet slots'
    \<and> (res = None \<or> res = Some (packet k))"
proof -
  have step: ?thesis
    if g: "pas_get k t slots = (Inr i, slots1)" "i < length slots1" "pa_key (slots1 ! i) = Some k" "pas_holds packet slots1"
    for i slots1
  proof -
    have "pa_holds packet (slots1 ! i)" using g(2,4) by (simp add: pas_holds_def)
    then obtain res pa' where "pa_fragment alloc m off (length data) data (slots1 ! i) = Some (res, pa')"
      "pa_holds packet pa'" "res = None \<or> res = Some (packet k)"
      using pa_fragment_holds [of packet, OF _ g(3) p] by blast
    then show ?thesis
      using pas_holds_update [OF g(4), of pa' i] g(1) by (simp add: pas_fragment_def)
  qed
  show ?thesis
  proof (rule pas_get_cases [of k t slots])
    assume "pas_get k t slots = (Inl AssemblerFullError, slots)"
    then show ?thesis using h by (simp add: pas_fragment_def)
  next
    fix i assume "pas_get k t slots = (Inr i, slots)" "i < length slots" "pa_key (slots ! i) = Some k"
    then show ?thesis using h by (rule step)
  next
    fix i assume c: "pas_get k t slots = (Inr i, slots[i := (slots ! i)\<lparr>pa_key := Some k, pa_expires_at := t\<rparr>])"
      "i < length slots" "pa_is_free (slots ! i)"
    have "pa_holds packet (slots ! i)" using h c(2) by (simp add: pas_holds_def)
    from pa_claim_holds [OF this c(3)] show ?thesis
      using c by (intro step [OF c(1)]) (simp_all add: pas_holds_update [OF h])
  qed
qed

section \<open>Fragments in order\<close>

text \<open>
  \<open>rx_at packet k n i slots\<close>: slot \<open>i\<close>, and no other, is in use for the packet with key \<open>k\<close>, of which the first \<open>n\<close>
  octets have arrived and the last fragment has not.
\<close>

definition rx_at :: "('k \<Rightarrow> u8 list) \<Rightarrow> 'k \<Rightarrow> nat \<Rightarrow> nat \<Rightarrow> 'k packet_assembler list \<Rightarrow> bool" where
  "rx_at packet k n i slots \<longleftrightarrow> i < length slots \<and> pa_key (slots ! i) = Some k \<and> pa_holds packet (slots ! i)
     \<and> asm_present (pa_assembler (slots ! i)) = {0..<n} \<and> pa_total_size (slots ! i) = None
     \<and> (\<forall>j<length slots. pa_key (slots ! j) = Some k \<longrightarrow> j = i)"

lemma rx_at_get:
  assumes "rx_at packet k n i slots"
  shows "pas_get k t slots = (Inr i, slots)"
  by (rule pas_get_cases [of k t slots]) (use assms nth_mem in \<open>fastforce simp: rx_at_def\<close>)+

lemma front_run_prefix: "front_run {0..<n} m \<Longrightarrow> m = n"
  by (auto simp: front_run_def)

lemma rx_step:
  assumes rx: "rx_at packet k n i slots" and p: "piece_of (packet k) m n data"
  obtains slots' where
    "pas_fragment True t k m n (length data) data slots = Some (if m then None else Some (packet k), slots')"
    "m \<longrightarrow> rx_at packet k (n + length data) i slots'"
proof -
  have i: "i < length slots" "pa_key (slots ! i) = Some k" "pa_holds packet (slots ! i)"
    "asm_present (pa_assembler (slots ! i)) = {0..<n}" "pa_total_size (slots ! i) = None"
    "\<And>j. j < length slots \<Longrightarrow> pa_key (slots ! j) = Some k \<Longrightarrow> j = i"
    using rx by (auto simp: rx_at_def)
  show thesis
  proof (cases m)
    case True
    obtain pa where pa: "pa_add True data n (slots ! i) = Some (Inr (), pa)" "pa_holds packet pa" "pa_key pa = Some k"
      "pa_total_size pa = None" "asm_present (pa_assembler pa) = {0..<n + length data}"
      by (rule pa_add_holds [where packet = packet and alloc = True, OF i(3,2) p]) (use i(4,5) in auto)
    have "pa_assemble pa = Some (None, pa)" using pa(4) by (simp add: pa_assemble_def pa_is_complete_def)
    then have "pas_fragment True t k m n (length data) data slots = Some (None, slots[i := pa])"
      using rx_at_get [OF rx] pa(1) True by (simp add: pas_fragment_def pa_fragment_def)
    moreover have "rx_at packet k (n + length data) i (slots[i := pa])"
      using i(1,6) pa by (auto simp: rx_at_def nth_list_update)
    ultimately show thesis using that True by simp
  next
    case False
    then have L: "length data + n = length (packet k)" using p by (simp add: piece_of_def)
    obtain pa1 where pa1: "pa_set_total_size True (length data + n) (slots ! i) = (Inr (), pa1)" "pa_holds packet pa1"
      "pa_key pa1 = Some k" "pa_assembler pa1 = pa_assembler (slots ! i)" "pa_total_size pa1 = Some (length (packet k))"
      using pa_set_total_size_holds [OF i(3,2) L, of True] by metis
    obtain pa where pa: "pa_add True data n pa1 = Some (Inr (), pa)" "pa_holds packet pa" "pa_key pa = Some k"
      "pa_total_size pa = Some (length (packet k))" "asm_present (pa_assembler pa) = {0..<length (packet k)}"
      by (rule pa_add_holds [where packet = packet and alloc = True, OF pa1(2,3) p]) (use i(4) pa1(4,5) L in \<open>auto simp: add.commute\<close>)
    have "asm_inv (pa_assembler pa)" using pa(2) by (simp add: pa_holds_def)
    from asm_peek_front_spec [OF this] have "asm_peek_front (pa_assembler pa) = length (packet k)"
      unfolding pa(5) by (rule front_run_prefix)
    then have "pa_is_complete pa" using pa(4) by (simp add: pa_is_complete_def)
    then have "pa_assemble pa = Some (Some (packet k), pa_reset pa)"
      using pa_assemble_holds [OF pa(2,3)] by blast
    then have "pas_fragment True t k m n (length data) data slots = Some (Some (packet k), slots[i := pa_reset pa])"
      using rx_at_get [OF rx] pa1(1) pa(1) False by (simp add: pas_fragment_def pa_fragment_def)
    then show thesis using that False by simp
  qed
qed

lemma rx_first:
  assumes fresh: "\<forall>pa\<in>set slots. pa_is_free pa \<and> pa_holds packet pa" and ne: "slots \<noteq> []"
  obtains i slots' where "rx_at packet k 0 i slots'"
    "\<forall>m off n data. pas_fragment alloc t k m off n data slots = pas_fragment alloc t k m off n data slots'"
proof (rule pas_get_cases [of k t slots])
  assume "\<forall>pa\<in>set slots. \<not> pa_is_free pa"
  then show thesis using fresh ne by (cases slots) auto
next
  fix i assume "i < length slots" "pa_key (slots ! i) = Some k"
  then show thesis using fresh nth_mem by (fastforce simp: pa_is_free_def)
next
  fix i let ?s = "slots[i := (slots ! i)\<lparr>pa_key := Some k, pa_expires_at := t\<rparr>]"
  assume i: "pas_get k t slots = (Inr i, ?s)" "i < length slots" "pa_is_free (slots ! i)"
  have h: "pa_holds packet (slots ! i)" "\<And>j. j < length slots \<Longrightarrow> pa_key (slots ! j) = None"
    using fresh i(2) nth_mem by (auto simp: pa_is_free_def)
  have "rx_at packet k 0 i ?s"
    using i(2,3) h pa_claim_holds [OF h(1) i(3), where k = k and t = t]
    by (auto simp: rx_at_def nth_list_update pa_holds_def pa_is_free_def)
  moreover from rx_at_get [OF this] have "pas_get k t ?s = (Inr i, ?s)" .
  ultimately show thesis using that [of i ?s] i(1) by (simp add: pas_fragment_def)
qed

text \<open>A history of fragments, each with its key, and of expiry; the result lists what is handed upwards, and under which key.\<close>

datatype 'k frag_event = Fragment instant 'k bool nat "u8 list" | Expire instant

fun frag_run :: "bool \<Rightarrow> 'k frag_event list \<Rightarrow> 'k packet_assembler list \<Rightarrow>
    (('k \<times> u8 list) list \<times> 'k packet_assembler list) option" where
  "frag_run alloc [] slots = Some ([], slots)"
| "frag_run alloc (Expire t # evs) slots = frag_run alloc evs (pas_remove_expired t slots)"
| "frag_run alloc (Fragment t k m off data # evs) slots =
     do { (res, slots) \<leftarrow> pas_fragment alloc t k m off (length data) data slots;
          (out, slots) \<leftarrow> frag_run alloc evs slots;
          Some (case res of None \<Rightarrow> out | Some packet \<Rightarrow> (k, packet) # out, slots) }"

fun event_of :: "('k \<Rightarrow> u8 list) \<Rightarrow> 'k frag_event \<Rightarrow> bool" where
  "event_of packet (Fragment t k m off data) = piece_of (packet k) m off data"
| "event_of packet (Expire t) = True"

lemma frag_run_holds:
  assumes "pas_holds packet slots" and "\<forall>ev\<in>set evs. event_of packet ev"
  shows "\<exists>out slots'. frag_run alloc evs slots = Some (out, slots') \<and> pas_holds packet slots'
    \<and> (\<forall>k p. (k, p) \<in> set out \<longrightarrow> p = packet k)"
  using assms
proof (induction evs arbitrary: slots)
  case (Cons ev evs)
  show ?case
  proof (cases ev)
    case (Expire t)
    have "pas_holds packet (pas_remove_expired t slots)"
      using Cons.prems(1) by (auto simp: pas_holds_def pas_remove_expired_def pa_reset_holds)
    from Cons.IH [OF this] Cons.prems(2) show ?thesis by (simp add: Expire)
  next
    case (Fragment t k m off data)
    have p: "piece_of (packet k) m off data" using Cons.prems(2) by (simp add: Fragment)
    obtain res slots1 where f: "pas_fragment alloc t k m off (length data) data slots = Some (res, slots1)"
      "pas_holds packet slots1" "res = None \<or> res = Some (packet k)"
      using pas_fragment_holds [OF Cons.prems(1) p] by blast
    from Cons.IH [OF f(2)] Cons.prems(2) obtain out slots2 where
      "frag_run alloc evs slots1 = Some (out, slots2)" "pas_holds packet slots2" "\<forall>k p. (k, p) \<in> set out \<longrightarrow> p = packet k"
      by auto
    then show ?thesis using f by (auto simp: Fragment)
  qed
qed simp

text \<open>C36. Fragments of different packets never mix: in every history of fragments (of any number of packets, interleaved,
  repeated, reordered, overlapping or lost, with expired packets removed in between) no step panics, and whatever is handed to the
  upper layers under a key is the packet with that key, complete and octet for octet.\<close>

theorem fragments_never_mix:
  assumes "0 < max_segment_count" and "\<forall>ev\<in>set evs. event_of packet ev"
  shows "\<exists>out slots. frag_run alloc evs (pas_new buffer_count alloc buffer_size max_segment_count) = Some (out, slots)
    \<and> (\<forall>k p. (k, p) \<in> set out \<longrightarrow> p = packet k)"
  using frag_run_holds [of packet, OF pas_new_holds [OF assms(1)] assms(2)] by blast

theorem fragments_never_mix_witness:
  "\<exists>out slots. frag_run True [Fragment 9 0 True 2 [3, 4], Fragment 9 1 True 0 [7], Fragment 9 0 True 0 [1, 2, 3],
        Expire 5, Fragment 9 1 False 1 [8], Fragment 9 0 False 4 [5]] (pas_new 2 True 0 4) = Some (out, slots)
    \<and> (\<forall>k p. (k, p) \<in> set out \<longrightarrow> p = (if k = (0::nat) then [1, 2, 3, 4, 5] else [7, 8]))"
  by (rule fragments_never_mix [where packet = "\<lambda>k. if k = 0 then [1, 2, 3, 4, 5] else [7, 8]"])
    (simp_all add: piece_of_def sub_slice_def)

end
