(* ===== verification/Ipv4_Fragments.thy ===== *)
theory Ipv4_Fragments
  imports Fragmentation Ipv4_Wire Udp_Wire Tcp_Wire Link_Wire Ip_Cidr
begin

text \<open>
  IPv4 packets that are larger than the MTU: how \<open>InterfaceInner::dispatch_ip\<close> of
  \<^verbatim>\<open>src/iface/interface/mod.rs\<close> sends the first fragment, how \<open>ipv4_egress\<close> and \<open>dispatch_ipv4_frag\<close> of
  \<^verbatim>\<open>src/iface/interface/ipv4.rs\<close> send the others, and what \<open>process_ipv4\<close> does with a packet up to its payload.

  Of \<open>dispatch_ip\<close> the branch for IPv4 packets is modelled, on the media Ethernet and IP; the
  hardware address that the neighbor cache has found is an argument. A device is what \<open>TxToken::consume\<close> gives the
  closure, a buffer of the length that is asked for: \<open>tx_buffer\<close>. A frame that is sent is the buffer after
  the closure.
\<close>

unbundle bit_operations_syntax

section \<open>The device\<close>

datatype medium = Medium_Ethernet | Medium_Ip | Medium_Ieee802154

record device_caps =
  dc_medium :: medium
  dc_max_transmission_unit :: nat
  dc_max_burst_size :: "nat option"
  dc_checksum :: checksum_caps

definition ip_mtu :: "device_caps \<Rightarrow> nat option" where
  "ip_mtu caps = (case dc_medium caps of
      Medium_Ethernet \<Rightarrow> checked_sub (dc_max_transmission_unit caps) ETH_HEADER_LEN
    | Medium_Ip \<Rightarrow> Some (dc_max_transmission_unit caps)
    | Medium_Ieee802154 \<Rightarrow> Some (dc_max_transmission_unit caps))"

section \<open>Packets\<close>

text \<open>The payloads of \<open>IpPayload\<close> whose format is modelled.\<close>

datatype ip_payload = Payload_Raw "u8 list" | Payload_Udp udp_repr "u8 list" | Payload_Tcp tcp_repr

definition clamp_window :: "device_caps \<Rightarrow> ip_repr \<Rightarrow> tcp_repr \<Rightarrow> tcp_repr option" where
  "clamp_window caps ip tcp = (case dc_max_burst_size caps of
      None \<Rightarrow> Some tcp
    | Some max_burst_size \<Rightarrow>
        do { max_segment_size \<leftarrow> checked_sub (dc_max_transmission_unit caps) (ip_header_len ip);
             max_segment_size \<leftarrow> checked_sub max_segment_size (repr_header_len tcp);
             let max_window_size = max_burst_size * max_segment_size;
             Some (if unat (r_window_len tcp) > max_window_size
                   then tcp\<lparr>r_window_len := of_nat max_window_size\<rparr> else tcp) })"

text \<open>
  \<open>payload.copy_from_slice\<close> panics when the lengths differ. The closure of the UDP arm copies into the slice that
  the length field delimits, which is 16 bits wide.
\<close>

definition emit_payload :: "ip_payload \<Rightarrow> ip_repr \<Rightarrow> device_caps \<Rightarrow> u8 list \<Rightarrow> u8 list option" where
  "emit_payload packet ip caps payload = (case packet of
      Payload_Raw raw_packet \<Rightarrow> if length raw_packet = length payload then Some raw_packet else None
    | Payload_Udp udp inner_payload \<Rightarrow>
        do { rust_assert (UDP_HEADER_LEN + length inner_payload < 65536);
             udp_emit udp (ip_src_addr ip) (ip_dst_addr ip) (length inner_payload) (\<lambda>_. inner_payload)
               (dc_checksum caps) payload }
    | Payload_Tcp tcp \<Rightarrow>
        do { tcp \<leftarrow> clamp_window caps ip tcp;
             tcp_emit tcp (ip_src_addr ip) (ip_dst_addr ip) (dc_checksum caps) payload })"

definition emit_ethernet :: "eth_address \<Rightarrow> eth_address \<Rightarrow> u8 list \<Rightarrow> u8 list option" where
  "emit_ethernet src_addr dst_addr frame =
     do { frame \<leftarrow> ethf_set_src_addr src_addr frame;
          frame \<leftarrow> ethf_set_dst_addr dst_addr frame;
          ethf_set_ethertype Ether_Ipv4 frame }"

text \<open>The frame around what \<open>body\<close> writes behind the Ethernet header, or on another medium around nothing.\<close>

definition with_ethernet ::
  "device_caps \<Rightarrow> eth_address \<Rightarrow> eth_address \<Rightarrow> (u8 list \<Rightarrow> u8 list option) \<Rightarrow> u8 list \<Rightarrow> u8 list option" where
  "with_ethernet caps src_addr dst_addr body tx_buffer =
     (if dc_medium caps = Medium_Ethernet
      then do { frame \<leftarrow> emit_ethernet src_addr dst_addr tx_buffer;
                rest \<leftarrow> slice_range ETH_HEADER_LEN (length frame) frame;
                rest \<leftarrow> body rest;
                Some (take ETH_HEADER_LEN frame @ rest) }
      else body tx_buffer)"

definition emit_ip :: "device_caps \<Rightarrow> ip_payload \<Rightarrow> ipv4_repr \<Rightarrow> u8 list \<Rightarrow> u8 list option" where
  "emit_ip caps packet repr tx_buffer =
     do { tx_buffer \<leftarrow> ipv4_emit repr (dc_checksum caps) tx_buffer;
          payload \<leftarrow> slice_range (ipv4_buffer_len repr) (length tx_buffer) tx_buffer;
          payload \<leftarrow> emit_payload packet (Ipv4_Repr repr) caps payload;
          Some (take (ipv4_buffer_len repr) tx_buffer @ payload) }"

section \<open>Fragmentation\<close>

record ipv4_fragmenter =
  f4_repr :: ipv4_repr
  f4_dst_hardware_addr :: eth_address
  f4_frag_offset :: u16
  f4_ident :: u16

record fragmenter =
  fr_buffer :: "u8 list"
  fr_packet_len :: nat
  fr_sent_bytes :: nat
  fr_ipv4 :: ipv4_fragmenter

definition no_ipv4_repr :: ipv4_repr where
  "no_ipv4_repr = \<lparr>v4_src_addr = [0, 0, 0, 0], v4_dst_addr = [0, 0, 0, 0], v4_next_header = Unknown_protocol 0,
     v4_payload_len = 0, v4_hop_limit = 0\<rparr>"

definition fragmenter_new :: "nat \<Rightarrow> fragmenter" where
  "fragmenter_new fragmentation_buffer_size =
     \<lparr>fr_buffer = replicate fragmentation_buffer_size 0, fr_packet_len = 0, fr_sent_bytes = 0,
      fr_ipv4 = \<lparr>f4_repr = no_ipv4_repr, f4_dst_hardware_addr = replicate 6 0, f4_frag_offset = 0, f4_ident = 0\<rparr>\<rparr>"

definition fragmenter_finished :: "fragmenter \<Rightarrow> bool" where
  "fragmenter_finished frag \<longleftrightarrow> fr_packet_len frag = fr_sent_bytes frag"

definition fragmenter_is_empty :: "fragmenter \<Rightarrow> bool" where
  "fragmenter_is_empty frag \<longleftrightarrow> fr_packet_len frag = 0"

definition fragmenter_reset :: "fragmenter \<Rightarrow> fragmenter" where
  "fragmenter_reset frag = frag\<lparr>fr_packet_len := 0, fr_sent_bytes := 0,
     fr_ipv4 := (fr_ipv4 frag)\<lparr>f4_repr := no_ipv4_repr, f4_dst_hardware_addr := replicate 6 0\<rparr>\<rparr>"

definition next_ipv4_frag_ident :: "u16 \<Rightarrow> u16 \<times> u16" where
  "next_ipv4_frag_ident ipv4_id = (ipv4_id, ipv4_id + 1)"

text \<open>The header fields of a fragment, over a header that has been emitted.\<close>

definition set_fragment ::
  "u16 \<Rightarrow> bool \<Rightarrow> u16 \<Rightarrow> checksum_caps \<Rightarrow> u8 list \<Rightarrow> u8 list option" where
  "set_fragment ident more_frags frag_offset caps packet =
     do { packet \<leftarrow> ipv4p_set_ident ident packet;
          packet \<leftarrow> ipv4p_set_more_frags more_frags packet;
          packet \<leftarrow> ipv4p_set_dont_frag False packet;
          packet \<leftarrow> ipv4p_set_frag_offset frag_offset packet;
          if checksum_tx (caps_ipv4 caps) then ipv4p_fill_checksum packet else Some packet }"

text \<open>
  The IPv4 branch of \<open>dispatch_ip\<close>: the frame that is sent, if any, the fragmenter, and the next identifier. \<open>packet_len\<close>
  and \<open>sent_bytes\<close> count the first header, \<open>frag_offset\<close> does not.
\<close>

definition dispatch_first_fragment ::
  "device_caps \<Rightarrow> eth_address \<Rightarrow> eth_address \<Rightarrow> (nat \<Rightarrow> u8 list) \<Rightarrow> u16 \<Rightarrow> ipv4_repr \<Rightarrow> ip_payload \<Rightarrow>
   fragmenter \<Rightarrow> (u8 list option \<times> fragmenter) option" where
  "dispatch_first_fragment caps src_hw dst_hw tx_buffer ident repr packet frag =
     do { let total_ip_len = ip_buffer_len (Ipv4_Repr repr);
          let tx_len = dc_max_transmission_unit caps;
          let ip_header_len = ipv4_buffer_len repr;
          first_frag_ip_len \<leftarrow> ip_mtu caps;
          if length (fr_buffer frag) < total_ip_len then Some (None, frag)
          else do {
            let frag = frag\<lparr>fr_packet_len := total_ip_len, fr_sent_bytes := first_frag_ip_len,
                  fr_ipv4 := (fr_ipv4 frag)\<lparr>f4_dst_hardware_addr := dst_hw, f4_repr := repr\<rparr>\<rparr>;
            payload_len \<leftarrow> checked_sub first_frag_ip_len ip_header_len;
            buffer \<leftarrow> emit_ip caps packet (repr\<lparr>v4_payload_len := payload_len\<rparr>) (fr_buffer frag);
            buffer \<leftarrow> set_fragment ident True 0 (dc_checksum caps) buffer;
            let frag = frag\<lparr>fr_buffer := buffer,
                  fr_ipv4 := (fr_ipv4 frag)\<lparr>f4_ident := ident, f4_frag_offset := of_nat payload_len\<rparr>\<rparr>;
            frame \<leftarrow> with_ethernet caps src_hw dst_hw (\<lambda>tx_buffer.
              do { first \<leftarrow> slice_range 0 first_frag_ip_len buffer; put_slice 0 first tx_buffer }) (tx_buffer tx_len);
            Some (Some frame, frag) } }"

definition dispatch_ipv4 ::
  "device_caps \<Rightarrow> eth_address \<Rightarrow> eth_address \<Rightarrow> (nat \<Rightarrow> u8 list) \<Rightarrow> ipv4_repr \<Rightarrow> ip_payload \<Rightarrow>
   u16 \<Rightarrow> fragmenter \<Rightarrow> (u8 list option \<times> u16 \<times> fragmenter) option" where
  "dispatch_ipv4 caps src_hw dst_hw tx_buffer repr packet ipv4_id frag =
     do { rust_assert (\<not> v4_is_unspecified (v4_dst_addr repr));
          let (ident, ipv4_id) = next_ipv4_frag_ident ipv4_id;
          let total_ip_len = ip_buffer_len (Ipv4_Repr repr);
          let total_len = (if dc_medium caps = Medium_Ethernet then ethf_buffer_len total_ip_len else total_ip_len);
          if total_ip_len > dc_max_transmission_unit caps
          then do { (frame, frag) \<leftarrow> dispatch_first_fragment caps src_hw dst_hw tx_buffer ident repr packet frag;
                    Some (frame, ipv4_id, frag) }
          else do { frame \<leftarrow> with_ethernet caps src_hw dst_hw (emit_ip caps packet repr) (tx_buffer total_len);
                    Some (Some frame, ipv4_id, frag) } }"

text \<open>\<open>frag_offset += payload_len as u16\<close> panics when it overflows.\<close>

definition dispatch_ipv4_frag ::
  "device_caps \<Rightarrow> eth_address \<Rightarrow> (nat \<Rightarrow> u8 list) \<Rightarrow> fragmenter \<Rightarrow> (u8 list \<times> fragmenter) option" where
  "dispatch_ipv4_frag caps src_hw tx_buffer frag =
     do { let f4 = fr_ipv4 frag;
          let header_len = ipv4_buffer_len (f4_repr f4);
          mtu_max \<leftarrow> ip_mtu caps;
          unsent \<leftarrow> checked_sub (fr_packet_len frag) (fr_sent_bytes frag);
          let ip_len = min (unsent + header_len) mtu_max;
          payload_len \<leftarrow> checked_sub ip_len header_len;
          let more_frags = (unsent \<noteq> payload_len);
          let repr = (f4_repr f4)\<lparr>v4_payload_len := payload_len\<rparr>;
          let tx_len = (if dc_medium caps = Medium_Ethernet then ip_len + ETH_HEADER_LEN else ip_len);
          frame \<leftarrow> with_ethernet caps src_hw (f4_dst_hardware_addr f4) (\<lambda>tx_buffer.
            do { packet \<leftarrow> slice_range 0 header_len tx_buffer;
                 packet \<leftarrow> ipv4_emit repr (dc_checksum caps) packet;
                 packet \<leftarrow> set_fragment (f4_ident f4) more_frags (f4_frag_offset f4) (dc_checksum caps) packet;
                 payload \<leftarrow> slice_range (unat (f4_frag_offset f4) + header_len)
                   (unat (f4_frag_offset f4) + header_len + payload_len) (fr_buffer frag);
                 put_slice header_len payload (packet @ drop header_len tx_buffer) }) (tx_buffer tx_len);
          rust_assert (unat (f4_frag_offset f4) + payload_len mod 65536 < 65536);
          Some (frame, frag\<lparr>fr_sent_bytes := fr_sent_bytes frag + payload_len,
            fr_ipv4 := f4\<lparr>f4_repr := repr, f4_frag_offset := f4_frag_offset f4 + of_nat payload_len\<rparr>\<rparr>) }"

text \<open>\<open>ready\<close>: the device has a token to transmit with.\<close>

definition ipv4_egress ::
  "bool \<Rightarrow> device_caps \<Rightarrow> eth_address \<Rightarrow> (nat \<Rightarrow> u8 list) \<Rightarrow> fragmenter \<Rightarrow> (u8 list option \<times> fragmenter) option" where
  "ipv4_egress ready caps src_hw tx_buffer frag =
     (let frag = (if fragmenter_finished frag then fragmenter_reset frag else frag)
      in if fragmenter_is_empty frag then Some (None, frag)
         else if fr_packet_len frag > fr_sent_bytes frag \<and> ready
         then do { (frame, frag) \<leftarrow> dispatch_ipv4_frag caps src_hw tx_buffer frag; Some (Some frame, frag) }
         else Some (None, frag))"

section \<open>Reception\<close>

definition is_broadcast_v4 :: "ip_cidr list \<Rightarrow> u8 list \<Rightarrow> bool" where
  "is_broadcast_v4 ip_addrs address \<longleftrightarrow> v4_is_broadcast address
     \<or> address \<in> set (List.map_filter (\<lambda>own_cidr. case own_cidr of Cidr4 own_ip \<Rightarrow> cidr_broadcast own_ip | Cidr6 _ \<Rightarrow> None) ip_addrs)"

definition is_unicast_v4 :: "ip_cidr list \<Rightarrow> u8 list \<Rightarrow> bool" where
  "is_unicast_v4 ip_addrs address \<longleftrightarrow> v4_is_unicast address \<and> \<not> is_broadcast_v4 ip_addrs address"

text \<open>
  \<open>process_ipv4\<close> up to \<open>ip_payload\<close>: the header and the payload that the protocols see, or nothing when the packet is
  dropped or is a fragment of a packet that is not complete yet.
\<close>

definition ipv4_reassemble ::
  "bool \<Rightarrow> instant \<Rightarrow> u8 list \<Rightarrow> ipv4_key packet_assembler list \<Rightarrow> (u8 list option \<times> ipv4_key packet_assembler list) option" where
  "ipv4_reassemble alloc expires_at packet slots =
     do { more_frags \<leftarrow> ipv4p_more_frags packet;
          frag_offset \<leftarrow> ipv4p_frag_offset packet;
          if more_frags \<or> frag_offset \<noteq> 0
          then do { key \<leftarrow> ipv4p_get_key packet;
                    total_len \<leftarrow> ipv4p_total_len packet;
                    header_len \<leftarrow> ipv4p_header_len packet;
                    size' \<leftarrow> checked_sub (unat total_len) (unat header_len);
                    payload \<leftarrow> ipv4p_payload packet;
                    pas_fragment alloc expires_at key more_frags (unat frag_offset) size' payload slots }
          else do { payload \<leftarrow> ipv4p_payload packet; Some (Some payload, slots) } }"

definition ipv4_ingress ::
  "bool \<Rightarrow> ip_cidr list \<Rightarrow> checksum_caps \<Rightarrow> instant \<Rightarrow> duration \<Rightarrow> u8 list \<Rightarrow> ipv4_key packet_assembler list \<Rightarrow>
   ((ipv4_repr \<times> u8 list) option \<times> ipv4_key packet_assembler list) option" where
  "ipv4_ingress alloc ip_addrs caps now reassembly_timeout packet slots =
     do { parsed \<leftarrow> ipv4_parse packet caps;
          case parsed of
            Inl _ \<Rightarrow> Some (None, slots)
          | Inr repr \<Rightarrow>
              if \<not> is_unicast_v4 ip_addrs (v4_src_addr repr) \<and> \<not> v4_is_unspecified (v4_src_addr repr) then Some (None, slots)
              else do { (res, slots) \<leftarrow> ipv4_reassemble alloc (instant_add now reassembly_timeout) packet slots;
                        Some (map_option (\<lambda>payload. (repr, payload)) res, slots) } }"

section \<open>The header of a fragment\<close>

lemma poke_commute:
  assumes "i + length xs \<le> j \<or> j + length ys \<le> i"
  shows "poke i xs (poke j ys bs) = poke j ys (poke i xs bs)"
proof (cases "i + length xs \<le> length bs \<and> j + length ys \<le> length bs")
  case True
  show ?thesis
    by (rule nth_equalityI) (use True assms in \<open>auto simp: nth_poke\<close>)
next
  case False
  then show ?thesis by (auto simp: poke_def)
qed

lemma poke_append: "i + length xs \<le> length a \<Longrightarrow> poke i xs (a @ b) = poke i xs a @ b"
  by (simp add: poke_def blit_def)

lemma take_poke_inside: "i + length xs \<le> n \<Longrightarrow> n \<le> length bs \<Longrightarrow> take n (poke i xs bs) = poke i xs (take n bs)"
  using sub_slice_poke_prefix [of i xs n bs] by (simp add: sub_slice_def)

definition fragment_word :: "bool \<Rightarrow> u16 \<Rightarrow> u16" where
  "fragment_word m off = (if m then 0x2000 else 0) OR drop_bit 3 off"

lemma fragment_word_more: "fragment_word m off AND 0x2000 \<noteq> 0 \<longleftrightarrow> m"
proof -
  have "drop_bit 3 off AND 2 ^ k = (0 :: u16)" if "13 \<le> k" for k
    by (rule bit_word_eqI) (use that in \<open>auto simp: bit_simps dest: bit_imp_le_length\<close>)
  from this [OF order_refl] have "drop_bit 3 off AND 0x2000 = (0 :: u16)" by simp
  then show ?thesis by (simp add: fragment_word_def bit.conj_disj_distrib2)
qed

lemma fragment_word_offset: "push_bit 3 (fragment_word m off) = push_bit 3 (drop_bit 3 off)"
proof -
  have z: "push_bit 3 (0x2000 :: u16) = 0" by (simp add: word_unat_eq_iff)
  show ?thesis unfolding fragment_word_def push_bit_or by (cases m) (simp_all only: if_True if_False z push_bit_of_0 or.left_neutral)
qed

lemma offset_multiple_of_8:
  assumes "8 dvd unat (off :: u16)"
  shows "push_bit 3 (drop_bit 3 off) = off"
proof -
  have "unat (drop_bit 3 off) = unat off div 8" by (simp add: drop_bit_eq_div unat_div_distrib)
  then have "unat (push_bit 3 (drop_bit 3 off)) = unat off div 8 * 8 mod 65536"
    by (simp add: push_bit_eq_mult unat_word_ariths)
  also have "\<dots> = unat off" using assms u16_less [of off] by simp
  finally show ?thesis by (simp add: word_unat_eq_iff)
qed

definition fragment_header :: "ipv4_repr \<Rightarrow> u16 \<Rightarrow> bool \<Rightarrow> u16 \<Rightarrow> u16 \<Rightarrow> u8 list \<Rightarrow> u8 list" where
  "fragment_header repr ident m off c packet =
     poke 6 (be_bytes 2 (unat (fragment_word m off))) (poke 4 (be_bytes 2 (unat ident))
       (poke 10 (be_bytes 2 (unat c)) (ipv4_header repr packet)))"

lemma length_fragment_header [simp]: "length (fragment_header repr ident m off c packet) = length packet"
  by (simp add: fragment_header_def)

lemma fragment_header_checksum:
  "poke 10 (be_bytes 2 (unat c')) (fragment_header repr ident m off c packet) = fragment_header repr ident m off c' packet"
  by (simp add: fragment_header_def poke_commute [of 10 "be_bytes 2 (unat c')" 6]
      poke_commute [of 10 "be_bytes 2 (unat c')" 4])

lemma fragment_header_append:
  assumes "wire_ipv4 repr" "length packet = 20"
  shows "fragment_header repr ident m off c (packet @ rest) = fragment_header repr ident m off c packet @ rest"
  using assms by (simp add: fragment_header_def ipv4_header_def wire_ipv4_def poke_append)

lemma fragment_header_fields:
  assumes "wire_ipv4 repr" "20 \<le> length packet" and out: "out = fragment_header repr ident m off c packet"
  shows "ipv4p_version out = Some 4" "ipv4p_header_len out = Some 20"
    "ipv4p_total_len out = Some (of_nat (20 + v4_payload_len repr))"
    "ipv4p_src_addr out = Some (v4_src_addr repr)" "ipv4p_dst_addr out = Some (v4_dst_addr repr)"
    "ipv4p_next_header out = Some (v4_next_header repr)" "ipv4p_hop_limit out = Some (v4_hop_limit repr)"
    "ipv4p_ident out = Some ident"
    "ipv4p_more_frags out = Some m" "ipv4p_frag_offset out = Some (push_bit 3 (drop_bit 3 off))"
    "drop 20 out = drop 20 packet"
  using assms fragment_word_more [of m off] fragment_word_offset [of m off]
  by (simp_all add: fragment_header_def ipv4_header_def wire_ipv4_def ipv4p_defs be_u16_be_bytes_of_nat)

lemma ipv4_emit_cases:
  assumes "wire_ipv4 repr" "20 \<le> length packet"
  obtains c :: u16 where "ipv4_emit repr caps packet = Some (poke 10 (be_bytes 2 (unat c)) (ipv4_header repr packet))"
proof (cases "checksum_tx (caps_ipv4 caps)")
  case True
  obtain c where "ipv4p_fill_checksum (ipv4_header repr packet) = Some (poke 10 (be_bytes 2 (unat (c :: u16))) (ipv4_header repr packet))"
    by (rule ipv4_fill_checksum_verifies [of "ipv4_header repr packet"])
      (use ipv4_header_header_len [OF assms] assms(2) in simp_all)
  then show thesis using that True ipv4_emit_header [OF assms] by simp
next
  case False
  then show thesis using that [of 0] ipv4_emit_header [OF assms] assms(2) by (simp add: ipv4p_set_checksum_def)
qed

lemma set_fragment_header:
  assumes w: "wire_ipv4 repr" "20 \<le> length packet"
  obtains c' where "set_fragment ident m off caps (poke 10 (be_bytes 2 (unat (c :: u16))) (ipv4_header repr packet))
      = Some (fragment_header repr ident m off c' packet)"
    "checksum_tx (caps_ipv4 caps) \<Longrightarrow> ipv4p_verify_checksum (fragment_header repr ident m off c' packet) = Some True"
proof -
  let ?p = "poke 10 (be_bytes 2 (unat c)) (ipv4_header repr packet)"
  let ?q = "poke 4 (be_bytes 2 (unat ident)) ?p"
  have raw: "sub_slice 6 2 ?q = be_bytes 2 0x4000"
    using w by (simp add: ipv4_header_def wire_ipv4_def)
  have raw': "be_u16 (be_bytes 2 0x4000) = 0x4000" by (simp add: be_u16_def)
  have word: "do { p \<leftarrow> ipv4p_set_more_frags m ?q; p \<leftarrow> ipv4p_set_dont_frag False p; ipv4p_set_frag_offset off p }
      = Some (fragment_header repr ident m off c packet)"
    using w(2) raw raw'
    by (simp add: ipv4p_set_more_frags_def ipv4p_set_dont_frag_def ipv4p_set_frag_offset_def fragment_header_def fragment_word_def)
  have "set_fragment ident m off caps ?p = do {
      p \<leftarrow> do { p \<leftarrow> ipv4p_set_more_frags m ?q; p \<leftarrow> ipv4p_set_dont_frag False p; ipv4p_set_frag_offset off p };
      if checksum_tx (caps_ipv4 caps) then ipv4p_fill_checksum p else Some p }"
    using w(2) by (simp add: set_fragment_def ipv4p_set_ident_def)
  then have eq: "set_fragment ident m off caps ?p = (if checksum_tx (caps_ipv4 caps)
      then ipv4p_fill_checksum (fragment_header repr ident m off c packet) else Some (fragment_header repr ident m off c packet))"
    unfolding word by simp
  show thesis
  proof (cases "checksum_tx (caps_ipv4 caps)")
    case True
    have hl: "ipv4p_header_len (fragment_header repr ident m off c packet) = Some 20"
      by (rule fragment_header_fields(2) [OF w refl])
    obtain c' where "ipv4p_fill_checksum (fragment_header repr ident m off c packet)
        = Some (poke 10 (be_bytes 2 (unat (c' :: u16))) (fragment_header repr ident m off c packet))"
      "ipv4p_verify_checksum (poke 10 (be_bytes 2 (unat c')) (fragment_header repr ident m off c packet)) = Some True"
      by (rule ipv4_fill_checksum_verifies [OF hl]) (use w(2) in simp)
    then show thesis using that [of c'] eq True by (simp add: fragment_header_checksum)
  next
    case False
    then show thesis using that [of c] eq by simp
  qed
qed

text \<open>A fragment as the receiver sees it: \<open>m\<close>, \<open>off\<close> and the octets \<open>data\<close> behind its header.\<close>

definition fragment_key :: "ipv4_repr \<Rightarrow> u16 \<Rightarrow> ipv4_key" where
  "fragment_key repr ident = \<lparr>key_id = ident, key_src_addr = v4_src_addr repr, key_dst_addr = v4_dst_addr repr,
     key_protocol = v4_next_header repr\<rparr>"

lemma fragment_reassembled:
  assumes w: "wire_ipv4 repr" "v4_payload_len repr = length data" and p: "length packet = 20"
    and out: "out = fragment_header repr ident m off c (packet @ data)"
    and off: "8 dvd unat off" "m \<or> off \<noteq> 0"
    and valid: "checksum_rx (caps_ipv4 caps) \<Longrightarrow> ipv4p_verify_checksum out = Some True"
  shows "ipv4_parse out caps = Some (Inr repr)"
    and "ipv4_reassemble alloc t out slots = pas_fragment alloc t (fragment_key repr ident) m (unat off) (length data) data slots"
proof -
  have len: "20 \<le> length (packet @ data)" "length out = 20 + length data" using p out by simp_all
  note f = fragment_header_fields [OF w(1) len(1) out]
  have n: "20 + length data < 65536" using w by (simp add: wire_ipv4_def)
  let ?t = "of_nat (20 + v4_payload_len repr) :: u16"
  have t: "unat ?t = 20 + length data" using n w(2) by (subst unat_of_nat) simp
  have "\<not> ucast (20 :: u8) > ?t" using t by (simp add: word_less_nat_alt)
  then have "ipv4p_check_len out = Some (Inr ())" using f(2,3) t len by (simp add: ipv4p_check_len_def)
  then show "ipv4_parse out caps = Some (Inr repr)"
    using f t valid w(2) by (simp add: ipv4_parse_def del: of_nat_add)
  have "drop 20 out = data" using f(11) p by simp
  then have "ipv4p_payload out = Some data"
    using f(2,3) t len by (simp add: ipv4p_payload_def sub_slice_def)
  moreover have "ipv4p_get_key out = Some (fragment_key repr ident)"
    using f by (simp add: ipv4p_get_key_def fragment_key_def)
  ultimately show "ipv4_reassemble alloc t out slots = pas_fragment alloc t (fragment_key repr ident) m (unat off) (length data) data slots"
    using f(2,3,9,10) off t by (simp add: ipv4_reassemble_def offset_multiple_of_8 del: of_nat_add)
qed

section \<open>Frames\<close>

definition link_len :: "device_caps \<Rightarrow> nat" where
  "link_len caps = (if dc_medium caps = Medium_Ethernet then ETH_HEADER_LEN else 0)"

definition frame_ip :: "device_caps \<Rightarrow> u8 list \<Rightarrow> u8 list option" where
  "frame_ip caps frame = (if dc_medium caps = Medium_Ethernet then ethf_payload frame else Some frame)"

lemma with_ethernet_frame:
  assumes tx: "length tx = link_len caps + n" and hw: "length src_hw = 6" "length dst_hw = 6"
    and body: "body (drop (link_len caps) tx) = Some r" "length r = n"
  obtains frame where "with_ethernet caps src_hw dst_hw body tx = Some frame" "frame_ip caps frame = Some r"
    "length frame = length tx"
proof (cases "dc_medium caps = Medium_Ethernet")
  case True
  define f where "f = poke 12 (be_bytes 2 (unat (ethertype_into_u16 Ether_Ipv4))) (poke 0 dst_hw (poke 6 src_hw tx))"
  have l: "length f = 14 + n" using True tx by (simp add: link_len_def f_def ETH_HEADER_LEN_def)
  have e: "emit_ethernet src_hw dst_hw tx = Some f"
    using True tx hw by (simp add: emit_ethernet_def ethf_set_src_addr_def ethf_set_dst_addr_def ethf_set_ethertype_def
        link_len_def f_def ETH_HEADER_LEN_def)
  have d: "drop 14 f = drop 14 tx" using hw by (simp add: f_def)
  have "slice_range ETH_HEADER_LEN (length f) f = Some (drop (link_len caps) tx)"
    using True l d tx by (simp add: link_len_def ETH_HEADER_LEN_def sub_slice_def)
  then have "with_ethernet caps src_hw dst_hw body tx = Some (take 14 f @ r)"
    using True e body(1) by (simp add: with_ethernet_def ETH_HEADER_LEN_def)
  moreover have "frame_ip caps (take 14 f @ r) = Some r"
    using True l body(2) by (simp add: frame_ip_def ethf_payload_def sub_slice_def)
  ultimately show thesis using that l body(2) tx True by (simp add: link_len_def ETH_HEADER_LEN_def)
next
  case False
  then show thesis using that [of r] body tx by (simp add: with_ethernet_def frame_ip_def link_len_def)
qed

lemma mtu_link: "ip_mtu caps = Some m \<Longrightarrow> dc_max_transmission_unit caps = link_len caps + m"
  by (auto simp: ip_mtu_def link_len_def checked_sub_def split: medium.splits if_splits)

lemma verify_checksum_append:
  assumes "ipv4p_header_len a = Some 20" "20 \<le> length a"
  shows "ipv4p_verify_checksum (a @ b) = ipv4p_verify_checksum a"
proof -
  have "ipv4p_header_len (a @ b) = Some 20" using assms by (cases a) (simp_all add: ipv4p_header_len_def get_u8_def)
  then show ?thesis using assms by (simp add: ipv4p_verify_checksum_def sub_slice_def)
qed

text \<open>
  \<open>is_fragment\<close>: an IP packet that carries \<open>data\<close> as the fragment at \<open>n\<close> of the packet \<open>repr\<close>, with a checksum that holds
  if the sender computes checksums.
\<close>

definition is_fragment :: "checksum_caps \<Rightarrow> ipv4_repr \<Rightarrow> u16 \<Rightarrow> bool \<Rightarrow> nat \<Rightarrow> u8 list \<Rightarrow> u8 list \<Rightarrow> bool" where
  "is_fragment caps repr ident m n data out \<longleftrightarrow> (\<exists>c h. length h = 20
     \<and> out = fragment_header (repr\<lparr>v4_payload_len := length data\<rparr>) ident m (of_nat n) c (h @ data)
     \<and> (checksum_tx (caps_ipv4 caps) \<longrightarrow> ipv4p_verify_checksum out = Some True))"

lemma is_fragmentI:
  assumes w: "wire_ipv4 (repr\<lparr>v4_payload_len := length data\<rparr>)" and h: "length h = 20"
    and c: "checksum_tx (caps_ipv4 caps) \<Longrightarrow>
      ipv4p_verify_checksum (fragment_header (repr\<lparr>v4_payload_len := length data\<rparr>) ident m (of_nat n) c (h @ rest)) = Some True"
  shows "is_fragment caps repr ident m n data
    (fragment_header (repr\<lparr>v4_payload_len := length data\<rparr>) ident m (of_nat n) c h @ data)"
proof -
  let ?r = "repr\<lparr>v4_payload_len := length data\<rparr>"
  let ?f = "fragment_header ?r ident m (of_nat n) c"
  have hl: "ipv4p_header_len (?f h) = Some 20"
    using fragment_header_fields(2) [OF w _ refl] h by simp
  have "ipv4p_verify_checksum (?f h @ x) = ipv4p_verify_checksum (?f h)" for x
    by (rule verify_checksum_append [OF hl]) (simp add: h)
  then show ?thesis
    unfolding is_fragment_def using c fragment_header_append [OF w h] h
    by (intro exI [of _ c] exI [of _ h]) simp
qed

lemma wire_ipv4_resize: "wire_ipv4 repr \<Longrightarrow> n \<le> 65515 \<Longrightarrow> wire_ipv4 (repr\<lparr>v4_payload_len := n\<rparr>)"
  by (simp add: wire_ipv4_def)

section \<open>The fragments that are sent\<close>

text \<open>\<open>tx_at repr ident dst_hw octets n frag\<close>: of the packet, the first \<open>n\<close> octets behind the header have been sent.\<close>

definition tx_at :: "ipv4_repr \<Rightarrow> u16 \<Rightarrow> eth_address \<Rightarrow> u8 list \<Rightarrow> nat \<Rightarrow> fragmenter \<Rightarrow> bool" where
  "tx_at repr ident dst_hw octets n frag \<longleftrightarrow>
     fr_packet_len frag = 20 + length octets \<and> fr_sent_bytes frag = 20 + n \<and> n \<le> length octets
     \<and> f4_frag_offset (fr_ipv4 frag) = of_nat n \<and> f4_ident (fr_ipv4 frag) = ident
     \<and> f4_dst_hardware_addr (fr_ipv4 frag) = dst_hw \<and> (\<exists>l. f4_repr (fr_ipv4 frag) = repr\<lparr>v4_payload_len := l\<rparr>)
     \<and> 20 + length octets \<le> length (fr_buffer frag) \<and> sub_slice 20 (length octets) (fr_buffer frag) = octets"

lemma egress_step:
  assumes w: "wire_ipv4 repr" and L: "length octets \<le> 65515" and tx: "tx_at repr ident dst_hw octets n frag"
    and n: "n < length octets" and M: "ip_mtu caps = Some M" "20 < M"
    and buf: "\<And>k. length (tx_buffer k) = k" and hw: "length src_hw = 6" "length dst_hw = 6"
    and p: "p = min (length octets - n) (M - 20)"
  obtains frame frag' out where "ipv4_egress True caps src_hw tx_buffer frag = Some (Some frame, frag')"
    "tx_at repr ident dst_hw octets (n + p) frag'" "length frame \<le> dc_max_transmission_unit caps"
    "frame_ip caps frame = Some out"
    "is_fragment (dc_checksum caps) repr ident (n + p < length octets) n (sub_slice n p octets) out"
proof -
  let ?f4 = "fr_ipv4 frag" and ?cs = "dc_checksum caps" and ?m = "n + p < length octets"
  let ?data = "sub_slice n p octets"
  let ?r = "repr\<lparr>v4_payload_len := p\<rparr>"
  obtain l where f4: "f4_repr ?f4 = repr\<lparr>v4_payload_len := l\<rparr>" using tx by (auto simp: tx_at_def)
  note t = tx [unfolded tx_at_def]
  have pl: "p \<le> length octets - n" "0 < p" "p \<le> 65515" "length ?data = p" using p n M(2) L by auto
  have w': "wire_ipv4 ?r" using wire_ipv4_resize [OF w pl(3)] .
  have off: "unat (f4_frag_offset ?f4) = n" using t n L by (simp add: unat_of_nat)
  have ip_len: "min (length octets - n + 20) M = 20 + p" using p M(2) by auto
  define tl where "tl = link_len caps + (20 + p)"
  have rest: "length (drop (link_len caps) (tx_buffer tl)) = 20 + p" using buf by (simp add: tl_def)
  let ?tx = "drop (link_len caps) (tx_buffer tl)"
  have h: "length (take 20 ?tx) = 20" using rest by simp
  obtain c where c: "ipv4_emit ?r ?cs (take 20 ?tx) = Some (poke 10 (be_bytes 2 (unat (c :: u16))) (ipv4_header ?r (take 20 ?tx)))"
    by (rule ipv4_emit_cases [OF w', of "take 20 ?tx" ?cs]) (use h in auto)
  obtain c' where c': "set_fragment ident ?m (f4_frag_offset ?f4) ?cs (poke 10 (be_bytes 2 (unat c)) (ipv4_header ?r (take 20 ?tx)))
      = Some (fragment_header ?r ident ?m (of_nat n) c' (take 20 ?tx))"
    "checksum_tx (caps_ipv4 ?cs) \<Longrightarrow> ipv4p_verify_checksum (fragment_header ?r ident ?m (of_nat n) c' (take 20 ?tx)) = Some True"
    by (rule set_fragment_header [OF w', of "take 20 ?tx" ident ?m "of_nat n" ?cs c]) (use h t in auto)
  let ?hd = "fragment_header ?r ident ?m (of_nat n) c' (take 20 ?tx)"
  have payload: "slice_range (n + 20) (n + 20 + p) (fr_buffer frag) = Some ?data"
  proof -
    have "sub_slice n p octets = sub_slice n p (sub_slice 20 (length octets) (fr_buffer frag))" using t by simp
    also have "\<dots> = sub_slice (n + 20) p (fr_buffer frag)" using pl n by (simp add: sub_slice_def drop_take min_def add.commute)
    finally show ?thesis using t pl n by simp
  qed
  have put: "put_slice 20 ?data (?hd @ drop 20 ?tx) = Some (?hd @ ?data)"
    using h rest pl(4) by (simp add: put_slice_def poke_def blit_def)
  define body where "body = (\<lambda>tx_buffer. do { packet \<leftarrow> slice_range 0 20 tx_buffer;
       packet \<leftarrow> ipv4_emit ?r ?cs packet;
       packet \<leftarrow> set_fragment (f4_ident ?f4) ?m (f4_frag_offset ?f4) ?cs packet;
       payload \<leftarrow> slice_range (n + 20) (n + 20 + p) (fr_buffer frag);
       put_slice 20 payload (packet @ drop 20 tx_buffer) })"
  have "slice_range 0 20 ?tx = Some (take 20 ?tx)" using rest by (simp add: sub_slice_def)
  then have body: "body ?tx = Some (?hd @ ?data)" using c c'(1) payload put t by (simp add: body_def)
  have "length (?hd @ ?data) = 20 + p" using h pl(4) by simp
  then obtain frame where frame: "with_ethernet caps src_hw (f4_dst_hardware_addr ?f4) body (tx_buffer tl) = Some frame"
    "frame_ip caps frame = Some (?hd @ ?data)" "length frame = tl"
    using with_ethernet_frame [of "tx_buffer tl" caps "20 + p" src_hw "f4_dst_hardware_addr ?f4" body "?hd @ ?data"]
      buf hw t body by (auto simp: tl_def)
  let ?frag = "frag\<lparr>fr_sent_bytes := fr_sent_bytes frag + p,
            fr_ipv4 := ?f4\<lparr>f4_repr := ?r, f4_frag_offset := f4_frag_offset ?f4 + of_nat p\<rparr>\<rparr>"
  have r: "(f4_repr ?f4)\<lparr>v4_payload_len := p\<rparr> = ?r" by (simp add: f4)
  have tl': "(if dc_medium caps = Medium_Ethernet then 20 + p + ETH_HEADER_LEN else 20 + p) = tl"
    by (simp add: tl_def link_len_def)
  have more: "(length octets - n \<noteq> p) = ?m" using pl(1) n by auto
  have fits: "n + p mod 65536 < 65536" using pl L n by simp
  have e: "ipv4_buffer_len (f4_repr ?f4) = 20" "checked_sub (fr_packet_len frag) (fr_sent_bytes frag) = Some (length octets - n)"
    "checked_sub (20 + p) 20 = Some p" "rust_assert (n + p mod 65536 < 65536) = Some ()"
    using t n fits by (simp_all add: ipv4_buffer_len_def IPV4_HEADER_LEN_def checked_sub_def)
  have "dispatch_ipv4_frag caps src_hw tx_buffer frag = Some (frame, ?frag)"
    by (simp only: dispatch_ipv4_frag_def Let_def M(1) bind.bind_lunit e ip_len more r tl' off frame(1) [unfolded body_def])
  then have "ipv4_egress True caps src_hw tx_buffer frag = Some (Some frame, ?frag)"
    using t n by (simp add: ipv4_egress_def fragmenter_finished_def fragmenter_is_empty_def Let_def)
  moreover have "tx_at repr ident dst_hw octets (n + p) ?frag"
    using t pl n by (auto simp: tx_at_def)
  moreover have "length frame \<le> dc_max_transmission_unit caps"
    using frame(3) p M mtu_link [OF M(1)] by (simp add: tl_def)
  moreover have "is_fragment ?cs repr ident ?m n ?data (?hd @ ?data)"
    using is_fragmentI [where repr = repr and data = ?data and h = "take 20 ?tx" and rest = "[]" and c = c'] w' h c'(2) pl(4) by simp
  ultimately show thesis using that frame(2) by blast
qed

lemma header_replace_payload:
  assumes "wire_ipv4 repr" "20 \<le> length buf"
  shows "take 20 (poke 10 (be_bytes 2 (unat (c :: u16))) (ipv4_header repr buf)) @ pl
    = poke 10 (be_bytes 2 (unat c)) (ipv4_header repr (take 20 buf @ pl))"
  using assms by (simp add: ipv4_header_def wire_ipv4_def take_poke_inside poke_append)

lemma first_step:
  assumes w: "wire_ipv4 repr" and L: "v4_payload_len repr = length octets"
    and dst: "\<not> v4_is_unspecified (v4_dst_addr repr)"
    and big: "dc_max_transmission_unit caps < 20 + length octets" "20 + length octets \<le> length (fr_buffer frag)"
    and M: "ip_mtu caps = Some M" "20 < M"
    and buf: "\<And>k. length (tx_buffer k) = k" and hw: "length src_hw = 6" "length dst_hw = 6"
    and payload: "\<And>rest. length rest = length (fr_buffer frag) - 20 \<Longrightarrow> \<exists>pl.
      emit_payload packet (Ipv4_Repr (repr\<lparr>v4_payload_len := M - 20\<rparr>)) caps rest = Some pl
      \<and> length pl = length rest \<and> take (length octets) pl = octets"
  obtains frame frag' out where
    "dispatch_ipv4 caps src_hw dst_hw tx_buffer repr packet ident frag = Some (Some frame, ident + 1, frag')"
    "tx_at repr ident dst_hw octets (M - 20) frag'" "length frame \<le> dc_max_transmission_unit caps"
    "frame_ip caps frame = Some out"
    "is_fragment (dc_checksum caps) repr ident True 0 (take (M - 20) octets) out" "M - 20 < length octets"
proof -
  let ?cs = "dc_checksum caps" and ?buf = "fr_buffer frag" and ?r = "repr\<lparr>v4_payload_len := M - 20\<rparr>"
  have mtu: "dc_max_transmission_unit caps = link_len caps + M" by (rule mtu_link [OF M(1)])
  have lt: "M - 20 < length octets" using mtu big(1) M(2) by simp
  have l: "length octets \<le> 65515" using w L by (simp add: wire_ipv4_def)
  have w': "wire_ipv4 ?r" by (rule wire_ipv4_resize [OF w]) (use lt l in simp)
  have b20: "20 \<le> length ?buf" using big(2) by simp
  obtain c where c: "ipv4_emit ?r ?cs ?buf = Some (poke 10 (be_bytes 2 (unat (c :: u16))) (ipv4_header ?r ?buf))"
    by (rule ipv4_emit_cases [OF w' b20, of ?cs])
  let ?p = "poke 10 (be_bytes 2 (unat c)) (ipv4_header ?r ?buf)"
  have "length (drop 20 ?p) = length ?buf - 20" by simp
  then obtain pl where pl: "emit_payload packet (Ipv4_Repr ?r) caps (drop 20 ?p) = Some pl" "length pl = length ?buf - 20"
    "take (length octets) pl = octets"
    using payload by metis
  let ?b = "take 20 ?buf @ pl"
  have lb: "length ?b = length ?buf" using pl(2) b20 by simp
  have h: "length (take 20 ?buf) = 20" using b20 by simp
  have e1: "emit_ip caps packet ?r ?buf = Some (poke 10 (be_bytes 2 (unat c)) (ipv4_header ?r ?b))"
    using c pl(1) b20 header_replace_payload [OF w' b20, of c pl]
    by (simp add: emit_ip_def ipv4_buffer_len_def IPV4_HEADER_LEN_def sub_slice_def)
  obtain c' where c': "set_fragment ident True 0 ?cs (poke 10 (be_bytes 2 (unat c)) (ipv4_header ?r ?b))
      = Some (fragment_header ?r ident True 0 c' ?b)"
    "checksum_tx (caps_ipv4 ?cs) \<Longrightarrow> ipv4p_verify_checksum (fragment_header ?r ident True 0 c' ?b) = Some True"
    by (rule set_fragment_header [OF w', of ?b ident True 0 ?cs c]) (use lb b20 in auto)
  let ?out = "fragment_header ?r ident True 0 c' ?b" and ?hd = "fragment_header ?r ident True 0 c' (take 20 ?buf)"
  let ?data = "take (M - 20) octets"
  have out: "?out = ?hd @ pl" by (rule fragment_header_append [OF w' h])
  have "take (M - 20) pl = ?data" using lt arg_cong [OF pl(3), of "take (M - 20)"] by (simp add: min_def)
  then have first: "slice_range 0 M ?out = Some (?hd @ ?data)"
    using M(2) lt lb big(2) h by (simp add: sub_slice_def out)
  have ld: "length (?hd @ ?data) = M" using h lt M(2) by simp
  let ?tx = "drop (link_len caps) (tx_buffer (dc_max_transmission_unit caps))"
  define body where "body = (\<lambda>tx_buffer. do { first \<leftarrow> slice_range 0 M ?out; put_slice 0 first tx_buffer })"
  have ltx: "length ?tx = M" using buf mtu by simp
  then have body: "body ?tx = Some (?hd @ ?data)" using first ld by (simp add: body_def put_slice_def poke_def blit_def)
  obtain frame where frame: "with_ethernet caps src_hw dst_hw body (tx_buffer (dc_max_transmission_unit caps)) = Some frame"
    "frame_ip caps frame = Some (?hd @ ?data)" "length frame = dc_max_transmission_unit caps"
    by (rule with_ethernet_frame [of "tx_buffer (dc_max_transmission_unit caps)" caps M src_hw dst_hw body "?hd @ ?data"])
      (use buf hw mtu body ld in simp_all)
  let ?frag = "frag\<lparr>fr_packet_len := 20 + length octets, fr_sent_bytes := M, fr_buffer := ?out,
      fr_ipv4 := (fr_ipv4 frag)\<lparr>f4_dst_hardware_addr := dst_hw, f4_repr := repr, f4_ident := ident,
        f4_frag_offset := of_nat (M - 20)\<rparr>\<rparr>"
  have "dispatch_first_fragment caps src_hw dst_hw tx_buffer ident repr packet frag = Some (Some frame, ?frag)"
    using M big(2) e1 c'(1) frame(1) L
    by (simp add: dispatch_first_fragment_def ip_buffer_len_def ipv4_buffer_len_def IPV4_HEADER_LEN_def body_def Let_def checked_sub_def)
  then have "dispatch_ipv4 caps src_hw dst_hw tx_buffer repr packet ident frag = Some (Some frame, ident + 1, ?frag)"
    using big(1) dst L by (simp add: dispatch_ipv4_def next_ipv4_frag_ident_def ip_buffer_len_def ipv4_buffer_len_def IPV4_HEADER_LEN_def)
  moreover have "tx_at repr ident dst_hw octets (M - 20) ?frag"
  proof -
    have "sub_slice 20 (length octets) ?out = octets" unfolding out sub_slice_def using pl(3) h by simp
    moreover have "\<exists>l. repr = repr\<lparr>v4_payload_len := l\<rparr>" by (rule exI [of _ "v4_payload_len repr"]) simp
    ultimately show ?thesis using M(2) lt lb big(2) by (simp add: tx_at_def)
  qed
  moreover have "is_fragment ?cs repr ident True 0 ?data (?hd @ ?data)"
    using is_fragmentI [where repr = repr and data = ?data and h = "take 20 ?buf" and rest = pl and c = c' and n = 0] w' h c'(2) lt
    by simp
  ultimately show thesis using that frame(2,3) lt by (metis order_refl)
qed

section \<open>The fragments that arrive\<close>

text \<open>A device hands the frames to \<open>process_ipv4\<close>, one by one; the result lists the payload that each of them completes.\<close>

fun receive_frames :: "device_caps \<Rightarrow> ip_cidr list \<Rightarrow> instant \<Rightarrow> duration \<Rightarrow> u8 list list \<Rightarrow>
    ipv4_key packet_assembler list \<Rightarrow> (u8 list option list \<times> ipv4_key packet_assembler list) option" where
  "receive_frames caps ip_addrs now timeout [] slots = Some ([], slots)"
| "receive_frames caps ip_addrs now timeout (frame # frames) slots =
     do { packet \<leftarrow> frame_ip caps frame;
          (res, slots) \<leftarrow> ipv4_ingress True ip_addrs (dc_checksum caps) now timeout packet slots;
          (results, slots) \<leftarrow> receive_frames caps ip_addrs now timeout frames slots;
          Some (map_option snd res # results, slots) }"

lemma receive_first:
  "frame_ip caps frame = Some packet \<Longrightarrow>
   ipv4_ingress True ip_addrs (dc_checksum caps) now timeout packet slots = Some (None, slots1) \<Longrightarrow> frames \<noteq> [] \<Longrightarrow>
   receive_frames caps ip_addrs now timeout frames slots1 = Some (replicate (length frames - 1) None @ xs, slots2) \<Longrightarrow>
   receive_frames caps ip_addrs now timeout (frame # frames) slots = Some (replicate (length frames) None @ xs, slots2)"
  by (simp del: receive_frames.simps(2) add: receive_frames.simps(2) [of caps ip_addrs now timeout frame]) (cases frames; simp)

lemma fragment_received:
  assumes w: "wire_ipv4 repr" and f: "is_fragment tx_cs repr ident m n data out"
    and data: "n + length data \<le> 65515" "8 dvd n" "m \<or> n \<noteq> 0"
    and cs: "checksum_rx (caps_ipv4 rx_cs) \<Longrightarrow> checksum_tx (caps_ipv4 tx_cs)"
    and src: "is_unicast_v4 ip_addrs (v4_src_addr repr)"
    and res: "pas_fragment True (instant_add now timeout) (fragment_key repr ident) m n (length data) data slots = Some (r, slots')"
  shows "\<exists>h. ipv4_ingress True ip_addrs rx_cs now timeout out slots = Some (map_option (\<lambda>p. (h, p)) r, slots')"
proof -
  let ?r = "repr\<lparr>v4_payload_len := length data\<rparr>"
  obtain c h where o: "length h = 20" "out = fragment_header ?r ident m (of_nat n) c (h @ data)"
    "checksum_tx (caps_ipv4 tx_cs) \<Longrightarrow> ipv4p_verify_checksum out = Some True"
    using f by (auto simp: is_fragment_def)
  have off: "unat (of_nat n :: u16) = n" using data(1) by (subst unat_of_nat) simp
  then have off': "8 dvd unat (of_nat n :: u16)" "m \<or> (of_nat n :: u16) \<noteq> 0" using data by (auto simp del: of_nat_eq_0_iff)
  have w': "wire_ipv4 ?r" by (rule wire_ipv4_resize [OF w]) (use data(1) in simp)
  have valid: "checksum_rx (caps_ipv4 rx_cs) \<Longrightarrow> ipv4p_verify_checksum out = Some True" using o(3) cs by blast
  have pl: "v4_payload_len ?r = length data" by simp
  have key: "fragment_key ?r ident = fragment_key repr ident" by (simp add: fragment_key_def)
  have parse: "ipv4_parse out rx_cs = Some (Inr ?r)"
    by (rule fragment_reassembled(1) [OF w' pl o(1,2) off']) (rule valid)
  have "ipv4_reassemble True (instant_add now timeout) out slots = Some (r, slots')"
    using fragment_reassembled(2) [OF w' pl o(1,2) off', of rx_cs True "instant_add now timeout" slots] valid res
    by (simp add: off key)
  then show ?thesis using parse src by (intro exI [of _ ?r]) (simp add: ipv4_ingress_def)
qed

section \<open>End to end\<close>

text \<open>\<open>Interface::poll\<close> calls \<open>ipv4_egress\<close> until it has nothing to send; \<open>n\<close> bounds the calls.\<close>

fun egress_frames :: "nat \<Rightarrow> device_caps \<Rightarrow> eth_address \<Rightarrow> (nat \<Rightarrow> u8 list) \<Rightarrow> fragmenter \<Rightarrow> (u8 list list \<times> fragmenter) option" where
  "egress_frames 0 caps src_hw tx_buffer frag = Some ([], frag)"
| "egress_frames (Suc n) caps src_hw tx_buffer frag =
     do { (frame, frag) \<leftarrow> ipv4_egress True caps src_hw tx_buffer frag;
          case frame of
            None \<Rightarrow> Some ([], frag)
          | Some frame \<Rightarrow> do { (frames, frag) \<leftarrow> egress_frames n caps src_hw tx_buffer frag; Some (frame # frames, frag) } }"

lemma egress_done:
  assumes "tx_at repr ident dst_hw octets (length octets) frag"
  shows "\<exists>frag'. egress_frames (Suc n) caps src_hw tx_buffer frag = Some ([], frag') \<and> fragmenter_is_empty frag'"
  using assms by (simp add: tx_at_def ipv4_egress_def fragmenter_finished_def fragmenter_is_empty_def fragmenter_reset_def Let_def)

lemma egress_idle:
  "fragmenter_is_empty frag \<Longrightarrow>
   \<exists>frag'. egress_frames (Suc n) caps src_hw tx_buffer frag = Some ([], frag') \<and> fragmenter_is_empty frag'"
  by (auto simp: ipv4_egress_def fragmenter_is_empty_def fragmenter_reset_def Let_def)

lemma egress_more:
  "ipv4_egress True caps src_hw tx_buffer frag = Some (Some frame, frag1) \<Longrightarrow>
   egress_frames n caps src_hw tx_buffer frag1 = Some (frames, frag2) \<Longrightarrow>
   egress_frames (Suc n) caps src_hw tx_buffer frag = Some (frame # frames, frag2)"
  by simp

lemma fragments_drained:
  assumes w: "wire_ipv4 repr" and L: "length octets \<le> 65515" and M: "ip_mtu caps = Some M" "20 < M" "8 dvd (M - 20)"
    and buf: "\<And>k. length (tx_buffer k) = k" and hw: "length src_hw = 6" "length dst_hw = 6"
    and cs: "checksum_rx (caps_ipv4 (dc_checksum rx)) \<Longrightarrow> checksum_tx (caps_ipv4 (dc_checksum caps))"
    and medium: "dc_medium rx = dc_medium caps" and src: "is_unicast_v4 ip_addrs (v4_src_addr repr)"
    and packet: "packet (fragment_key repr ident) = octets"
  shows "tx_at repr ident dst_hw octets n frag \<Longrightarrow> n < length octets \<Longrightarrow> 8 dvd n \<Longrightarrow> 0 < n \<Longrightarrow>
    rx_at packet (fragment_key repr ident) n i slots \<Longrightarrow> length octets - n \<le> fuel \<Longrightarrow>
    \<exists>frames frag' slots'. egress_frames (Suc fuel) caps src_hw tx_buffer frag = Some (frames, frag')
      \<and> fragmenter_is_empty frag' \<and> (\<forall>frame\<in>set frames. length frame \<le> dc_max_transmission_unit caps) \<and> frames \<noteq> []
      \<and> receive_frames rx ip_addrs now timeout frames slots = Some (replicate (length frames - 1) None @ [Some octets], slots')"
proof (induction fuel arbitrary: n frag slots)
  case (Suc fuel)
  let ?k = "fragment_key repr ident" and ?p = "min (length octets - n) (M - 20)"
  let ?m = "n + ?p < length octets" and ?data = "sub_slice n ?p octets"
  obtain frame frag1 out where e: "ipv4_egress True caps src_hw tx_buffer frag = Some (Some frame, frag1)"
    "tx_at repr ident dst_hw octets (n + ?p) frag1" "length frame \<le> dc_max_transmission_unit caps"
    "frame_ip caps frame = Some out" "is_fragment (dc_checksum caps) repr ident ?m n ?data out"
    by (rule egress_step [OF w L Suc.prems(1,2) M(1,2) buf hw refl])
  have ld: "length ?data = ?p" by auto
  have piece: "piece_of (packet ?k) ?m n ?data"
    unfolding piece_of_def packet ld using Suc.prems(2) by auto
  obtain slots1 where r: "pas_fragment True (instant_add now timeout) ?k ?m n (length ?data) ?data slots
      = Some (if ?m then None else Some (packet ?k), slots1)" "?m \<longrightarrow> rx_at packet ?k (n + length ?data) i slots1"
    by (rule rx_step [OF Suc.prems(5) piece, of "instant_add now timeout"])
  have bound: "n + length ?data \<le> 65515" using L Suc.prems(2) ld by simp
  obtain h where ing: "ipv4_ingress True ip_addrs (dc_checksum rx) now timeout out slots
      = Some (map_option (\<lambda>p. (h, p)) (if ?m then None else Some (packet ?k)), slots1)"
    using fragment_received [OF w e(5) bound Suc.prems(3) _ cs src r(1)] Suc.prems(4) by blast
  have fip: "frame_ip rx frame = Some out" using e(4) medium by (simp add: frame_ip_def)
  show ?case
  proof (cases ?m)
    case True
    then have p: "?p = M - 20" by auto
    have "8 dvd (n + ?p)" unfolding p using Suc.prems(3) M(3) by simp
    moreover have "length octets - (n + ?p) \<le> fuel" using Suc.prems(6) M(2) p by linarith
    ultimately obtain frames frag' slots' where ih: "egress_frames (Suc fuel) caps src_hw tx_buffer frag1 = Some (frames, frag')"
      "fragmenter_is_empty frag'" "\<forall>frame\<in>set frames. length frame \<le> dc_max_transmission_unit caps" "frames \<noteq> []"
      "receive_frames rx ip_addrs now timeout frames slots1 = Some (replicate (length frames - 1) None @ [Some octets], slots')"
      using Suc.IH [OF e(2) True _ _ r(2) [rule_format, OF True, unfolded ld]] Suc.prems(4) by auto
    have "egress_frames (Suc (Suc fuel)) caps src_hw tx_buffer frag = Some (frame # frames, frag')"
      by (rule egress_more [OF e(1) ih(1)])
    moreover have "receive_frames rx ip_addrs now timeout (frame # frames) slots
        = Some (replicate (length (frame # frames) - 1) None @ [Some octets], slots')"
      using receive_first [OF fip _ ih(4,5)] ing True by simp
    ultimately show ?thesis using ih(2,3) e(3) by (intro exI [of _ "frame # frames"] exI [of _ frag'] exI [of _ slots']) simp
  next
    case False
    then have "n + ?p = length octets" using Suc.prems(2) by auto
    with e(2) obtain frag' where done': "egress_frames (Suc fuel) caps src_hw tx_buffer frag1 = Some ([], frag')" "fragmenter_is_empty frag'"
      using egress_done by metis
    have "receive_frames rx ip_addrs now timeout [frame] slots = Some ([Some octets], slots1)"
      using fip ing False packet by simp
    then show ?thesis
      using egress_more [OF e(1) done'(1)] e(3) done'(2)
      by (intro exI [of _ "[frame]"] exI [of _ frag'] exI [of _ slots1]) (simp del: egress_frames.simps)
  qed
qed simp

lemma fragments_end_to_end:
  assumes w: "wire_ipv4 repr" and L: "v4_payload_len repr = length octets"
    and dst: "\<not> v4_is_unspecified (v4_dst_addr repr)"
    and big: "dc_max_transmission_unit caps < 20 + length octets" "20 + length octets \<le> length (fr_buffer frag)"
    and M: "ip_mtu caps = Some M" "20 < M" "8 dvd (M - 20)"
    and buf: "\<And>k. length (tx_buffer k) = k" and hw: "length src_hw = 6" "length dst_hw = 6"
    and payload: "\<And>rest. length rest = length (fr_buffer frag) - 20 \<Longrightarrow> \<exists>pl.
      emit_payload packet (Ipv4_Repr (repr\<lparr>v4_payload_len := M - 20\<rparr>)) caps rest = Some pl
      \<and> length pl = length rest \<and> take (length octets) pl = octets"
    and cs: "checksum_rx (caps_ipv4 (dc_checksum rx)) \<Longrightarrow> checksum_tx (caps_ipv4 (dc_checksum caps))"
    and medium: "dc_medium rx = dc_medium caps" and src: "is_unicast_v4 ip_addrs (v4_src_addr repr)"
    and slots: "0 < buffer_count" "0 < max_segment_count" and fuel: "length octets \<le> fuel"
  shows "\<exists>first frag1 frames frag2 slots'.
    dispatch_ipv4 caps src_hw dst_hw tx_buffer repr packet ident frag = Some (Some first, ident + 1, frag1)
    \<and> egress_frames fuel caps src_hw tx_buffer frag1 = Some (frames, frag2) \<and> fragmenter_is_empty frag2
    \<and> (\<forall>frame\<in>set (first # frames). length frame \<le> dc_max_transmission_unit caps)
    \<and> receive_frames rx ip_addrs now timeout (first # frames) (pas_new buffer_count True buffer_size max_segment_count)
        = Some (replicate (length frames) None @ [Some octets], slots')"
proof -
  let ?k = "fragment_key repr ident" and ?packet = "\<lambda>_ :: ipv4_key. octets"
  let ?slots = "pas_new buffer_count True buffer_size max_segment_count :: ipv4_key packet_assembler list"
  have l: "length octets \<le> 65515" using w L by (simp add: wire_ipv4_def)
  obtain first frag1 out where f: "dispatch_ipv4 caps src_hw dst_hw tx_buffer repr packet ident frag = Some (Some first, ident + 1, frag1)"
    "tx_at repr ident dst_hw octets (M - 20) frag1" "length first \<le> dc_max_transmission_unit caps"
    "frame_ip caps first = Some out" "is_fragment (dc_checksum caps) repr ident True 0 (take (M - 20) octets) out"
    "M - 20 < length octets"
    by (rule first_step [OF w L dst big M(1,2) buf hw payload])
  have fresh: "\<forall>pa\<in>set ?slots. pa_is_free pa \<and> pa_holds ?packet pa" "?slots \<noteq> []"
    using slots by (auto simp: pas_new_def pa_new_holds) (simp add: pa_is_free_def pa_new_def)
  obtain i slots0 where r0: "rx_at ?packet ?k 0 i slots0"
    "\<forall>m off n data. pas_fragment True (instant_add now timeout) ?k m off n data ?slots
        = pas_fragment True (instant_add now timeout) ?k m off n data slots0"
    by (rule rx_first [OF fresh, of ?k True "instant_add now timeout"])
  let ?data = "take (M - 20) octets"
  have ld: "length ?data = M - 20" using f(6) by simp
  have "piece_of (?packet ?k) True 0 ?data" unfolding piece_of_def ld using f(6) by (simp add: sub_slice_def)
  from rx_step [OF r0(1) this] ld
  obtain slots1 where s1: "pas_fragment True (instant_add now timeout) ?k True 0 (length ?data) ?data slots0 = Some (None, slots1)"
    "rx_at ?packet ?k (M - 20) i slots1"
    by (metis add_0)
  have s1': "pas_fragment True (instant_add now timeout) ?k True 0 (length ?data) ?data ?slots = Some (None, slots1)"
    using r0(2) s1(1) by simp
  have bound: "0 + length ?data \<le> 65515" using ld f(6) l by simp
  have ing: "ipv4_ingress True ip_addrs (dc_checksum rx) now timeout out ?slots = Some (None, slots1)"
    using fragment_received [OF w f(5) bound _ _ cs src s1'] by simp
  have fip: "frame_ip rx first = Some out" using f(4) medium by (simp add: frame_ip_def)
  obtain fuel' where fuel': "fuel = Suc fuel'" using fuel f(6) by (cases fuel) auto
  have "0 < M - 20" "length octets - (M - 20) \<le> fuel'" using M(2) fuel fuel' by auto
  from fragments_drained [OF w l M buf hw cs medium src refl f(2,6) M(3) this(1) s1(2) this(2), of now timeout]
  obtain frames frag2 slots' where d: "egress_frames fuel caps src_hw tx_buffer frag1 = Some (frames, frag2)"
    "fragmenter_is_empty frag2" "\<forall>frame\<in>set frames. length frame \<le> dc_max_transmission_unit caps" "frames \<noteq> []"
    "receive_frames rx ip_addrs now timeout frames slots1 = Some (replicate (length frames - 1) None @ [Some octets], slots')"
    unfolding fuel' by auto
  have "receive_frames rx ip_addrs now timeout (first # frames) ?slots = Some (replicate (length frames) None @ [Some octets], slots')"
    by (rule receive_first [OF fip ing d(4,5)])
  then show ?thesis using f(1,3) d(1-3) by auto
qed

text \<open>A packet that fits is sent in one frame.\<close>

lemma ipv4_emit_append:
  assumes w: "wire_ipv4 repr" and a: "length a = 20"
  obtains h where "length h = 20" "\<forall>x. ipv4_emit repr caps (a @ x) = Some (h @ x)"
proof -
  have hd: "ipv4_header repr (a @ x) = ipv4_header repr a @ x" for x
    using w a by (simp add: ipv4_header_def wire_ipv4_def poke_append)
  have len: "length (ipv4_header repr a) = 20" using a by simp
  have hl: "ipv4p_header_len (poke 10 (be_bytes 2 0) (ipv4_header repr a @ x)) = Some 20" for x
    using w a unfolding hd [symmetric] by (simp add: ipv4p_header_len_def ipv4_header_def wire_ipv4_def)
  define z where "z = poke 10 (be_bytes 2 0) (ipv4_header repr a)"
  have z: "poke 10 (be_bytes 2 0) (ipv4_header repr a @ x) = z @ x" "length z = 20" for x
    using len by (simp_all add: z_def poke_append)
  have "ipv4_emit repr caps (a @ x) = Some ((if checksum_tx (caps_ipv4 caps) then poke 10 (be_bytes 2 (unat (NOT (checksum_data z)))) z
      else z) @ x)" for x
    using ipv4_emit_header [OF w, of "a @ x" caps] a len hl [of x] z
    by (simp add: hd ipv4p_fill_checksum_def ipv4p_set_checksum_def poke_append sub_slice_def)
  then show thesis using that [of "if checksum_tx (caps_ipv4 caps) then poke 10 (be_bytes 2 (unat (NOT (checksum_data z)))) z else z"] z(2)
    by simp
qed

lemma emit_ip_received:
  assumes w: "wire_ipv4 repr" and L: "v4_payload_len repr = length octets" and b: "length b = 20 + length octets"
    and payload: "\<And>rest. length rest = length octets \<Longrightarrow> emit_payload packet (Ipv4_Repr repr) caps rest = Some octets"
    and cs: "checksum_rx (caps_ipv4 rx_cs) \<Longrightarrow> checksum_tx (caps_ipv4 (dc_checksum caps))"
    and src: "is_unicast_v4 ip_addrs (v4_src_addr repr)"
  obtains out where "emit_ip caps packet repr b = Some out" "length out = length b"
    "\<forall>alloc now timeout slots. ipv4_ingress alloc ip_addrs rx_cs now timeout out slots = Some (Some (repr, octets), slots)"
proof -
  let ?cs = "dc_checksum caps" and ?a = "take 20 b"
  have a: "length ?a = 20" using b by simp
  obtain h where h: "length h = 20" "\<forall>x. ipv4_emit repr ?cs (?a @ x) = Some (h @ x)"
    by (rule ipv4_emit_append [OF w a])
  then have "ipv4_emit repr ?cs b = Some (h @ drop 20 b)" by (metis append_take_drop_id)
  then have e: "emit_ip caps packet repr b = Some (h @ octets)"
    using payload [of "drop 20 b"] b h(1) by (simp add: emit_ip_def ipv4_buffer_len_def IPV4_HEADER_LEN_def sub_slice_def)
  have "length (?a @ octets) = 20 + v4_payload_len repr" using a L by simp
  then have p: "ipv4_parse (h @ octets) rx_cs = Some (Inr repr)" "ipv4p_payload (h @ octets) = Some octets"
    using ipv4_emit_parse [OF w _ cs, of "?a @ octets"] h(2) a by simp_all
  obtain c :: u16 where c: "h @ octets = poke 10 (be_bytes 2 (unat c)) (ipv4_header repr (?a @ octets))"
    using ipv4_emit_cases [OF w, of "?a @ octets" ?cs] h(2) a by auto
  have "ipv4p_more_frags (h @ octets) = Some False" "ipv4p_frag_offset (h @ octets) = Some 0"
    using ipv4_header_fields(8,9) [OF w _ c] a by simp_all
  then have "ipv4_ingress alloc ip_addrs rx_cs now timeout (h @ octets) slots = Some (Some (repr, octets), slots)" for alloc now timeout slots
    using p src by (simp add: ipv4_ingress_def ipv4_reassemble_def)
  then show thesis using that e b h(1) by simp
qed

lemma unfragmented_end_to_end:
  assumes w: "wire_ipv4 repr" and L: "v4_payload_len repr = length octets"
    and dst: "\<not> v4_is_unspecified (v4_dst_addr repr)"
    and small: "20 + length octets \<le> dc_max_transmission_unit caps"
    and buf: "\<And>k. length (tx_buffer k) = k" and hw: "length src_hw = 6" "length dst_hw = 6"
    and payload: "\<And>rest. length rest = length octets \<Longrightarrow> emit_payload packet (Ipv4_Repr repr) caps rest = Some octets"
    and cs: "checksum_rx (caps_ipv4 (dc_checksum rx)) \<Longrightarrow> checksum_tx (caps_ipv4 (dc_checksum caps))"
    and medium: "dc_medium rx = dc_medium caps" and src: "is_unicast_v4 ip_addrs (v4_src_addr repr)"
  shows "\<exists>frame. dispatch_ipv4 caps src_hw dst_hw tx_buffer repr packet ident frag = Some (Some frame, ident + 1, frag)
    \<and> receive_frames rx ip_addrs now timeout [frame] slots = Some ([Some octets], slots)"
proof -
  let ?n = "link_len caps + (20 + length octets)"
  let ?b = "drop (link_len caps) (tx_buffer ?n)"
  have lb: "length ?b = 20 + length octets" using buf by simp
  obtain out where out: "emit_ip caps packet repr ?b = Some out" "length out = 20 + length octets"
    "\<forall>alloc now timeout slots. ipv4_ingress alloc ip_addrs (dc_checksum rx) now timeout out slots = Some (Some (repr, octets), slots)"
    using emit_ip_received [OF w L lb payload cs src] lb by auto
  obtain frame where frame: "with_ethernet caps src_hw dst_hw (emit_ip caps packet repr) (tx_buffer ?n) = Some frame"
    "frame_ip caps frame = Some out"
    by (rule with_ethernet_frame [of "tx_buffer ?n" caps "20 + length octets" src_hw dst_hw "emit_ip caps packet repr" out])
      (use buf hw out in simp_all)
  have "dispatch_ipv4 caps src_hw dst_hw tx_buffer repr packet ident frag = Some (Some frame, ident + 1, frag)"
    using dst small L frame(1)
    by (simp add: dispatch_ipv4_def next_ipv4_frag_ident_def ip_buffer_len_def ipv4_buffer_len_def IPV4_HEADER_LEN_def
        link_len_def ethf_buffer_len_def split: if_splits)
  moreover have "frame_ip rx frame = Some out" using frame(2) medium by (simp add: frame_ip_def)
  ultimately show ?thesis using out(3) by simp
qed
section \<open>Datagrams\<close>

lemma poke_in_prefix:
  assumes "length a = 8 + n" "i + length xs \<le> 8 + n"
  shows "poke i xs (a @ b) = poke i xs a @ b"
  by (rule poke_append) (use assms in simp)

text \<open>Into a buffer that is longer than the datagram, a datagram is emitted at the front.\<close>

lemma udp_emit_longer:
  assumes l: "length packet = 8 + length inner" "8 + length inner < 65536"
  shows "udp_emit repr src dst (length inner) (\<lambda>_. inner) caps (packet @ rest)
    = map_option (\<lambda>out. out @ rest) (udp_emit repr src dst (length inner) (\<lambda>_. inner) caps packet)"
proof -
  let ?n = "length inner"
  have n: "unat (of_nat (UDP_HEADER_LEN + ?n) :: u16) = 8 + ?n"
    using l(2) by (subst unat_of_nat) (simp add: UDP_HEADER_LEN_def)
  define p where "p = poke 4 (be_bytes 2 (8 + ?n)) (poke 2 (be_bytes 2 (unat (u_dst_port repr)))
      (poke 0 (be_bytes 2 (unat (u_src_port repr))) packet))"
  have len: "length p = 8 + ?n" using l(1) by (simp add: p_def)
  have u: "be_u16 (sub_slice 4 2 p) = of_nat (8 + ?n)" using l by (simp add: p_def be_u16_be_bytes_of_nat)
  have u': "unat (be_u16 (sub_slice 4 2 p)) = 8 + ?n" unfolding u using l(2) by (subst unat_of_nat) simp
  have sub: "sub_slice 4 2 (q @ rest) = sub_slice 4 2 q" if "length q = 8 + ?n" for q using that by (simp add: sub_slice_def)
  define w where "w = poke 8 inner p"
  have lw: "length w = 8 + ?n" using len by (simp add: w_def)
  have uw: "sub_slice 4 2 (poke 6 xs w) = sub_slice 4 2 p" for xs by (simp add: w_def)
  have emit: "udp_emit repr src dst ?n (\<lambda>_. inner) caps (q @ rest') = (if checksum_tx (caps_udp caps)
      then udpp_fill_checksum src dst (w @ rest') else udpp_set_checksum 0 (w @ rest'))" if "q = packet" for q rest'
  proof -
    have "udpp_write_payload (\<lambda>_. inner) (p @ rest') = Some (w @ rest')"
      using len u' by (simp add: udpp_write_payload_def udpp_payload_def udpp_len_def sub_slice_def w_def poke_in_prefix)
    then show ?thesis
      using l n that by (simp add: udp_emit_def udpp_set_src_port_def udpp_set_dst_port_def udpp_set_len_def
          poke_in_prefix [of _ ?n] p_def)
  qed
  have fill: "udpp_fill_checksum src dst (w @ rest) = map_option (\<lambda>out. out @ rest) (udpp_fill_checksum src dst w)"
  proof -
    have len': "udpp_len (poke 6 xs w @ r) = Some (be_u16 (sub_slice 4 2 p))" for xs r
      using lw uw [of xs] by (simp add: udpp_len_def sub_slice_def)
    have z: "poke 6 (be_bytes 2 x) (q @ rest) = poke 6 (be_bytes 2 x) q @ rest" if "length q = 8 + ?n" for x q
      by (rule poke_in_prefix [OF that]) simp
    have sl: "slice_range 0 (8 + ?n) (poke 6 xs w @ r) = Some (poke 6 xs w)" for xs r
      using lw by (simp add: sub_slice_def)
    show ?thesis
      using lw len' [of _ rest] len' [of _ "[]"] sl [of _ rest] sl [of _ "[]"]
      by (cases "pseudo_header src dst Udp (ucast (be_u16 (sub_slice 4 2 p)))")
        (simp_all add: udpp_fill_checksum_def udpp_set_checksum_def z u' Let_def)
  qed
  have zero: "udpp_set_checksum 0 (w @ rest) = map_option (\<lambda>out. out @ rest) (udpp_set_checksum 0 w)"
    using lw by (simp add: udpp_set_checksum_def poke_in_prefix)
  show ?thesis using emit [OF refl, of rest] emit [OF refl, of "[]"] fill zero by simp
qed

text \<open>The octets of a datagram do not depend on the buffer they are emitted into.\<close>

definition udp_octets :: "udp_repr \<Rightarrow> ip_address \<Rightarrow> ip_address \<Rightarrow> checksum_caps \<Rightarrow> u8 list \<Rightarrow> u8 list" where
  "udp_octets udp src dst caps inner =
     the (udp_emit udp src dst (length inner) (\<lambda>_. inner) caps (replicate (8 + length inner) 0))"

lemma udp_emit_buffer:
  assumes "length packet = 8 + length inner" "length packet' = 8 + length inner" "8 + length inner < 65536"
  shows "udp_emit udp src dst (length inner) (\<lambda>_. inner) caps packet = udp_emit udp src dst (length inner) (\<lambda>_. inner) caps packet'"
proof -
  have body: "poke 6 xs (udp_body udp inner p) = be_bytes 2 (unat (u_src_port udp)) @ be_bytes 2 (unat (u_dst_port udp))
      @ be_bytes 2 (8 + length inner) @ xs @ inner" if "length p = 8 + length inner" "length xs = 2" for p xs
    using that by (simp add: udp_body_def poke_def blit_def)
  have sub: "sub_slice 4 2 (udp_body udp inner p) = be_bytes 2 (8 + length inner)" if "length p = 8 + length inner" for p
    using that by (simp add: udp_body_def)
  have fill: "udpp_fill_checksum src dst (udp_body udp inner packet) = udpp_fill_checksum src dst (udp_body udp inner packet')"
    using assms body sub by (simp add: udpp_fill_checksum_def udpp_set_checksum_def udpp_len_def)
  show ?thesis
    using udp_emit_body [where emit_payload = "\<lambda>_. inner" and n = "length inner"] assms fill body
    by (simp add: udpp_set_checksum_def)
qed

lemma udp_emit_total:
  assumes "length packet = 8 + length inner" "8 + length inner < 65536"
  shows "\<exists>out. udp_emit udp (Ipv4 src) (Ipv4 dst) (length inner) (\<lambda>_. inner) caps packet = Some out \<and> length out = length packet"
proof -
  let ?body = "udp_body udp inner packet"
  have e: "udp_emit udp (Ipv4 src) (Ipv4 dst) (length inner) (\<lambda>_. inner) caps packet = (if checksum_tx (caps_udp caps)
      then udpp_fill_checksum (Ipv4 src) (Ipv4 dst) ?body else udpp_set_checksum 0 ?body)"
    by (rule udp_emit_body) (use assms in simp_all)
  obtain c :: u16 where "udpp_fill_checksum (Ipv4 src) (Ipv4 dst) ?body = Some (poke 6 (be_bytes 2 (unat c)) ?body)"
    by (rule udp_fill_verifies [of "Ipv4 src" "Ipv4 dst" ?body]) (use assms in \<open>simp_all add: udp_body_def\<close>)
  then show ?thesis using e assms(1) by (simp add: udpp_set_checksum_def)
qed

lemma emit_udp_payload:
  assumes n: "8 + length inner < 65536" "8 + length inner \<le> length rest"
    and addr: "v4_src_addr r = src" "v4_dst_addr r = dst"
  shows "\<exists>pl. emit_payload (Payload_Udp udp inner) (Ipv4_Repr r) caps rest = Some pl \<and> length pl = length rest
    \<and> take (8 + length inner) pl = udp_octets udp (Ipv4 src) (Ipv4 dst) (dc_checksum caps) inner"
proof -
  let ?a = "take (8 + length inner) rest" and ?b = "drop (8 + length inner) rest"
  let ?emit = "udp_emit udp (Ipv4 src) (Ipv4 dst) (length inner) (\<lambda>_. inner) (dc_checksum caps)"
  have la: "length ?a = 8 + length inner" using n(2) by simp
  obtain out where out: "?emit ?a = Some out" "length out = length ?a"
    using udp_emit_total [OF la n(1)] by blast
  have "?emit rest = ?emit (?a @ ?b)" by simp
  also have "\<dots> = Some (out @ ?b)" unfolding udp_emit_longer [OF la n(1)] out(1) by simp
  finally have "emit_payload (Payload_Udp udp inner) (Ipv4_Repr r) caps rest = Some (out @ ?b)"
    using n(1) addr by (simp add: emit_payload_def UDP_HEADER_LEN_def)
  moreover have "udp_octets udp (Ipv4 src) (Ipv4 dst) (dc_checksum caps) inner = out"
    using udp_emit_buffer [of ?a inner "replicate (8 + length inner) 0"] la n(1) out(1) by (simp add: udp_octets_def)
  ultimately show ?thesis using out(2) n(2) by (intro exI [of _ "out @ ?b"]) simp
qed

lemma udp_octets_parse:
  assumes "8 + length inner < 65536" "u_dst_port udp \<noteq> 0"
  shows "length (udp_octets udp (Ipv4 src) (Ipv4 dst) caps inner) = 8 + length inner"
    "udp_parse (udp_octets udp (Ipv4 src) (Ipv4 dst) caps inner) (Ipv4 src) (Ipv4 dst) rx_caps = Some (Inr udp)"
    "udpp_payload (udp_octets udp (Ipv4 src) (Ipv4 dst) caps inner) = Some inner"
  using udp_emit_parse [of "replicate (8 + length inner) 0" "length inner" udp "\<lambda>_. inner" "Ipv4 src" "Ipv4 dst" caps rx_caps] assms
  by (auto simp: udp_octets_def)

lemma udp_fragments_arrive:
  assumes "wire_ipv4 repr" and "v4_payload_len repr = 8 + length inner" and "u_dst_port udp \<noteq> 0"
    and "\<not> v4_is_unspecified (v4_dst_addr repr)"
    and "dc_max_transmission_unit caps < 28 + length inner" and "28 + length inner \<le> length (fr_buffer frag)"
    and "ip_mtu caps = Some M" and "20 < M" and "8 dvd (M - 20)"
    and "\<forall>k. length (tx_buffer k) = k" and "length src_hw = 6" and "length dst_hw = 6"
    and "checksum_rx (caps_ipv4 (dc_checksum rx)) \<longrightarrow> checksum_tx (caps_ipv4 (dc_checksum caps))"
    and "dc_medium rx = dc_medium caps" and "is_unicast_v4 ip_addrs (v4_src_addr repr)"
    and "0 < buffer_count" and "0 < max_segment_count"
  shows "\<exists>first frag1 frames frag2 octets slots.
    dispatch_ipv4 caps src_hw dst_hw tx_buffer repr (Payload_Udp udp inner) ident frag = Some (Some first, ident + 1, frag1)
    \<and> egress_frames (8 + length inner) caps src_hw tx_buffer frag1 = Some (frames, frag2) \<and> fragmenter_is_empty frag2
    \<and> (\<forall>frame\<in>set (first # frames). length frame \<le> dc_max_transmission_unit caps)
    \<and> receive_frames rx ip_addrs now timeout (first # frames) (pas_new buffer_count True buffer_size max_segment_count)
        = Some (replicate (length frames) None @ [Some octets], slots)
    \<and> udp_parse octets (Ipv4 (v4_src_addr repr)) (Ipv4 (v4_dst_addr repr)) (dc_checksum rx) = Some (Inr udp)
    \<and> udpp_payload octets = Some inner"
proof -
  let ?o = "udp_octets udp (Ipv4 (v4_src_addr repr)) (Ipv4 (v4_dst_addr repr)) (dc_checksum caps) inner"
  have n: "8 + length inner < 65536" using assms(1,2) by (simp add: wire_ipv4_def)
  note o = udp_octets_parse [OF n assms(3)]
  have lo: "length ?o = 8 + length inner" by (rule o(1))
  have payload: "\<exists>pl. emit_payload (Payload_Udp udp inner) (Ipv4_Repr (repr\<lparr>v4_payload_len := M - 20\<rparr>)) caps rest = Some pl
      \<and> length pl = length rest \<and> take (length ?o) pl = ?o" if "length rest = length (fr_buffer frag) - 20" for rest
    unfolding lo by (rule emit_udp_payload [OF n]) (use that assms(6) in simp_all)
  have big: "dc_max_transmission_unit caps < 20 + length ?o" "20 + length ?o \<le> length (fr_buffer frag)"
    "v4_payload_len repr = length ?o" "length ?o \<le> 8 + length inner"
    using assms(2,5,6) lo by simp_all
  have buf: "length (tx_buffer k) = k" for k using assms(10) by simp
  note e = fragments_end_to_end [where octets = ?o and rx = rx, OF assms(1) big(3) assms(4) big(1,2) assms(7-9) buf assms(11,12)
      payload _ assms(14-17) big(4), of ident now timeout buffer_size]
  show ?thesis using e assms(13) o(2,3) by blast
qed

lemma udp_datagram_arrives:
  assumes w: "wire_ipv4 repr" and L: "v4_payload_len repr = 8 + length inner" and port: "u_dst_port udp \<noteq> 0"
    and dst: "\<not> v4_is_unspecified (v4_dst_addr repr)" and idle: "fragmenter_is_empty frag"
    and len: "28 + length inner \<le> dc_max_transmission_unit caps \<or>
      28 + length inner \<le> length (fr_buffer frag) \<and> (\<exists>M. ip_mtu caps = Some M \<and> 20 < M \<and> 8 dvd (M - 20))"
    and buf: "\<forall>k. length (tx_buffer k) = k" and hw: "length src_hw = 6" "length dst_hw = 6"
    and cs: "checksum_rx (caps_ipv4 (dc_checksum rx)) \<longrightarrow> checksum_tx (caps_ipv4 (dc_checksum caps))"
    and medium: "dc_medium rx = dc_medium caps" and src: "is_unicast_v4 ip_addrs (v4_src_addr repr)"
    and slots: "0 < buffer_count" "0 < max_segment_count"
  shows "\<exists>first frag1 frames frag2 octets slots.
    dispatch_ipv4 caps src_hw dst_hw tx_buffer repr (Payload_Udp udp inner) ident frag = Some (Some first, ident + 1, frag1)
    \<and> egress_frames (8 + length inner) caps src_hw tx_buffer frag1 = Some (frames, frag2) \<and> fragmenter_is_empty frag2
    \<and> (dc_max_transmission_unit caps < 28 + length inner \<longrightarrow> (\<forall>frame\<in>set (first # frames). length frame \<le> dc_max_transmission_unit caps))
    \<and> receive_frames rx ip_addrs now timeout (first # frames) (pas_new buffer_count True buffer_size max_segment_count)
        = Some (replicate (length frames) None @ [Some octets], slots)
    \<and> udp_parse octets (Ipv4 (v4_src_addr repr)) (Ipv4 (v4_dst_addr repr)) (dc_checksum rx) = Some (Inr udp)
    \<and> udpp_payload octets = Some inner"
proof (cases "28 + length inner \<le> dc_max_transmission_unit caps")
  case True
  let ?o = "udp_octets udp (Ipv4 (v4_src_addr repr)) (Ipv4 (v4_dst_addr repr)) (dc_checksum caps) inner"
  let ?slots = "pas_new buffer_count True buffer_size max_segment_count :: ipv4_key packet_assembler list"
  have n: "8 + length inner < 65536" using w L by (simp add: wire_ipv4_def)
  note o = udp_octets_parse [OF n port]
  have lo: "length ?o = 8 + length inner" by (rule o(1))
  have payload: "emit_payload (Payload_Udp udp inner) (Ipv4_Repr repr) caps rest = Some ?o" if "length rest = length ?o" for rest
    using emit_udp_payload [OF n, of rest repr] that lo by fastforce
  have fits: "v4_payload_len repr = length ?o" "20 + length ?o \<le> dc_max_transmission_unit caps" using L lo True by simp_all
  have b: "length (tx_buffer k) = k" for k using buf by simp
  obtain first where first: "dispatch_ipv4 caps src_hw dst_hw tx_buffer repr (Payload_Udp udp inner) ident frag
      = Some (Some first, ident + 1, frag)" "receive_frames rx ip_addrs now timeout [first] ?slots = Some ([Some ?o], ?slots)"
    using unfragmented_end_to_end [OF w fits(1) dst fits(2) b hw payload _ medium src] cs by blast
  obtain frag2 where "egress_frames (Suc (7 + length inner)) caps src_hw tx_buffer frag = Some ([], frag2)" "fragmenter_is_empty frag2"
    using egress_idle [OF idle] by blast
  with first o(2,3) True show ?thesis
    by (intro exI [of _ first] exI [of _ frag] exI [of _ "[]"] exI [of _ frag2] exI [of _ ?o] exI [of _ ?slots]) (simp del: egress_frames.simps)
next
  case False
  with len obtain M where M: "28 + length inner \<le> length (fr_buffer frag)" "ip_mtu caps = Some M" "20 < M" "8 dvd (M - 20)" by auto
  have "dc_max_transmission_unit caps < 28 + length inner" using False by simp
  from udp_fragments_arrive [OF w L port dst this M buf hw cs medium src slots, of ident now timeout buffer_size]
  show ?thesis by blast
qed

text \<open>A UDP datagram that is larger than the MTU arrives as it was sent: \<open>dispatch_ip\<close> sends a first fragment, polling sends
  the others and then finds nothing left to send, no frame is longer than the MTU, and a receiver that reassembles the frames
  hands up nothing until the last one and then the octets of the whole datagram, which parse as its header and its payload. The
  payload of a full fragment is a multiple of 8 octets, the unit of the offset field; the code does not round down.\<close>

theorem fragmented_udp_end_to_end:
  assumes "wire_ipv4 repr" and "v4_payload_len repr = 8 + length inner" and "u_dst_port udp \<noteq> 0"
    and "\<not> v4_is_unspecified (v4_dst_addr repr)"
    and "dc_max_transmission_unit caps < 28 + length inner" and "28 + length inner \<le> length (fr_buffer frag)"
    and "ip_mtu caps = Some M" and "20 < M" and "8 dvd (M - 20)"
    and "\<forall>k. length (tx_buffer k) = k" and "length src_hw = 6" and "length dst_hw = 6"
    and "checksum_rx (caps_ipv4 (dc_checksum rx)) \<longrightarrow> checksum_tx (caps_ipv4 (dc_checksum caps))"
    and "dc_medium rx = dc_medium caps" and "is_unicast_v4 ip_addrs (v4_src_addr repr)"
    and "0 < buffer_count" and "0 < max_segment_count"
  shows "\<exists>first frag1 frames frag2 octets slots.
    dispatch_ipv4 caps src_hw dst_hw tx_buffer repr (Payload_Udp udp inner) ident frag = Some (Some first, ident + 1, frag1)
    \<and> egress_frames (8 + length inner) caps src_hw tx_buffer frag1 = Some (frames, frag2) \<and> fragmenter_is_empty frag2
    \<and> (\<forall>frame\<in>set (first # frames). length frame \<le> dc_max_transmission_unit caps)
    \<and> receive_frames rx ip_addrs now timeout (first # frames) (pas_new buffer_count True buffer_size max_segment_count)
        = Some (replicate (length frames) None @ [Some octets], slots)
    \<and> udp_parse octets (Ipv4 (v4_src_addr repr)) (Ipv4 (v4_dst_addr repr)) (dc_checksum rx) = Some (Inr udp)
    \<and> udpp_payload octets = Some inner"
  by (rule udp_fragments_arrive) (use assms in simp_all)

definition sample_device :: device_caps where
  "sample_device = \<lparr>dc_medium = Medium_Ethernet, dc_max_transmission_unit = 50, dc_max_burst_size = None,
     dc_checksum = \<lparr>caps_ipv4 = Checksum_Both, caps_udp = Checksum_Both, caps_tcp = Checksum_Both,
       caps_icmpv4 = Checksum_Both, caps_icmpv6 = Checksum_Both\<rparr>\<rparr>"

theorem fragmented_udp_end_to_end_witness:
  "\<exists>first frag1 frames frag2 octets slots.
    dispatch_ipv4 sample_device [2, 0, 0, 0, 0, 1] [2, 0, 0, 0, 0, 2] (\<lambda>k. replicate k 0) (sample_ipv4\<lparr>v4_payload_len := 48\<rparr>)
      (Payload_Udp \<lparr>u_src_port = 4000, u_dst_port = 53\<rparr> (replicate 40 7)) 9 (fragmenter_new 1500) = Some (Some first, 10, frag1)
    \<and> egress_frames 48 sample_device [2, 0, 0, 0, 0, 1] (\<lambda>k. replicate k 0) frag1 = Some (frames, frag2) \<and> fragmenter_is_empty frag2
    \<and> (\<forall>frame\<in>set (first # frames). length frame \<le> 50)
    \<and> receive_frames sample_device [] 0 5 (first # frames) (pas_new 1 True 0 4)
        = Some (replicate (length frames) None @ [Some octets], slots)
    \<and> udp_parse octets (Ipv4 [192, 168, 1, 1]) (Ipv4 [192, 168, 1, 2]) (dc_checksum sample_device)
        = Some (Inr \<lparr>u_src_port = 4000, u_dst_port = 53\<rparr>)
    \<and> udpp_payload octets = Some (replicate 40 7)"
proof -
  have "replicate 4 x = [x, x, x, x]" for x :: u8 by (simp add: eval_nat_numeral)
  then have "is_unicast_v4 [] [192, 168, 1, 1]"
    by (simp add: is_unicast_v4_def is_broadcast_v4_def v4_is_unicast_def v4_is_broadcast_def v4_is_multicast_def
        v4_is_unspecified_def map_filter_def)
  then show ?thesis
    using fragmented_udp_end_to_end [of "sample_ipv4\<lparr>v4_payload_len := 48\<rparr>" "replicate 40 7"
        "\<lparr>u_src_port = 4000, u_dst_port = 53\<rparr>" sample_device "fragmenter_new 1500" 36 "\<lambda>k. replicate k 0"
        "[2, 0, 0, 0, 0, 1]" "[2, 0, 0, 0, 0, 2]" sample_device "[]" 1 4 9 0 5 0]
    by (simp add: sample_ipv4_def sample_device_def wire_ipv4_def protocol_from_u8_def v4_is_unspecified_def ip_mtu_def
        ETH_HEADER_LEN_def checked_sub_def fragmenter_new_def checksum_tx_def
        del: egress_frames.simps receive_frames.simps)
qed

text \<open>C37. The offset field counts units of 8 octets, and what is not a multiple is lost: the fragment that the
  sender takes from offset \<open>off\<close> of the packet is announced, and put by the receiver, at \<open>off\<close> rounded down to a multiple of 8.
  \<open>dispatch_ip\<close> cuts at the MTU without rounding, so that with a payload of 1466 octets per frame (an Ethernet MTU of 1500 with its
  header counted) the second fragment lands two octets too early.\<close>

theorem fragment_offset_rounds_down:
  assumes "wire_ipv4 repr" and "20 \<le> length packet"
  shows "\<exists>out. do { p \<leftarrow> ipv4_emit repr caps packet; set_fragment ident m off caps p } = Some out
    \<and> ipv4p_frag_offset out = Some (of_nat (unat off div 8 * 8))"
proof -
  obtain c where c: "ipv4_emit repr caps packet = Some (poke 10 (be_bytes 2 (unat (c :: u16))) (ipv4_header repr packet))"
    by (rule ipv4_emit_cases [OF assms])
  obtain c' where c': "set_fragment ident m off caps (poke 10 (be_bytes 2 (unat c)) (ipv4_header repr packet))
      = Some (fragment_header repr ident m off c' packet)"
    by (rule set_fragment_header [OF assms, of ident m off caps c])
  have "push_bit 3 (drop_bit 3 off) = of_nat (unat off div 8 * 8)"
    using u16_less [of off] by (simp add: push_bit_eq_mult drop_bit_eq_div word_unat_eq_iff unat_word_ariths unat_of_nat unat_div_distrib)
  then show ?thesis using c c' fragment_header_fields(10) [OF assms refl] by simp
qed

theorem fragment_offset_rounds_down_witness:
  "\<exists>out. do { p \<leftarrow> ipv4_emit sample_ipv4 (dc_checksum sample_device) (replicate 24 0);
      set_fragment 9 True 1466 (dc_checksum sample_device) p } = Some out \<and> ipv4p_frag_offset out = Some 1464"
  using fragment_offset_rounds_down [of sample_ipv4 "replicate 24 0" "dc_checksum sample_device" 9 True 1466]
  by (simp add: sample_ipv4_def wire_ipv4_def protocol_from_u8_def)

end
