(* ===== verification/Udp_Socket.thy ===== *)
theory Udp_Socket
  imports Packet_Buffer Ipv4_Fragments Tcp_Timers
begin

text \<open>
  The UDP socket, \<^verbatim>\<open>src/socket/udp.rs\<close>, and \<open>InterfaceInner::process_udp\<close> of \<^verbatim>\<open>src/iface/interface/udp.rs\<close>, which
  hands a datagram to every socket that accepts it. The socket keeps datagrams in two packet buffers; of the context it
  uses the addresses of the interface, here an argument. The wakers are not modelled.

  At the end the whole path is put together: \<open>send_slice\<close> and \<open>dispatch\<close> of one socket, \<open>dispatch_ip\<close> with its
  fragments, reassembly, \<open>process_udp\<close>, and \<open>recv\<close> of another socket.
\<close>

section \<open>State\<close>

record udp_metadata =
  um_endpoint :: ip_endpoint
  um_local_address :: "ip_address option"
  um_meta :: u32

text \<open>\<open>UdpMetadata\<close> from an endpoint.\<close>

definition udp_metadata_from :: "ip_endpoint \<Rightarrow> udp_metadata" where
  "udp_metadata_from value' = \<lparr>um_endpoint = value', um_local_address = None, um_meta = 0\<rparr>"

datatype udp_bind_error = Bind_InvalidState | Bind_Unaddressable
datatype udp_send_error = Send_Unaddressable | Send_BufferFull
datatype udp_recv_error = Recv_Exhausted | Recv_Truncated

record udp_socket =
  us_endpoint :: ip_listen_endpoint
  us_rx_buffer :: "udp_metadata packet_buffer"
  us_tx_buffer :: "udp_metadata packet_buffer"
  us_hop_limit :: "u8 option"

definition udp_new :: "udp_metadata packet_buffer \<Rightarrow> udp_metadata packet_buffer \<Rightarrow> udp_socket" where
  "udp_new rx_buffer tx_buffer =
     \<lparr>us_endpoint = listen_endpoint_default, us_rx_buffer = rx_buffer, us_tx_buffer = tx_buffer, us_hop_limit = None\<rparr>"

definition udp_set_hop_limit :: "u8 option \<Rightarrow> udp_socket \<Rightarrow> udp_socket option" where
  "udp_set_hop_limit hop_limit s = (if hop_limit = Some 0 then None else Some (s\<lparr>us_hop_limit := hop_limit\<rparr>))"

definition udp_is_open :: "udp_socket \<Rightarrow> bool" where "udp_is_open s \<longleftrightarrow> lep_port (us_endpoint s) \<noteq> 0"

definition udp_bind :: "ip_listen_endpoint \<Rightarrow> udp_socket \<Rightarrow> (udp_bind_error + unit) \<times> udp_socket" where
  "udp_bind endpoint s =
     (if lep_port endpoint = 0 then (Inl Bind_Unaddressable, s)
      else if udp_is_open s then (Inl Bind_InvalidState, s)
      else (Inr (), s\<lparr>us_endpoint := endpoint\<rparr>))"

definition udp_close :: "udp_socket \<Rightarrow> udp_socket" where
  "udp_close s = s\<lparr>us_endpoint := listen_endpoint_default, us_tx_buffer := pb_reset (us_tx_buffer s),
     us_rx_buffer := pb_reset (us_rx_buffer s)\<rparr>"

definition udp_can_send :: "udp_socket \<Rightarrow> bool" where "udp_can_send s \<longleftrightarrow> \<not> pb_is_full (us_tx_buffer s)"
definition udp_can_recv :: "udp_socket \<Rightarrow> bool" where "udp_can_recv s \<longleftrightarrow> \<not> pb_is_empty (us_rx_buffer s)"

definition udp_packet_recv_capacity :: "udp_socket \<Rightarrow> nat" where
  "udp_packet_recv_capacity s = pb_packet_capacity (us_rx_buffer s)"
definition udp_packet_send_capacity :: "udp_socket \<Rightarrow> nat" where
  "udp_packet_send_capacity s = pb_packet_capacity (us_tx_buffer s)"
definition udp_payload_recv_capacity :: "udp_socket \<Rightarrow> nat" where
  "udp_payload_recv_capacity s = pb_payload_capacity (us_rx_buffer s)"
definition udp_payload_send_capacity :: "udp_socket \<Rightarrow> nat" where
  "udp_payload_send_capacity s = pb_payload_capacity (us_tx_buffer s)"

section \<open>The application\<close>

definition udp_unaddressable :: "udp_metadata \<Rightarrow> udp_socket \<Rightarrow> bool" where
  "udp_unaddressable meta s \<longleftrightarrow> lep_port (us_endpoint s) = 0 \<or> addr_is_unspecified (ep_addr (um_endpoint meta))
     \<or> ep_port (um_endpoint meta) = 0"

text \<open>\<open>send\<close> returns the room for the payload, a range of the storage.\<close>

definition udp_send ::
  "nat \<Rightarrow> udp_metadata \<Rightarrow> udp_socket \<Rightarrow> ((udp_send_error + (nat \<times> nat)) \<times> udp_socket) option" where
  "udp_send sz meta s =
     (if udp_unaddressable meta s then Some (Inl Send_Unaddressable, s)
      else do { (res, tx) \<leftarrow> pb_enqueue sz meta (us_tx_buffer s);
                Some (case res of Inl _ \<Rightarrow> Inl Send_BufferFull | Inr buf \<Rightarrow> Inr buf, s\<lparr>us_tx_buffer := tx\<rparr>) })"

definition udp_send_with ::
  "nat \<Rightarrow> udp_metadata \<Rightarrow> (u8 list \<Rightarrow> u8 list \<times> nat) \<Rightarrow> udp_socket \<Rightarrow> ((udp_send_error + nat) \<times> udp_socket) option" where
  "udp_send_with max_size meta f s =
     (if udp_unaddressable meta s then Some (Inl Send_Unaddressable, s)
      else do { (res, tx) \<leftarrow> pb_enqueue_with_infallible max_size meta f (us_tx_buffer s);
                Some (case res of Inl _ \<Rightarrow> Inl Send_BufferFull | Inr n \<Rightarrow> Inr n, s\<lparr>us_tx_buffer := tx\<rparr>) })"

definition udp_send_slice ::
  "u8 list \<Rightarrow> udp_metadata \<Rightarrow> udp_socket \<Rightarrow> ((udp_send_error + unit) \<times> udp_socket) option" where
  "udp_send_slice data meta s =
     do { (res, s) \<leftarrow> udp_send (length data) meta s;
          (case res of
            Inl e \<Rightarrow> Some (Inl e, s)
          | Inr buf \<Rightarrow> do { tx \<leftarrow> pb_fill buf data (us_tx_buffer s); Some (Inr (), s\<lparr>us_tx_buffer := tx\<rparr>) }) }"

definition udp_recv :: "udp_socket \<Rightarrow> ((udp_recv_error + (u8 list \<times> udp_metadata)) \<times> udp_socket) option" where
  "udp_recv s =
     do { (res, rx) \<leftarrow> pb_dequeue (us_rx_buffer s);
          Some (case res of Inl _ \<Rightarrow> Inl Recv_Exhausted | Inr (meta, payload) \<Rightarrow> Inr (payload, meta), s\<lparr>us_rx_buffer := rx\<rparr>) }"

text \<open>The caller's slice \<open>data\<close>, before and after.\<close>

definition udp_recv_slice ::
  "u8 list \<Rightarrow> udp_socket \<Rightarrow> ((udp_recv_error + (nat \<times> udp_metadata)) \<times> u8 list \<times> udp_socket) option" where
  "udp_recv_slice data s =
     do { (res, s) \<leftarrow> udp_recv s;
          Some (case res of
            Inl _ \<Rightarrow> (Inl Recv_Exhausted, data, s)
          | Inr (buffer, meta) \<Rightarrow>
              if length data < length buffer then (Inl Recv_Truncated, data, s)
              else let l = min (length data) (length buffer) in (Inr (l, meta), blit 0 (take l buffer) data, s)) }"

definition udp_peek :: "udp_socket \<Rightarrow> ((udp_recv_error + (u8 list \<times> udp_metadata)) \<times> udp_socket) option" where
  "udp_peek s =
     do { (res, rx) \<leftarrow> pb_peek (us_rx_buffer s);
          Some (case res of Inl _ \<Rightarrow> Inl Recv_Exhausted | Inr (meta, payload) \<Rightarrow> Inr (payload, meta), s\<lparr>us_rx_buffer := rx\<rparr>) }"

definition udp_peek_slice ::
  "u8 list \<Rightarrow> udp_socket \<Rightarrow> ((udp_recv_error + (nat \<times> udp_metadata)) \<times> u8 list \<times> udp_socket) option" where
  "udp_peek_slice data s =
     do { (res, s) \<leftarrow> udp_peek s;
          Some (case res of
            Inl e \<Rightarrow> (Inl e, data, s)
          | Inr (buffer, meta) \<Rightarrow>
              if length data < length buffer then (Inl Recv_Truncated, data, s)
              else let l = min (length data) (length buffer) in (Inr (l, meta), blit 0 (take l buffer) data, s)) }"

section \<open>The network\<close>

definition cx_is_broadcast :: "ip_cidr list \<Rightarrow> ip_address \<Rightarrow> bool" where
  "cx_is_broadcast ip_addrs address = (case address of Ipv4 a \<Rightarrow> is_broadcast_v4 ip_addrs a | Ipv6 _ \<Rightarrow> False)"

definition udp_accepts :: "ip_cidr list \<Rightarrow> ip_repr \<Rightarrow> udp_repr \<Rightarrow> udp_socket \<Rightarrow> bool" where
  "udp_accepts ip_addrs ip repr s \<longleftrightarrow>
     (if lep_port (us_endpoint s) \<noteq> u_dst_port repr then False
      else \<not> (lep_addr (us_endpoint s) \<noteq> None \<and> lep_addr (us_endpoint s) \<noteq> Some (ip_dst_addr ip)
             \<and> \<not> cx_is_broadcast ip_addrs (ip_dst_addr ip) \<and> \<not> addr_is_multicast (ip_dst_addr ip)))"

definition udp_process ::
  "ip_cidr list \<Rightarrow> u32 \<Rightarrow> ip_repr \<Rightarrow> udp_repr \<Rightarrow> u8 list \<Rightarrow> udp_socket \<Rightarrow> udp_socket option" where
  "udp_process ip_addrs meta ip repr payload s =
     do { rust_assert (udp_accepts ip_addrs ip repr s);
          let metadata = \<lparr>um_endpoint = \<lparr>ep_addr = ip_src_addr ip, ep_port = u_src_port repr\<rparr>,
                          um_local_address = Some (ip_dst_addr ip), um_meta = meta\<rparr>;
          (_, rx) \<leftarrow> pb_put metadata payload (us_rx_buffer s);
          Some (s\<lparr>us_rx_buffer := rx\<rparr>) }"

text \<open>
  The closure of \<open>dispatch\<close>: the source address, if there is one, and what \<open>emit\<close> makes of the datagram. \<open>emit\<close> changes
  the context and may panic, and \<open>IpRepr::new\<close> panics when the addresses are of different versions: \<open>Inr None\<close>.
\<close>

definition udp_source_address ::
  "(ip_address \<Rightarrow> ip_address option) \<Rightarrow> ip_listen_endpoint \<Rightarrow> udp_metadata \<Rightarrow> ip_address option" where
  "udp_source_address get_source_address endpoint packet_meta = (case um_local_address packet_meta of
      Some s \<Rightarrow> Some s
    | None \<Rightarrow> (case lep_addr endpoint of Some addr \<Rightarrow> Some addr | None \<Rightarrow> get_source_address (ep_addr (um_endpoint packet_meta))))"

definition udp_dispatch_one ::
  "(ip_address \<Rightarrow> ip_address option) \<Rightarrow> ('cx \<Rightarrow> u32 \<Rightarrow> ip_repr \<times> udp_repr \<times> u8 list \<Rightarrow> (('e + unit) \<times> 'cx) option) \<Rightarrow> 'cx \<Rightarrow>
   ip_listen_endpoint \<Rightarrow> u8 \<Rightarrow> udp_metadata \<Rightarrow> u8 list \<Rightarrow> ('e \<times> 'cx) + 'cx option" where
  "udp_dispatch_one get_source_address emit cx endpoint hop_limit packet_meta payload =
     (case udp_source_address get_source_address endpoint packet_meta of
        None \<Rightarrow> Inr (Some cx)
      | Some src_addr \<Rightarrow>
          let repr = \<lparr>u_src_port = lep_port endpoint, u_dst_port = ep_port (um_endpoint packet_meta)\<rparr>
          in case ip_repr_new src_addr (ep_addr (um_endpoint packet_meta)) Udp (udp_header_len repr + length payload) hop_limit of
               None \<Rightarrow> Inr None
             | Some ip \<Rightarrow> (case emit cx (um_meta packet_meta) (ip, repr, payload) of
                   None \<Rightarrow> Inr None
                 | Some (Inl e, cx) \<Rightarrow> Inl (e, cx)
                 | Some (Inr _, cx) \<Rightarrow> Inr (Some cx)))"

definition udp_dispatch ::
  "(ip_address \<Rightarrow> ip_address option) \<Rightarrow> ('cx \<Rightarrow> u32 \<Rightarrow> ip_repr \<times> udp_repr \<times> u8 list \<Rightarrow> (('e + unit) \<times> 'cx) option) \<Rightarrow> 'cx \<Rightarrow>
   udp_socket \<Rightarrow> (('e + unit) \<times> 'cx \<times> udp_socket) option" where
  "udp_dispatch get_source_address emit cx s =
     do { let hop_limit = (case us_hop_limit s of Some h \<Rightarrow> h | None \<Rightarrow> 64);
          (res, tx) \<leftarrow> pb_dequeue_with (\<lambda>packet_meta payload_buf.
            (packet_meta, payload_buf,
             udp_dispatch_one get_source_address emit cx (us_endpoint s) hop_limit packet_meta payload_buf)) (us_tx_buffer s);
          let s = s\<lparr>us_tx_buffer := tx\<rparr>;
          case res of
            Inl _ \<Rightarrow> Some (Inr (), cx, s)
          | Inr (Inl (e, cx)) \<Rightarrow> Some (Inl e, cx, s)
          | Inr (Inr None) \<Rightarrow> None
          | Inr (Inr (Some cx)) \<Rightarrow> Some (Inr (), cx, s) }"

definition udp_poll_at :: "udp_socket \<Rightarrow> poll_at" where
  "udp_poll_at s = (if pb_is_empty (us_tx_buffer s) then PollIngress else PollNow)"

text \<open>
  \<open>process_udp\<close>: whether a socket has received the datagram, and the sockets. What follows when none has (the loop over DNS sockets, or
  an ICMP message) is not modelled.
\<close>

fun udp_deliver :: "ip_cidr list \<Rightarrow> u32 \<Rightarrow> ip_repr \<Rightarrow> udp_repr \<Rightarrow> u8 list \<Rightarrow> udp_socket list \<Rightarrow> (bool \<times> udp_socket list) option" where
  "udp_deliver ip_addrs meta ip repr payload [] = Some (False, [])"
| "udp_deliver ip_addrs meta ip repr payload (s # ss) =
     (if udp_accepts ip_addrs ip repr s
      then do { s \<leftarrow> udp_process ip_addrs meta ip repr payload s;
                (_, ss) \<leftarrow> udp_deliver ip_addrs meta ip repr payload ss; Some (True, s # ss) }
      else do { (is_received, ss) \<leftarrow> udp_deliver ip_addrs meta ip repr payload ss; Some (is_received, s # ss) })"

definition process_udp ::
  "ip_cidr list \<Rightarrow> checksum_caps \<Rightarrow> u32 \<Rightarrow> ip_repr \<Rightarrow> u8 list \<Rightarrow> udp_socket list \<Rightarrow> (bool \<times> udp_socket list) option" where
  "process_udp ip_addrs caps meta ip ip_payload sockets =
     do { checked \<leftarrow> udpp_new_checked ip_payload;
          case checked of
            Inl _ \<Rightarrow> Some (False, sockets)
          | Inr udp_packet \<Rightarrow>
              do { parsed \<leftarrow> udp_parse udp_packet (ip_src_addr ip) (ip_dst_addr ip) caps;
                   case parsed of
                     Inl _ \<Rightarrow> Some (False, sockets)
                   | Inr repr \<Rightarrow> do { payload \<leftarrow> udpp_payload udp_packet;
                                       udp_deliver ip_addrs meta ip repr payload sockets } } }"

section \<open>The invariant\<close>

definition udp_inv :: "udp_socket \<Rightarrow> bool" where
  "udp_inv s \<longleftrightarrow> pb_inv (us_rx_buffer s) \<and> pb_inv (us_tx_buffer s)"

abbreviation udp_incoming :: "udp_socket \<Rightarrow> (udp_metadata \<times> u8 list) list" where
  "udp_incoming s \<equiv> pb_packets (us_rx_buffer s)"

abbreviation udp_outgoing :: "udp_socket \<Rightarrow> (udp_metadata \<times> u8 list) list" where
  "udp_outgoing s \<equiv> pb_packets (us_tx_buffer s)"

lemma udp_new_inv [simp]:
  "udp_inv (udp_new (pb_new rm rp) (pb_new tm tp))"
  "udp_incoming (udp_new (pb_new rm rp) (pb_new tm tp)) = []" "udp_outgoing (udp_new (pb_new rm rp) (pb_new tm tp)) = []"
  "us_endpoint (udp_new rx tx) = listen_endpoint_default"
  by (simp_all add: udp_new_def udp_inv_def)

lemma udp_close_inv [simp]:
  "udp_inv (udp_close s)" "udp_incoming (udp_close s) = []" "udp_outgoing (udp_close s) = []"
  "us_endpoint (udp_close s) = listen_endpoint_default"
  by (simp_all add: udp_close_def udp_inv_def)

lemma udp_bind_inv:
  assumes "udp_inv s"
  shows "udp_inv (snd (udp_bind e s))" "udp_incoming (snd (udp_bind e s)) = udp_incoming s"
    "udp_outgoing (snd (udp_bind e s)) = udp_outgoing s"
  using assms by (simp_all add: udp_bind_def udp_inv_def)

lemma udp_send_slice_put:
  "\<not> udp_unaddressable meta s \<Longrightarrow> udp_send_slice data meta s =
     do { (ok, tx) \<leftarrow> pb_put meta data (us_tx_buffer s);
          Some (if ok then Inr () else Inl Send_BufferFull, s\<lparr>us_tx_buffer := tx\<rparr>) }"
proof (cases "pb_enqueue (length data) meta (us_tx_buffer s)")
  case (Some p)
  assume "\<not> udp_unaddressable meta s"
  with Some show ?thesis
    by (cases p; cases "fst p") (auto simp: udp_send_slice_def udp_send_def pb_put_def comp_def intro: option.exhaust split: prod.splits bind_splits)
qed (simp add: udp_send_slice_def udp_send_def pb_put_def)

lemma udp_send_slice_spec:
  assumes "udp_inv s"
  obtains (unaddressable) "udp_unaddressable meta s" "udp_send_slice data meta s = Some (Inl Send_Unaddressable, s)"
  | (full) tx where "\<not> udp_unaddressable meta s" "pb_inv tx" "pb_packets tx = udp_outgoing s"
      "udp_send_slice data meta s = Some (Inl Send_BufferFull, s\<lparr>us_tx_buffer := tx\<rparr>)"
  | (sent) tx where "\<not> udp_unaddressable meta s" "pb_inv tx" "pb_packets tx = udp_outgoing s @ [(meta, data)]"
      "udp_send_slice data meta s = Some (Inr (), s\<lparr>us_tx_buffer := tx\<rparr>)"
proof (cases "udp_unaddressable meta s")
  case True
  then show thesis by (intro unaddressable) (simp_all add: udp_send_slice_def udp_send_def)
next
  case False
  from pb_put_spec [of "us_tx_buffer s" meta data] assms
  obtain ok tx where "pb_put meta data (us_tx_buffer s) = Some (ok, tx)" "pb_inv tx"
    "pb_packets tx = udp_outgoing s @ (if ok then [(meta, data)] else [])"
    by (auto simp: udp_inv_def)
  with False show thesis using full [of tx] sent [of tx] by (cases ok) (simp_all add: udp_send_slice_put)
qed

lemma udp_recv_spec:
  assumes "udp_inv s"
  obtains rx where "udp_recv s = Some (case udp_incoming s of [] \<Rightarrow> Inl Recv_Exhausted | (m, d) # _ \<Rightarrow> Inr (d, m), s\<lparr>us_rx_buffer := rx\<rparr>)"
    "pb_inv rx" "pb_packets rx = tl (udp_incoming s)"
  using pb_dequeue_spec [of "us_rx_buffer s"] assms that by (auto simp: udp_recv_def udp_inv_def split: list.splits)

lemma udp_peek_spec:
  assumes "udp_inv s"
  obtains rx where "udp_peek s = Some (case udp_incoming s of [] \<Rightarrow> Inl Recv_Exhausted | (m, d) # _ \<Rightarrow> Inr (d, m), s\<lparr>us_rx_buffer := rx\<rparr>)"
    "pb_inv rx" "pb_packets rx = udp_incoming s"
  using pb_peek_spec [of "us_rx_buffer s"] assms that by (auto simp: udp_peek_def udp_inv_def split: list.splits)

definition received_metadata :: "u32 \<Rightarrow> ip_repr \<Rightarrow> udp_repr \<Rightarrow> udp_metadata" where
  "received_metadata meta ip repr = \<lparr>um_endpoint = \<lparr>ep_addr = ip_src_addr ip, ep_port = u_src_port repr\<rparr>,
     um_local_address = Some (ip_dst_addr ip), um_meta = meta\<rparr>"

lemma udp_process_spec:
  assumes "udp_inv s" "udp_accepts ip_addrs ip repr s"
  obtains ok rx where "udp_process ip_addrs meta ip repr payload s = Some (s\<lparr>us_rx_buffer := rx\<rparr>)"
    "pb_put (received_metadata meta ip repr) payload (us_rx_buffer s) = Some (ok, rx)"
    "pb_inv rx" "pb_packets rx = udp_incoming s @ (if ok then [(received_metadata meta ip repr, payload)] else [])"
proof -
  from pb_put_spec [of "us_rx_buffer s" "received_metadata meta ip repr" payload] assms(1)
  obtain ok rx where "pb_put (received_metadata meta ip repr) payload (us_rx_buffer s) = Some (ok, rx)" "pb_inv rx"
    "pb_packets rx = udp_incoming s @ (if ok then [(received_metadata meta ip repr, payload)] else [])"
    by (auto simp: udp_inv_def)
  with assms(2) that show thesis by (simp add: udp_process_def received_metadata_def)
qed

text \<open>\<open>dispatch\<close> looks at the oldest datagram and takes it out unless \<open>emit\<close> refuses it.\<close>

lemma udp_dispatch_spec:
  fixes src :: "ip_address \<Rightarrow> ip_address option" and cx :: 'cx
    and emit :: "'cx \<Rightarrow> u32 \<Rightarrow> ip_repr \<times> udp_repr \<times> u8 list \<Rightarrow> (('e + unit) \<times> 'cx) option"
  assumes "udp_inv s"
  defines "one \<equiv> udp_dispatch_one src emit cx (us_endpoint s) (case us_hop_limit s of Some h \<Rightarrow> h | None \<Rightarrow> 64)"
  obtains tx where "pb_inv tx" "pb_packets tx = (case udp_outgoing s of [] \<Rightarrow> []
      | (m, d) # rest \<Rightarrow> (case one m d of Inr _ \<Rightarrow> rest | Inl _ \<Rightarrow> udp_outgoing s))"
    "udp_dispatch src emit cx s = (case udp_outgoing s of [] \<Rightarrow> Some (Inr (), cx, s\<lparr>us_tx_buffer := tx\<rparr>)
      | (m, d) # _ \<Rightarrow> (case one m d of Inl (e, cx) \<Rightarrow> Some (Inl e, cx, s\<lparr>us_tx_buffer := tx\<rparr>)
          | Inr None \<Rightarrow> None | Inr (Some cx) \<Rightarrow> Some (Inr (), cx, s\<lparr>us_tx_buffer := tx\<rparr>)))"
proof -
  from pb_dequeue_with_spec [of "us_tx_buffer s" one] assms(1)
  obtain tx where tx: "pb_dequeue_with (\<lambda>h d. (h, d, one h d)) (us_tx_buffer s)
      = Some (case udp_outgoing s of [] \<Rightarrow> Inl Empty | (h, d) # _ \<Rightarrow> Inr (one h d), tx)"
    "pb_inv tx" "pb_packets tx = (case udp_outgoing s of [] \<Rightarrow> []
      | (m, d) # rest \<Rightarrow> (case one m d of Inr _ \<Rightarrow> rest | Inl _ \<Rightarrow> udp_outgoing s))"
    by (auto simp: udp_inv_def)
  have "udp_dispatch src emit cx s = (case udp_outgoing s of [] \<Rightarrow> Some (Inr (), cx, s\<lparr>us_tx_buffer := tx\<rparr>)
      | (m, d) # _ \<Rightarrow> (case one m d of Inl (e, cx) \<Rightarrow> Some (Inl e, cx, s\<lparr>us_tx_buffer := tx\<rparr>)
          | Inr None \<Rightarrow> None | Inr (Some cx) \<Rightarrow> Some (Inr (), cx, s\<lparr>us_tx_buffer := tx\<rparr>)))"
    using tx(1) by (simp add: udp_dispatch_def one_def Let_def split: list.split sum.split option.split prod.split)
  with tx(2,3) show thesis by (rule that)
qed

section \<open>The socket as two queues of datagrams\<close>

text \<open>What the application and the interface do with a socket, and what they see of it.\<close>

datatype udp_event =
    Ev_Bind ip_listen_endpoint
  | Ev_Close
  | Ev_Send "u8 list" udp_metadata
  | Ev_Recv
  | Ev_Peek
  | Ev_Process "ip_cidr list" u32 ip_repr udp_repr "u8 list"
  | Ev_Dispatch "ip_address \<Rightarrow> ip_address option" bool

datatype udp_output =
    Out_Bind "udp_bind_error + unit"
  | Out_Send "udp_send_error + unit"
  | Out_Recv "udp_recv_error + (u8 list \<times> udp_metadata)"
  | Out_Dispatch "unit + unit" "(ip_repr \<times> udp_repr \<times> u8 list) list"
  | Out_Nothing

text \<open>\<open>emit\<close> of an interface whose device is \<open>ready\<close> or not, which records what it is handed.\<close>

definition record_emit :: "bool \<Rightarrow> (ip_repr \<times> udp_repr \<times> u8 list) list \<Rightarrow> u32 \<Rightarrow> ip_repr \<times> udp_repr \<times> u8 list \<Rightarrow>
    ((unit + unit) \<times> (ip_repr \<times> udp_repr \<times> u8 list) list) option" where
  "record_emit ready sent meta packet = Some (if ready then (Inr (), sent @ [packet]) else (Inl (), sent))"

fun udp_step :: "udp_event \<Rightarrow> udp_socket \<Rightarrow> (udp_output \<times> udp_socket) option" where
  "udp_step (Ev_Bind e) s = (case udp_bind e s of (r, s) \<Rightarrow> Some (Out_Bind r, s))"
| "udp_step Ev_Close s = Some (Out_Nothing, udp_close s)"
| "udp_step (Ev_Send data meta) s = do { (r, s) \<leftarrow> udp_send_slice data meta s; Some (Out_Send r, s) }"
| "udp_step Ev_Recv s = do { (r, s) \<leftarrow> udp_recv s; Some (Out_Recv r, s) }"
| "udp_step Ev_Peek s = do { (r, s) \<leftarrow> udp_peek s; Some (Out_Recv r, s) }"
| "udp_step (Ev_Process ip_addrs meta ip repr payload) s =
     (if udp_accepts ip_addrs ip repr s
      then do { s \<leftarrow> udp_process ip_addrs meta ip repr payload s; Some (Out_Nothing, s) } else Some (Out_Nothing, s))"
| "udp_step (Ev_Dispatch src ready) s =
     do { (r, sent, s) \<leftarrow> udp_dispatch src (record_emit ready) [] s; Some (Out_Dispatch r sent, s) }"

fun udp_run :: "udp_event list \<Rightarrow> udp_socket \<Rightarrow> (udp_output list \<times> udp_socket) option" where
  "udp_run [] s = Some ([], s)"
| "udp_run (e # es) s = do { (out, s) \<leftarrow> udp_step e s; (outs, s) \<leftarrow> udp_run es s; Some (out # outs, s) }"

text \<open>
  The specification: an endpoint and two queues. A datagram may be refused or, on arrival, dropped, for lack of room; nothing
  else is left open. \<open>addressed\<close> is the packet that a datagram becomes.
\<close>

record udp_queues =
  uq_endpoint :: ip_listen_endpoint
  uq_incoming :: "(udp_metadata \<times> u8 list) list"
  uq_outgoing :: "(udp_metadata \<times> u8 list) list"

definition udp_abs :: "udp_socket \<Rightarrow> udp_queues" where
  "udp_abs s = \<lparr>uq_endpoint = us_endpoint s, uq_incoming = udp_incoming s, uq_outgoing = udp_outgoing s\<rparr>"

definition addressed :: "ip_listen_endpoint \<Rightarrow> ip_address \<Rightarrow> udp_metadata \<Rightarrow> u8 list \<Rightarrow> ip_repr \<times> udp_repr \<times> u8 list \<Rightarrow> bool" where
  "addressed endpoint src m data packet \<longleftrightarrow> (case packet of (ip, repr, payload) \<Rightarrow> payload = data
     \<and> ip_src_addr ip = src \<and> ip_dst_addr ip = ep_addr (um_endpoint m) \<and> ip_next_header ip = Udp
     \<and> ip_payload_len ip = 8 + length data \<and> u_src_port repr = lep_port endpoint \<and> u_dst_port repr = ep_port (um_endpoint m))"

definition endpoint_accepts :: "ip_cidr list \<Rightarrow> ip_listen_endpoint \<Rightarrow> ip_address \<Rightarrow> u16 \<Rightarrow> bool" where
  "endpoint_accepts ip_addrs endpoint dst port \<longleftrightarrow> port = lep_port endpoint \<and>
     (lep_addr endpoint \<in> {None, Some dst} \<or> cx_is_broadcast ip_addrs dst \<or> addr_is_multicast dst)"

inductive udp_spec :: "udp_queues \<Rightarrow> udp_event \<Rightarrow> udp_output \<Rightarrow> udp_queues \<Rightarrow> bool" where
  bind_ok: "lep_port e \<noteq> 0 \<Longrightarrow> lep_port (uq_endpoint q) = 0 \<Longrightarrow>
    udp_spec q (Ev_Bind e) (Out_Bind (Inr ())) (q\<lparr>uq_endpoint := e\<rparr>)"
| bind_zero: "lep_port e = 0 \<Longrightarrow> udp_spec q (Ev_Bind e) (Out_Bind (Inl Bind_Unaddressable)) q"
| bind_again: "lep_port e \<noteq> 0 \<Longrightarrow> lep_port (uq_endpoint q) \<noteq> 0 \<Longrightarrow> udp_spec q (Ev_Bind e) (Out_Bind (Inl Bind_InvalidState)) q"
| close: "udp_spec q Ev_Close Out_Nothing \<lparr>uq_endpoint = listen_endpoint_default, uq_incoming = [], uq_outgoing = []\<rparr>"
| send_bad: "lep_port (uq_endpoint q) = 0 \<or> addr_is_unspecified (ep_addr (um_endpoint m)) \<or> ep_port (um_endpoint m) = 0 \<Longrightarrow>
    udp_spec q (Ev_Send data m) (Out_Send (Inl Send_Unaddressable)) q"
| send_full: "lep_port (uq_endpoint q) \<noteq> 0 \<Longrightarrow> \<not> addr_is_unspecified (ep_addr (um_endpoint m)) \<Longrightarrow> ep_port (um_endpoint m) \<noteq> 0 \<Longrightarrow>
    udp_spec q (Ev_Send data m) (Out_Send (Inl Send_BufferFull)) q"
| send_ok: "lep_port (uq_endpoint q) \<noteq> 0 \<Longrightarrow> \<not> addr_is_unspecified (ep_addr (um_endpoint m)) \<Longrightarrow> ep_port (um_endpoint m) \<noteq> 0 \<Longrightarrow>
    udp_spec q (Ev_Send data m) (Out_Send (Inr ())) (q\<lparr>uq_outgoing := uq_outgoing q @ [(m, data)]\<rparr>)"
| recv_none: "uq_incoming q = [] \<Longrightarrow> udp_spec q Ev_Recv (Out_Recv (Inl Recv_Exhausted)) q"
| recv_some: "uq_incoming q = (m, data) # rest \<Longrightarrow> udp_spec q Ev_Recv (Out_Recv (Inr (data, m))) (q\<lparr>uq_incoming := rest\<rparr>)"
| peek_none: "uq_incoming q = [] \<Longrightarrow> udp_spec q Ev_Peek (Out_Recv (Inl Recv_Exhausted)) q"
| peek_some: "uq_incoming q = (m, data) # rest \<Longrightarrow> udp_spec q Ev_Peek (Out_Recv (Inr (data, m))) q"
| process_other: "\<not> endpoint_accepts ip_addrs (uq_endpoint q) (ip_dst_addr ip) (u_dst_port repr) \<Longrightarrow>
    udp_spec q (Ev_Process ip_addrs meta ip repr payload) Out_Nothing q"
| process_full: "endpoint_accepts ip_addrs (uq_endpoint q) (ip_dst_addr ip) (u_dst_port repr) \<Longrightarrow>
    udp_spec q (Ev_Process ip_addrs meta ip repr payload) Out_Nothing q"
| process_ok: "endpoint_accepts ip_addrs (uq_endpoint q) (ip_dst_addr ip) (u_dst_port repr) \<Longrightarrow>
    udp_spec q (Ev_Process ip_addrs meta ip repr payload) Out_Nothing
      (q\<lparr>uq_incoming := uq_incoming q @ [(received_metadata meta ip repr, payload)]\<rparr>)"
| dispatch_none: "uq_outgoing q = [] \<Longrightarrow> udp_spec q (Ev_Dispatch src ready) (Out_Dispatch (Inr ()) []) q"
| dispatch_drop: "uq_outgoing q = (m, data) # rest \<Longrightarrow> udp_source_address src (uq_endpoint q) m = None \<Longrightarrow>
    udp_spec q (Ev_Dispatch src ready) (Out_Dispatch (Inr ()) []) (q\<lparr>uq_outgoing := rest\<rparr>)"
| dispatch_wait: "uq_outgoing q = (m, data) # rest \<Longrightarrow> udp_source_address src (uq_endpoint q) m = Some a \<Longrightarrow>
    udp_spec q (Ev_Dispatch src False) (Out_Dispatch (Inl ()) []) q"
| dispatch_ok: "uq_outgoing q = (m, data) # rest \<Longrightarrow> udp_source_address src (uq_endpoint q) m = Some a \<Longrightarrow>
    addressed (uq_endpoint q) a m data packet \<Longrightarrow>
    udp_spec q (Ev_Dispatch src True) (Out_Dispatch (Inr ()) [packet]) (q\<lparr>uq_outgoing := rest\<rparr>)"

fun udp_spec_run :: "udp_queues \<Rightarrow> udp_event list \<Rightarrow> udp_output list \<Rightarrow> udp_queues \<Rightarrow> bool" where
  "udp_spec_run q [] [] q' \<longleftrightarrow> q' = q"
| "udp_spec_run q (e # es) (out # outs) q' \<longleftrightarrow> (\<exists>q1. udp_spec q e out q1 \<and> udp_spec_run q1 es outs q')"
| "udp_spec_run q _ _ q' \<longleftrightarrow> False"

text \<open>All addresses are of one IP version.\<close>

fun event_version :: "ip_version \<Rightarrow> udp_event \<Rightarrow> bool" where
  "event_version v (Ev_Bind e) \<longleftrightarrow> (case lep_addr e of None \<Rightarrow> True | Some a \<Rightarrow> addr_version a = v)"
| "event_version v (Ev_Send data m) \<longleftrightarrow> addr_version (ep_addr (um_endpoint m)) = v
     \<and> (case um_local_address m of None \<Rightarrow> True | Some a \<Rightarrow> addr_version a = v)"
| "event_version v (Ev_Dispatch src ready) \<longleftrightarrow> (\<forall>d a. src d = Some a \<longrightarrow> addr_version a = v)"
| "event_version v _ \<longleftrightarrow> True"

definition udp_version :: "ip_version \<Rightarrow> udp_socket \<Rightarrow> bool" where
  "udp_version v s \<longleftrightarrow> event_version v (Ev_Bind (us_endpoint s)) \<and> (\<forall>(m, d) \<in> set (udp_outgoing s). event_version v (Ev_Send d m))"

lemma udp_accepts_endpoint:
  "udp_accepts ip_addrs ip repr s \<longleftrightarrow> endpoint_accepts ip_addrs (us_endpoint s) (ip_dst_addr ip) (u_dst_port repr)"
  by (auto simp: udp_accepts_def endpoint_accepts_def)

lemma udp_dispatch_one_record:
  assumes "event_version v (Ev_Bind endpoint)" "event_version v (Ev_Send data m)" "event_version v (Ev_Dispatch src ready)"
    and "udp_source_address src endpoint m = Some a"
  obtains packet where "addressed endpoint a m data packet"
    "udp_dispatch_one src (record_emit ready) [] endpoint hop_limit m data = (if ready then Inr (Some [packet]) else Inl ((), []))"
proof -
  let ?repr = "\<lparr>u_src_port = lep_port endpoint, u_dst_port = ep_port (um_endpoint m)\<rparr>"
  have "addr_version a = addr_version (ep_addr (um_endpoint m))"
    using assms by (auto simp: udp_source_address_def split: option.splits)
  from ip_repr_new_eq [OF this, of Udp "udp_header_len ?repr + length data" hop_limit]
  obtain ip where "ip_repr_new a (ep_addr (um_endpoint m)) Udp (udp_header_len ?repr + length data) hop_limit = Some ip"
    "addressed endpoint a m data (ip, ?repr, data)"
    by (auto simp: addressed_def udp_header_len_def UDP_HEADER_LEN_def)
  then show thesis
    using that assms(4) by (auto simp: udp_dispatch_one_def record_emit_def Let_def)
qed

lemma udp_dispatch_refines:
  assumes inv: "udp_inv s" "udp_version v s" and ev: "event_version v (Ev_Dispatch src ready)"
  obtains out s' where "udp_step (Ev_Dispatch src ready) s = Some (out, s')" "udp_inv s'" "udp_version v s'"
    "udp_spec (udp_abs s) (Ev_Dispatch src ready) out (udp_abs s')"
proof -
  let ?h = "case us_hop_limit s of Some h \<Rightarrow> h | None \<Rightarrow> 64"
  let ?one = "udp_dispatch_one src (record_emit ready) [] (us_endpoint s) ?h"
  obtain tx where tx: "pb_inv tx" "pb_packets tx = (case udp_outgoing s of [] \<Rightarrow> []
      | (m, d) # rest \<Rightarrow> (case ?one m d of Inr _ \<Rightarrow> rest | Inl _ \<Rightarrow> udp_outgoing s))"
    "udp_dispatch src (record_emit ready) [] s = (case udp_outgoing s of [] \<Rightarrow> Some (Inr (), [], s\<lparr>us_tx_buffer := tx\<rparr>)
      | (m, d) # _ \<Rightarrow> (case ?one m d of Inl (e, cx) \<Rightarrow> Some (Inl e, cx, s\<lparr>us_tx_buffer := tx\<rparr>)
          | Inr None \<Rightarrow> None | Inr (Some cx) \<Rightarrow> Some (Inr (), cx, s\<lparr>us_tx_buffer := tx\<rparr>)))"
    by (rule udp_dispatch_spec [OF inv(1)])
  let ?s = "s\<lparr>us_tx_buffer := tx\<rparr>"
  have i: "udp_inv ?s" using inv(1) tx(1) by (simp add: udp_inv_def)
  have "udp_abs ?s = (udp_abs s)\<lparr>uq_outgoing := pb_packets tx\<rparr>" by (simp add: udp_abs_def)
  note abs = this
  have q: "uq_outgoing (udp_abs s) = udp_outgoing s" "uq_endpoint (udp_abs s) = us_endpoint s" by (simp_all add: udp_abs_def)
  have keep: "(udp_abs s)\<lparr>uq_outgoing := udp_outgoing s\<rparr> = udp_abs s" by (simp add: udp_abs_def)
  show thesis
  proof (cases "udp_outgoing s")
    case Nil
    then have "udp_abs ?s = udp_abs s" using abs tx(2) keep by simp
    then show thesis using Nil that i inv(2) tx dispatch_none [of "udp_abs s" src ready] q by (auto simp: udp_version_def)
  next
    case (Cons p rest)
    obtain m d where p: "p = (m, d)" by (cases p)
    have v: "event_version v (Ev_Bind (us_endpoint s))" "event_version v (Ev_Send d m)" "udp_version v (s\<lparr>us_tx_buffer := tx\<rparr>)"
      using inv(2) Cons p tx(2) by (auto simp: udp_version_def split: sum.splits)
    show thesis
    proof (cases "udp_source_address src (us_endpoint s) m")
      case None
      then have "?one m d = Inr (Some [])" by (simp add: udp_dispatch_one_def)
      moreover have "udp_spec (udp_abs s) (Ev_Dispatch src ready) (Out_Dispatch (Inr ()) []) ((udp_abs s)\<lparr>uq_outgoing := rest\<rparr>)"
        by (rule dispatch_drop) (use Cons p None q in simp_all)
      ultimately show thesis using that [OF _ i v(3)] Cons p tx(2,3) abs by simp
    next
      case (Some a)
      obtain packet where one: "addressed (us_endpoint s) a m d packet"
        "?one m d = (if ready then Inr (Some [packet]) else Inl ((), []))"
        by (rule udp_dispatch_one_record [OF v(1,2) ev Some])
      show thesis
      proof (cases ready)
        case True
        have "udp_spec (udp_abs s) (Ev_Dispatch src True) (Out_Dispatch (Inr ()) [packet]) ((udp_abs s)\<lparr>uq_outgoing := rest\<rparr>)"
          by (rule dispatch_ok) (use Cons p Some one q in simp_all)
        then show thesis using that [OF _ i v(3)] Cons p tx(2,3) abs one(2) True by simp
      next
        case False
        have "udp_spec (udp_abs s) (Ev_Dispatch src False) (Out_Dispatch (Inl ()) []) (udp_abs s)"
          by (rule dispatch_wait) (use Cons p Some q in simp_all)
        then show thesis using that [OF _ i v(3)] Cons p tx(2,3) abs one(2) False keep by simp
      qed
    qed
  qed
qed

definition udp_simulates :: "ip_version \<Rightarrow> udp_event \<Rightarrow> udp_socket \<Rightarrow> bool" where
  "udp_simulates v e s \<longleftrightarrow> (\<exists>out s'. udp_step e s = Some (out, s') \<and> udp_inv s' \<and> udp_version v s'
     \<and> udp_spec (udp_abs s) e out (udp_abs s'))"

lemma udp_abs_updates:
  "udp_abs (s\<lparr>us_tx_buffer := tx\<rparr>) = (udp_abs s)\<lparr>uq_outgoing := pb_packets tx\<rparr>"
  "udp_abs (s\<lparr>us_rx_buffer := rx\<rparr>) = (udp_abs s)\<lparr>uq_incoming := pb_packets rx\<rparr>"
  "udp_abs (s\<lparr>us_endpoint := e\<rparr>) = (udp_abs s)\<lparr>uq_endpoint := e\<rparr>"
  "(udp_abs s)\<lparr>uq_outgoing := udp_outgoing s\<rparr> = udp_abs s" "(udp_abs s)\<lparr>uq_incoming := udp_incoming s\<rparr> = udp_abs s"
  "uq_endpoint (udp_abs s) = us_endpoint s" "uq_incoming (udp_abs s) = udp_incoming s" "uq_outgoing (udp_abs s) = udp_outgoing s"
  by (simp_all add: udp_abs_def)

lemma udp_send_simulates:
  assumes "udp_inv s" "udp_version v s" "event_version v (Ev_Send data m)"
  shows "udp_simulates v (Ev_Send data m) s"
  using assms(1)
proof (cases rule: udp_send_slice_spec [of s m data])
  case unaddressable
  then have "udp_spec (udp_abs s) (Ev_Send data m) (Out_Send (Inl Send_Unaddressable)) (udp_abs s)"
    by (intro send_bad) (auto simp: udp_unaddressable_def udp_abs_updates)
  then show ?thesis using unaddressable assms by (simp add: udp_simulates_def)
next
  case (full tx)
  have "udp_spec (udp_abs s) (Ev_Send data m) (Out_Send (Inl Send_BufferFull)) (udp_abs s)"
    using full(1) by (intro send_full) (auto simp: udp_unaddressable_def udp_abs_updates)
  then show ?thesis using full assms by (simp add: udp_simulates_def udp_inv_def udp_version_def udp_abs_updates)
next
  case (sent tx)
  have "udp_spec (udp_abs s) (Ev_Send data m) (Out_Send (Inr ())) ((udp_abs s)\<lparr>uq_outgoing := uq_outgoing (udp_abs s) @ [(m, data)]\<rparr>)"
    using sent(1) by (intro send_ok) (auto simp: udp_unaddressable_def udp_abs_updates)
  then show ?thesis using sent assms by (simp add: udp_simulates_def udp_inv_def udp_version_def udp_abs_updates)
qed

lemma udp_read_simulates:
  assumes "udp_inv s" "udp_version v s"
  shows "udp_simulates v Ev_Recv s" "udp_simulates v Ev_Peek s"
proof -
  have keep: "(udp_abs s)\<lparr>uq_incoming := x\<rparr> = udp_abs s" if "udp_incoming s = x" for x
    using udp_abs_updates(5) [of s] that by simp
  obtain rx where "udp_recv s = Some (case udp_incoming s of [] \<Rightarrow> Inl Recv_Exhausted | (m, d) # _ \<Rightarrow> Inr (d, m), s\<lparr>us_rx_buffer := rx\<rparr>)"
    "pb_inv rx" "pb_packets rx = tl (udp_incoming s)"
    using udp_recv_spec [OF assms(1)] .
  then show "udp_simulates v Ev_Recv s"
    using assms recv_none [of "udp_abs s"] recv_some [of "udp_abs s"]
    by (cases "udp_incoming s") (auto simp: udp_simulates_def udp_inv_def udp_version_def udp_abs_updates keep)
  obtain rx where "udp_peek s = Some (case udp_incoming s of [] \<Rightarrow> Inl Recv_Exhausted | (m, d) # _ \<Rightarrow> Inr (d, m), s\<lparr>us_rx_buffer := rx\<rparr>)"
    "pb_inv rx" "pb_packets rx = udp_incoming s"
    using udp_peek_spec [OF assms(1)] .
  then show "udp_simulates v Ev_Peek s"
    using assms peek_none [of "udp_abs s"] peek_some [of "udp_abs s"]
    by (cases "udp_incoming s") (auto simp: udp_simulates_def udp_inv_def udp_version_def udp_abs_updates keep)
qed

lemma udp_process_simulates:
  assumes "udp_inv s" "udp_version v s"
  shows "udp_simulates v (Ev_Process ip_addrs meta ip repr payload) s"
proof (cases "udp_accepts ip_addrs ip repr s")
  case True
  then have acc: "endpoint_accepts ip_addrs (uq_endpoint (udp_abs s)) (ip_dst_addr ip) (u_dst_port repr)"
    by (simp add: udp_accepts_endpoint udp_abs_updates)
  obtain ok rx where "udp_process ip_addrs meta ip repr payload s = Some (s\<lparr>us_rx_buffer := rx\<rparr>)"
    "pb_inv rx" "pb_packets rx = udp_incoming s @ (if ok then [(received_metadata meta ip repr, payload)] else [])"
    by (rule udp_process_spec [OF assms(1) True])
  then show ?thesis
    using True assms process_full [OF acc, of meta payload] process_ok [OF acc, of meta payload]
    by (cases ok) (simp_all add: udp_simulates_def udp_inv_def udp_version_def udp_abs_updates)
next
  case False
  then show ?thesis
    using assms process_other [of ip_addrs "udp_abs s" ip repr meta payload]
    by (simp add: udp_simulates_def udp_accepts_endpoint udp_abs_updates)
qed

lemma udp_control_simulates:
  assumes "udp_inv s" "udp_version v s"
  shows "event_version v (Ev_Bind e) \<Longrightarrow> udp_simulates v (Ev_Bind e) s" "udp_simulates v Ev_Close s"
proof -
  assume "event_version v (Ev_Bind e)"
  then show "udp_simulates v (Ev_Bind e) s"
    using assms bind_ok [of e "udp_abs s"] bind_zero [of e "udp_abs s"] bind_again [of e "udp_abs s"]
    by (simp add: udp_simulates_def udp_bind_def udp_is_open_def udp_inv_def udp_version_def udp_abs_updates)
next
  show "udp_simulates v Ev_Close s"
    using close [of "udp_abs s"]
    by (simp add: udp_simulates_def udp_version_def udp_abs_def listen_endpoint_default_def)
qed

lemma udp_simulation:
  assumes "udp_inv s" "udp_version v s" "event_version v e"
  shows "udp_simulates v e s"
proof (cases e)
  case (Ev_Dispatch src ready)
  show ?thesis
    using udp_dispatch_refines [OF assms(1,2) assms(3) [unfolded Ev_Dispatch]] unfolding Ev_Dispatch udp_simulates_def by metis
qed (use assms udp_send_simulates udp_read_simulates udp_process_simulates udp_control_simulates in auto)

lemma udp_run_simulates:
  "udp_inv s \<Longrightarrow> udp_version v s \<Longrightarrow> list_all (event_version v) es \<Longrightarrow>
   \<exists>outs s'. udp_run es s = Some (outs, s') \<and> udp_inv s' \<and> udp_spec_run (udp_abs s) es outs (udp_abs s')"
proof (induction es arbitrary: s)
  case (Cons e es)
  obtain out s1 where s1: "udp_step e s = Some (out, s1)" "udp_inv s1" "udp_version v s1" "udp_spec (udp_abs s) e out (udp_abs s1)"
    using udp_simulation [OF Cons.prems(1,2), of e] Cons.prems(3) by (auto simp: udp_simulates_def)
  obtain outs s' where "udp_run es s1 = Some (outs, s')" "udp_inv s'" "udp_spec_run (udp_abs s1) es outs (udp_abs s')"
    using Cons.IH [OF s1(2,3)] Cons.prems(3) by auto
  with s1 show ?case by (intro exI [of _ "out # outs"] exI [of _ s']) auto
qed simp

section \<open>Properties of the socket\<close>


definition sample_meta :: udp_metadata where
  "sample_meta = udp_metadata_from \<lparr>ep_addr = Ipv4 [10, 0, 0, 2], ep_port = 53\<rparr>"

definition sample_events :: "udp_event list" where
  "sample_events = [Ev_Bind \<lparr>lep_addr = None, lep_port = 4000\<rparr>, Ev_Send [1, 2, 3] sample_meta,
     Ev_Dispatch (\<lambda>_. Some (Ipv4 [10, 0, 0, 1])) True, Ev_Recv]"


text \<open>C38. \<open>send\<close> accepts a destination of another IP version than the address to which the socket is bound, and the
  datagram panics in \<open>IpRepr::new\<close> when the interface polls the socket.\<close>

theorem udp_version_mismatch_panics:
  assumes "udp_inv s" and "\<not> udp_unaddressable meta s" and "udp_outgoing s = []" and "rb_is_empty (payload_ring (us_tx_buffer s))"
    and "udp_can_send s" and "length data \<le> udp_payload_send_capacity s"
    and "um_local_address meta = None" and "lep_addr (us_endpoint s) = Some a"
    and "addr_version a \<noteq> addr_version (ep_addr (um_endpoint meta))"
  shows "\<exists>s'. udp_send_slice data meta s = Some (Inr (), s') \<and> udp_dispatch src emit cx s' = None"
proof -
  have room: "\<exists>tx. pb_put meta data (us_tx_buffer s) = Some (True, tx)"
    using assms(1,4-6) by (intro pb_put_idle)
      (simp_all add: udp_inv_def udp_can_send_def pb_is_full_def udp_payload_send_capacity_def pb_payload_capacity_def)
  from assms(1) show ?thesis
  proof (cases rule: udp_send_slice_spec [of s meta data])
    case (sent tx)
    let ?s = "s\<lparr>us_tx_buffer := tx\<rparr>"
    have inv: "udp_inv ?s" using assms(1) sent(2) by (simp add: udp_inv_def)
    have "ip_repr_new a (ep_addr (um_endpoint meta)) p n h = None" for p n h
      using assms(9) by (cases a; cases "ep_addr (um_endpoint meta)") simp_all
    then have "udp_dispatch_one src emit cx (us_endpoint s) h meta data = Inr None" for h
      using assms(7,8) by (simp add: udp_dispatch_one_def udp_source_address_def Let_def)
    then have "udp_dispatch src emit cx ?s = None"
      using udp_dispatch_spec [OF inv, of src emit cx] sent(3) assms(3) by simp
    with sent(4) show ?thesis by blast
  qed (use assms(2) room in \<open>auto simp: udp_send_slice_put\<close>)
qed

theorem udp_version_mismatch_panics_witness:
  "\<exists>s'. udp_send_slice [1, 2, 3] (udp_metadata_from \<lparr>ep_addr = Ipv6 [0xfe, 0x80, 0, 0, 0, 0, 0, 0, 0, 0, 0, 0, 0, 0, 0, 1], ep_port = 53\<rparr>)
      ((udp_new (pb_new [pm_padding 0] [0, 0, 0]) (pb_new [pm_padding 0] [0, 0, 0]))
        \<lparr>us_endpoint := \<lparr>lep_addr = Some (Ipv4 [10, 0, 0, 1]), lep_port = 4000\<rparr>\<rparr>) = Some (Inr (), s')
    \<and> udp_dispatch (\<lambda>_. None) (record_emit True) [] s' = None"
proof (rule udp_version_mismatch_panics [where a = "Ipv4 [10, 0, 0, 1]"])
  let ?m = "udp_metadata_from \<lparr>ep_addr = Ipv6 [0xfe, 0x80, 0, 0, 0, 0, 0, 0, 0, 0, 0, 0, 0, 0, 0, 1], ep_port = 53\<rparr>"
  let ?pb = "pb_new [pm_padding 0] [0, 0, 0] :: udp_metadata packet_buffer"
  let ?s = "(udp_new ?pb ?pb)\<lparr>us_endpoint := \<lparr>lep_addr = Some (Ipv4 [10, 0, 0, 1]), lep_port = 4000\<rparr>\<rparr>"
  show "udp_inv ?s" "udp_outgoing ?s = []" by (simp_all add: udp_new_def udp_inv_def)
  have "replicate 16 x = [x, x, x, x, x, x, x, x, x, x, x, x, x, x, x, x]" for x :: u8 by (simp add: eval_nat_numeral)
  then show "\<not> udp_unaddressable ?m ?s"
    by (simp add: udp_unaddressable_def udp_metadata_from_def v6_is_unspecified_def)
  show "um_local_address ?m = None" "lep_addr (us_endpoint ?s) = Some (Ipv4 [10, 0, 0, 1])"
    "addr_version (Ipv4 [10, 0, 0, 1]) \<noteq> addr_version (ep_addr (um_endpoint ?m))"
    by (simp_all add: udp_metadata_from_def)
  have "rb_is_empty (payload_ring ?pb)" "\<not> pb_is_full ?pb" "pb_payload_capacity ?pb = 3"
    by (simp_all add: pb_is_full_def pb_payload_capacity_def pb_new_def rb_new_def rb_is_empty_def rb_len_def rb_is_full_def
        rb_window_def rb_capacity_def del: length_rb_storage)
  then show "rb_is_empty (payload_ring (us_tx_buffer ?s))" "udp_can_send ?s" "length [1, 2, 3 :: u8] \<le> udp_payload_send_capacity ?s"
    by (simp_all add: udp_new_def udp_can_send_def udp_payload_send_capacity_def)
qed

end
