(* ===== verification/Udp_End_To_End.thy ===== *)
theory Udp_End_To_End
  imports Udp_Socket
begin

text \<open>
  From the application of one host to the application of another: \<open>send_slice\<close> and \<open>dispatch\<close> of a UDP socket, \<open>dispatch_ip\<close>
  with as many frames as the datagram needs, \<open>process_ipv4\<close> with reassembly, \<open>process_udp\<close>, and \<open>recv\<close> of another socket.
\<close>

section \<open>Delivery to the sockets\<close>

lemma udp_deliver_all:
  "\<forall>s \<in> set ss. udp_inv s \<Longrightarrow> \<exists>ss'. udp_deliver ip_addrs meta ip repr payload ss = Some (list_ex (udp_accepts ip_addrs ip repr) ss, ss')
     \<and> length ss' = length ss
     \<and> (\<forall>i < length ss. if udp_accepts ip_addrs ip repr (ss ! i)
          then udp_process ip_addrs meta ip repr payload (ss ! i) = Some (ss' ! i) else ss' ! i = ss ! i)"
proof (induction ss)
  case (Cons s ss)
  then obtain ss' where ss': "udp_deliver ip_addrs meta ip repr payload ss = Some (list_ex (udp_accepts ip_addrs ip repr) ss, ss')"
    "length ss' = length ss"
    "\<forall>i < length ss. if udp_accepts ip_addrs ip repr (ss ! i)
        then udp_process ip_addrs meta ip repr payload (ss ! i) = Some (ss' ! i) else ss' ! i = ss ! i"
    by auto
  show ?case
  proof (cases "udp_accepts ip_addrs ip repr s")
    case True
    obtain rx where "udp_process ip_addrs meta ip repr payload s = Some (s\<lparr>us_rx_buffer := rx\<rparr>)"
      using udp_process_spec [OF _ True, of meta payload] Cons.prems by auto
    with True ss' show ?thesis
      by (intro exI [of _ "s\<lparr>us_rx_buffer := rx\<rparr> # ss'"]) (auto simp: nth_Cons' less_Suc_eq_0_disj)
  next
    case False
    with ss' show ?thesis by (intro exI [of _ "s # ss'"]) (auto simp: nth_Cons' less_Suc_eq_0_disj)
  qed
qed simp

definition udp_idle :: "udp_socket \<Rightarrow> nat \<Rightarrow> bool" where
  "udp_idle s n \<longleftrightarrow> udp_incoming s = [] \<and> rb_is_empty (payload_ring (us_rx_buffer s)) \<and> \<not> pb_is_full (us_rx_buffer s)
     \<and> n \<le> udp_payload_recv_capacity s"

definition udp_room :: "udp_socket \<Rightarrow> nat \<Rightarrow> bool" where
  "udp_room s n \<longleftrightarrow> udp_outgoing s = [] \<and> rb_is_empty (payload_ring (us_tx_buffer s)) \<and> udp_can_send s
     \<and> n \<le> udp_payload_send_capacity s"

lemma udp_process_recv:
  assumes inv: "udp_inv s" "udp_accepts ip_addrs ip repr s" and idle: "udp_idle s (length payload)"
  obtains s' r where "udp_process ip_addrs meta ip repr payload s = Some s'"
    "udp_recv s' = Some (Inr (payload, received_metadata meta ip repr), r)"
proof -
  have "\<exists>rx. pb_put (received_metadata meta ip repr) payload (us_rx_buffer s) = Some (True, rx)"
    using inv(1) idle by (intro pb_put_idle)
      (simp_all add: udp_idle_def udp_inv_def pb_is_full_def udp_payload_recv_capacity_def pb_payload_capacity_def)
  moreover obtain ok rx where p: "udp_process ip_addrs meta ip repr payload s = Some (s\<lparr>us_rx_buffer := rx\<rparr>)"
    "pb_put (received_metadata meta ip repr) payload (us_rx_buffer s) = Some (ok, rx)"
    "pb_inv rx" "pb_packets rx = udp_incoming s @ (if ok then [(received_metadata meta ip repr, payload)] else [])"
    by (rule udp_process_spec [OF inv])
  ultimately have q: "pb_packets rx = [(received_metadata meta ip repr, payload)]" using idle by (auto simp: udp_idle_def)
  have "udp_inv (s\<lparr>us_rx_buffer := rx\<rparr>)" using inv(1) p(3) by (simp add: udp_inv_def)
  from udp_recv_spec [OF this] q
  obtain r where "udp_recv (s\<lparr>us_rx_buffer := rx\<rparr>) = Some (Inr (payload, received_metadata meta ip repr), r)"
    by (metis (no_types, lifting) list.simps(5) prod.simps(2) udp_socket.select_convs(2) udp_socket.surjective udp_socket.update_convs(2))
  with p(1) show thesis by (rule that)
qed

lemma udp_octets_delivered:
  assumes octets: "udp_parse octets src dst caps = Some (Inr repr)" "udpp_payload octets = Some payload"
    and ip: "ip_src_addr ip = src" "ip_dst_addr ip = dst"
    and sockets: "\<forall>s \<in> set ss. udp_inv s" "i < length ss" "udp_accepts ip_addrs ip repr (ss ! i)" "udp_idle (ss ! i) (length payload)"
  obtains ss' r where "process_udp ip_addrs caps meta ip octets ss = Some (True, ss')"
    "udp_recv (ss' ! i) = Some (Inr (payload, received_metadata meta ip repr), r)"
proof -
  have "udpp_check_len octets = Some (Inr ())"
    using octets(1) by (cases "udpp_check_len octets") (auto simp: udp_parse_def try_then_def split: sum.splits)
  then have "udpp_new_checked octets = Some (Inr octets)" by (simp add: udpp_new_checked_def)
  then have eq: "process_udp ip_addrs caps meta ip octets ss = udp_deliver ip_addrs meta ip repr payload ss"
    using octets ip by (simp add: process_udp_def)
  obtain ss' where ss': "udp_deliver ip_addrs meta ip repr payload ss = Some (list_ex (udp_accepts ip_addrs ip repr) ss, ss')"
    "udp_process ip_addrs meta ip repr payload (ss ! i) = Some (ss' ! i)"
    using udp_deliver_all [OF sockets(1), of ip_addrs meta ip repr payload] sockets(2,3) by meson
  have "list_ex (udp_accepts ip_addrs ip repr) ss" using sockets(2,3) by (auto simp: list_ex_length)
  moreover have "udp_inv (ss ! i)" using sockets(1,2) by simp
  then obtain r where "udp_recv (ss' ! i) = Some (Inr (payload, received_metadata meta ip repr), r)"
    using udp_process_recv [OF _ sockets(3,4), of meta] ss'(2) by (metis option.inject)
  ultimately show thesis using that eq ss'(1) by simp
qed

section \<open>Transmission\<close>

text \<open>
  The closure that \<open>socket_egress\<close> hands to \<open>dispatch\<close>, when the device has a token and the hardware address of the next hop
  is known. The context is the list of frames, the next identifier and the fragmenter. Only IPv4 frames are modelled: a packet
  of IPv6 is refused, as if the neighbor were missing.
\<close>

definition udp_respond ::
  "device_caps \<Rightarrow> eth_address \<Rightarrow> eth_address \<Rightarrow> (nat \<Rightarrow> u8 list) \<Rightarrow> u8 list list \<times> u16 \<times> fragmenter \<Rightarrow> u32 \<Rightarrow>
   ip_repr \<times> udp_repr \<times> u8 list \<Rightarrow> ((unit + unit) \<times> u8 list list \<times> u16 \<times> fragmenter) option" where
  "udp_respond caps src_hw dst_hw tx_buffer cx meta packet = (case (cx, packet) of
      ((frames, ident, frag), (Ipv4_Repr repr, udp, payload)) \<Rightarrow>
        do { (frame, ident, frag) \<leftarrow> dispatch_ipv4 caps src_hw dst_hw tx_buffer repr (Payload_Udp udp payload) ident frag;
             Some (Inr (), frames @ (case frame of None \<Rightarrow> [] | Some frame \<Rightarrow> [frame]), ident, frag) }
    | (_, (Ipv6_Repr _, _, _)) \<Rightarrow> Some (Inl (), cx))"

lemma udp_send_dispatch:
  assumes inv: "udp_inv s" and room: "udp_room s (length inner)" "\<not> udp_unaddressable meta s"
    and addr: "udp_source_address get_src (us_endpoint s) meta = Some (Ipv4 src)" "ep_addr (um_endpoint meta) = Ipv4 dst"
  defines "udp \<equiv> \<lparr>u_src_port = lep_port (us_endpoint s), u_dst_port = ep_port (um_endpoint meta)\<rparr>"
    and "repr \<equiv> \<lparr>v4_src_addr = src, v4_dst_addr = dst, v4_next_header = Udp, v4_payload_len = 8 + length inner,
      v4_hop_limit = (case us_hop_limit s of Some h \<Rightarrow> h | None \<Rightarrow> 64)\<rparr>"
  assumes emit: "dispatch_ipv4 caps src_hw dst_hw tx_buffer repr (Payload_Udp udp inner) ident frag = Some (Some first, ident', frag')"
  obtains s1 s2 where "udp_send_slice inner meta s = Some (Inr (), s1)" "udp_inv s2" "udp_outgoing s2 = []"
    "udp_dispatch get_src (udp_respond caps src_hw dst_hw tx_buffer) ([], ident, frag) s1 = Some (Inr (), ([first], ident', frag'), s2)"
proof -
  let ?h = "case us_hop_limit s of Some h \<Rightarrow> h | None \<Rightarrow> 64"
  have "\<exists>tx. pb_put meta inner (us_tx_buffer s) = Some (True, tx)"
    using inv room(1) by (intro pb_put_idle)
      (simp_all add: udp_room_def udp_inv_def udp_can_send_def pb_is_full_def udp_payload_send_capacity_def pb_payload_capacity_def)
  with room(2) obtain s1 where s1: "udp_send_slice inner meta s = Some (Inr (), s1)" by (auto simp: udp_send_slice_put)
  from inv show thesis
  proof (cases rule: udp_send_slice_spec [of s meta inner])
    case (sent tx)
    let ?s = "s\<lparr>us_tx_buffer := tx\<rparr>"
    have i: "udp_inv ?s" using inv sent(2) by (simp add: udp_inv_def)
    have q: "udp_outgoing ?s = [(meta, inner)]" using sent(3) room(1) by (simp add: udp_room_def)
    have one: "udp_dispatch_one get_src (udp_respond caps src_hw dst_hw tx_buffer) ([], ident, frag) (us_endpoint s) ?h meta inner
        = Inr (Some ([first], ident', frag'))"
      using addr emit by (simp add: udp_dispatch_one_def udp_respond_def udp_def repr_def udp_header_len_def UDP_HEADER_LEN_def Let_def)
    obtain tx' where "pb_inv tx'" "pb_packets tx' = []"
      "udp_dispatch get_src (udp_respond caps src_hw dst_hw tx_buffer) ([], ident, frag) ?s
        = Some (Inr (), ([first], ident', frag'), ?s\<lparr>us_tx_buffer := tx'\<rparr>)"
      using udp_dispatch_spec [OF i, of get_src "udp_respond caps src_hw dst_hw tx_buffer" "([], ident, frag)"] q one by auto
    then show thesis
      using that [of ?s "?s\<lparr>us_tx_buffer := tx'\<rparr>"] sent(4) i by (simp add: udp_inv_def)
  qed (use s1 in simp_all)
qed

section \<open>End to end\<close>


definition sample_buffer :: "udp_metadata packet_buffer" where
  "sample_buffer = pb_new (replicate 2 (pm_padding 0)) (replicate 64 0)"

definition sample_sender :: udp_socket where
  "sample_sender = (udp_new sample_buffer sample_buffer)\<lparr>us_endpoint := \<lparr>lep_addr = Some (Ipv4 [10, 0, 0, 1]), lep_port = 4000\<rparr>\<rparr>"

definition sample_receiver :: udp_socket where
  "sample_receiver = (udp_new sample_buffer sample_buffer)\<lparr>us_endpoint := \<lparr>lep_addr = None, lep_port = 53\<rparr>\<rparr>"

definition sample_header :: ip_repr where
  "sample_header = Ipv4_Repr \<lparr>v4_src_addr = [10, 0, 0, 1], v4_dst_addr = [10, 0, 0, 2], v4_next_header = Udp,
     v4_payload_len = 48, v4_hop_limit = 64\<rparr>"

lemma sample_buffer_facts:
  "pb_inv sample_buffer" "pb_packets sample_buffer = []" "rb_is_empty (payload_ring sample_buffer)"
  "\<not> pb_is_full sample_buffer" "pb_payload_capacity sample_buffer = 64"
  by (simp_all add: sample_buffer_def pb_is_full_def pb_payload_capacity_def)
    (simp_all add: pb_new_def rb_new_def rb_is_empty_def rb_len_def rb_is_full_def rb_window_def rb_capacity_def del: length_rb_storage)

lemma sample_sockets:
  "udp_inv sample_sender" "udp_room sample_sender 40" "udp_inv sample_receiver" "udp_idle sample_receiver 40"
  "us_endpoint sample_sender = \<lparr>lep_addr = Some (Ipv4 [10, 0, 0, 1]), lep_port = 4000\<rparr>"
  "us_endpoint sample_receiver = \<lparr>lep_addr = None, lep_port = 53\<rparr>" "us_hop_limit sample_sender = None"
  using sample_buffer_facts
  by (simp_all add: sample_sender_def sample_receiver_def udp_new_def udp_inv_def udp_room_def udp_idle_def udp_can_send_def
      udp_payload_send_capacity_def udp_payload_recv_capacity_def)

lemma sample_unicast: "is_unicast_v4 [] [10, 0, 0, 1]"
proof -
  have "replicate 4 x = [x, x, x, x]" for x :: u8 by (simp add: eval_nat_numeral)
  then show ?thesis
    by (simp add: is_unicast_v4_def is_broadcast_v4_def v4_is_unicast_def v4_is_broadcast_def v4_is_multicast_def
        v4_is_unspecified_def map_filter_def)
qed


end
