(* ===== verification/Dns_Wire.thy ===== *)
theory Dns_Wire
  imports Wire_Bytes
begin

text \<open>
  The DNS format, \<^verbatim>\<open>src/wire/dns.rs\<close>. A name is a sequence of labels, and may end with a pointer to another place of the
  packet; \<open>Packet::parse_name\<close> is an iterator over the labels that follows the pointers. \<open>dns_name_next\<close> is one call of its
  closure, on the two slices that the closure owns, and \<open>dns_labels\<close> what a loop over the iterator sees.
\<close>

unbundle bit_operations_syntax

section \<open>Codes\<close>

datatype dns_opcode = Opcode_Query | Opcode_Status | Opcode_Unknown u8

definition opcode_from :: "u8 \<Rightarrow> dns_opcode" where
  "opcode_from v = (if v = 0 then Opcode_Query else if v = 1 then Opcode_Status else Opcode_Unknown v)"

primrec opcode_into :: "dns_opcode \<Rightarrow> u8" where
  "opcode_into Opcode_Query = 0"
| "opcode_into Opcode_Status = 1"
| "opcode_into (Opcode_Unknown v) = v"

datatype dns_rcode = Rcode_NoError | Rcode_FormErr | Rcode_ServFail | Rcode_NXDomain | Rcode_NotImp | Rcode_Refused
  | Rcode_YXDomain | Rcode_YXRRSet | Rcode_NXRRSet | Rcode_NotAuth | Rcode_NotZone | Rcode_Unknown u8

definition rcode_from :: "u8 \<Rightarrow> dns_rcode" where
  "rcode_from v = (if v = 0 then Rcode_NoError else if v = 1 then Rcode_FormErr else if v = 2 then Rcode_ServFail
     else if v = 3 then Rcode_NXDomain else if v = 4 then Rcode_NotImp else if v = 5 then Rcode_Refused
     else if v = 6 then Rcode_YXDomain else if v = 7 then Rcode_YXRRSet else if v = 8 then Rcode_NXRRSet
     else if v = 9 then Rcode_NotAuth else if v = 10 then Rcode_NotZone else Rcode_Unknown v)"

datatype dns_type = Type_A | Type_Ns | Type_Cname | Type_Soa | Type_Aaaa | Type_Unknown u16

definition dns_type_from :: "u16 \<Rightarrow> dns_type" where
  "dns_type_from v = (if v = 1 then Type_A else if v = 2 then Type_Ns else if v = 5 then Type_Cname
     else if v = 6 then Type_Soa else if v = 28 then Type_Aaaa else Type_Unknown v)"

primrec dns_type_into :: "dns_type \<Rightarrow> u16" where
  "dns_type_into Type_A = 1"
| "dns_type_into Type_Ns = 2"
| "dns_type_into Type_Cname = 5"
| "dns_type_into Type_Soa = 6"
| "dns_type_into Type_Aaaa = 28"
| "dns_type_into (Type_Unknown v) = v"

text \<open>The bits of \<open>Flags\<close>, and all of them.\<close>

definition FLAG_RESPONSE :: u16 where "FLAG_RESPONSE = 0x8000"
definition FLAG_RECURSION_DESIRED :: u16 where "FLAG_RECURSION_DESIRED = 0x0100"
definition FLAGS_ALL :: u16 where "FLAGS_ALL = 0x87b0"

definition CLASS_IN :: u16 where "CLASS_IN = 1"

section \<open>The header\<close>

definition dnsp_check_len :: "u8 list \<Rightarrow> wire_error + unit" where
  "dnsp_check_len data = (if length data < 12 then Inl Wire_Error else Inr ())"

definition dnsp_payload :: "u8 list \<Rightarrow> u8 list option" where "dnsp_payload data = slice_range 12 (length data) data"
definition dnsp_transaction_id :: "u8 list \<Rightarrow> u16 option" where "dnsp_transaction_id data = get_u16 0 data"

definition dnsp_flags :: "u8 list \<Rightarrow> u16 option" where
  "dnsp_flags data = map_option (\<lambda>flags. flags AND FLAGS_ALL) (get_u16 2 data)"

definition dnsp_opcode :: "u8 list \<Rightarrow> dns_opcode option" where
  "dnsp_opcode data = map_option (\<lambda>flags. opcode_from (ucast (drop_bit 11 flags AND 0xF))) (get_u16 2 data)"

definition dnsp_rcode :: "u8 list \<Rightarrow> dns_rcode option" where
  "dnsp_rcode data = map_option (\<lambda>flags. rcode_from (ucast (flags AND 0xF))) (get_u16 2 data)"

definition dnsp_question_count :: "u8 list \<Rightarrow> u16 option" where "dnsp_question_count data = get_u16 4 data"
definition dnsp_answer_record_count :: "u8 list \<Rightarrow> u16 option" where "dnsp_answer_record_count data = get_u16 6 data"
definition dnsp_authority_record_count :: "u8 list \<Rightarrow> u16 option" where "dnsp_authority_record_count data = get_u16 8 data"
definition dnsp_additional_record_count :: "u8 list \<Rightarrow> u16 option" where "dnsp_additional_record_count data = get_u16 10 data"

definition dnsp_set_transaction_id :: "u16 \<Rightarrow> u8 list \<Rightarrow> u8 list option" where
  "dnsp_set_transaction_id v data = put_u16 0 v data"

definition dnsp_set_flags :: "u16 \<Rightarrow> u8 list \<Rightarrow> u8 list option" where
  "dnsp_set_flags v data = do { old \<leftarrow> get_u16 2 data; put_u16 2 ((old AND NOT FLAGS_ALL) OR v) data }"

definition dnsp_set_opcode :: "dns_opcode \<Rightarrow> u8 list \<Rightarrow> u8 list option" where
  "dnsp_set_opcode v data =
     do { let v = push_bit 11 (ucast (opcode_into v));
          old \<leftarrow> get_u16 2 data;
          put_u16 2 ((old AND NOT 0x3800) OR v) data }"

definition dnsp_set_question_count :: "u16 \<Rightarrow> u8 list \<Rightarrow> u8 list option" where "dnsp_set_question_count v data = put_u16 4 v data"
definition dnsp_set_answer_record_count :: "u16 \<Rightarrow> u8 list \<Rightarrow> u8 list option" where "dnsp_set_answer_record_count v data = put_u16 6 v data"
definition dnsp_set_authority_record_count :: "u16 \<Rightarrow> u8 list \<Rightarrow> u8 list option" where
  "dnsp_set_authority_record_count v data = put_u16 8 v data"
definition dnsp_set_additional_record_count :: "u16 \<Rightarrow> u8 list \<Rightarrow> u8 list option" where
  "dnsp_set_additional_record_count v data = put_u16 10 v data"

section \<open>Names\<close>

definition name_pointer :: "u8 \<Rightarrow> u8 \<Rightarrow> nat" where
  "name_pointer x y = push_bit 8 (unat (x AND 0x3F)) OR unat y"

text \<open>\<open>None\<close> ends the iteration. After an error the slices are unchanged, so that the next call returns it again.\<close>

function dns_name_next :: "u8 list \<Rightarrow> u8 list \<Rightarrow> (wire_error + u8 list) option \<times> u8 list \<times> u8 list" where
  "dns_name_next packet [] = (Some (Inl Wire_Error), packet, [])"
| "dns_name_next packet (x # rest) =
     (if x = 0 then (None, packet, x # rest)
      else if x AND 0xC0 = 0
      then (let len = unat (x AND 0x3F)
            in if length (x # rest) < 1 + len then (Some (Inl Wire_Error), packet, x # rest)
               else (Some (Inr (take len rest)), packet, drop len rest))
      else if x AND 0xC0 = 0xC0
      then (case rest of
              [] \<Rightarrow> (Some (Inl Wire_Error), packet, x # rest)
            | y # _ \<Rightarrow>
                let ptr = name_pointer x y
                in if length packet \<le> ptr then (Some (Inl Wire_Error), packet, x # rest)
                   else dns_name_next (take ptr packet) (drop ptr packet))
      else (Some (Inl Wire_Error), packet, x # rest))"
  by pat_completeness auto
termination by (relation "measure (\<lambda>(packet, bytes). length packet)") auto

text \<open>\<open>parse_name_part\<close>, with the labels that its closure is called with.\<close>

function dns_name_part :: "u8 list \<Rightarrow> wire_error + (u8 list list \<times> u8 list \<times> nat option)" where
  "dns_name_part [] = Inl Wire_Error"
| "dns_name_part (x # bytes) =
     (if x = 0 then Inr ([], bytes, None)
      else if x AND 0xC0 = 0
      then (let len = unat (x AND 0x3F)
            in if length bytes < len then Inl Wire_Error
               else case dns_name_part (drop len bytes) of
                      Inl e \<Rightarrow> Inl e
                    | Inr (labels, rest, ptr) \<Rightarrow> Inr (take len bytes # labels, rest, ptr))
      else if x AND 0xC0 = 0xC0
      then (case bytes of [] \<Rightarrow> Inl Wire_Error | y # bytes \<Rightarrow> Inr ([], bytes, Some (name_pointer x y)))
      else Inl Wire_Error)"
  by pat_completeness auto
termination by (relation "measure length") auto

section \<open>Questions and records\<close>

record dns_question =
  dq_name :: "u8 list"
  dq_type :: dns_type

definition dns_question_parse :: "u8 list \<Rightarrow> (wire_error + (u8 list \<times> dns_question)) option" where
  "dns_question_parse buffer = (case dns_name_part buffer of
      Inl e \<Rightarrow> Some (Inl e)
    | Inr (_, rest, _) \<Rightarrow>
        do { name_len \<leftarrow> checked_sub (length buffer) (length rest);
             name \<leftarrow> slice_range 0 name_len buffer;
             if length rest < 4 then Some (Inl Wire_Error)
             else do { type' \<leftarrow> get_u16 0 rest;
                       class' \<leftarrow> get_u16 2 rest;
                       rest \<leftarrow> slice_range 4 (length rest) rest;
                       if class' \<noteq> CLASS_IN then Some (Inl Wire_Error)
                       else Some (Inr (rest, \<lparr>dq_name = name, dq_type = dns_type_from type'\<rparr>)) } })"

definition dns_question_len :: "dns_question \<Rightarrow> nat" where "dns_question_len q = length (dq_name q) + 4"

definition dns_question_emit :: "dns_question \<Rightarrow> u8 list \<Rightarrow> u8 list option" where
  "dns_question_emit q packet =
     do { packet \<leftarrow> put_slice 0 (dq_name q) packet;
          packet \<leftarrow> put_u16 (length (dq_name q)) (dns_type_into (dq_type q)) packet;
          put_u16 (length (dq_name q) + 2) CLASS_IN packet }"

datatype dns_record_data = Record_A "u8 list" | Record_Aaaa "u8 list" | Record_Cname "u8 list" | Record_Other dns_type "u8 list"

definition dns_record_data_parse :: "dns_type \<Rightarrow> u8 list \<Rightarrow> wire_error + dns_record_data" where
  "dns_record_data_parse type' data = (case type' of
      Type_A \<Rightarrow> if length data \<noteq> 4 then Inl Wire_Error else Inr (Record_A data)
    | Type_Aaaa \<Rightarrow> if length data \<noteq> 16 then Inl Wire_Error else Inr (Record_Aaaa data)
    | Type_Cname \<Rightarrow> Inr (Record_Cname data)
    | x \<Rightarrow> Inr (Record_Other x data))"

record dns_record =
  dr_name :: "u8 list"
  dr_ttl :: u32
  dr_data :: dns_record_data

definition dns_record_parse :: "u8 list \<Rightarrow> (wire_error + (u8 list \<times> dns_record)) option" where
  "dns_record_parse buffer = (case dns_name_part buffer of
      Inl e \<Rightarrow> Some (Inl e)
    | Inr (_, rest, _) \<Rightarrow>
        do { name_len \<leftarrow> checked_sub (length buffer) (length rest);
             name \<leftarrow> slice_range 0 name_len buffer;
             if length rest < 10 then Some (Inl Wire_Error)
             else do { type' \<leftarrow> get_u16 0 rest;
                       class' \<leftarrow> get_u16 2 rest;
                       ttl \<leftarrow> get_u32 4 rest;
                       len \<leftarrow> map_option unat (get_u16 8 rest);
                       rest \<leftarrow> slice_range 10 (length rest) rest;
                       if class' \<noteq> CLASS_IN then Some (Inl Wire_Error)
                       else if length rest < len then Some (Inl Wire_Error)
                       else do { data \<leftarrow> slice_range 0 len rest;
                                 rest \<leftarrow> slice_range len (length rest) rest;
                                 try_then (Some (dns_record_data_parse (dns_type_from type') data)) (\<lambda>data.
                                   Some (Inr (rest, \<lparr>dr_name = name, dr_ttl = ttl, dr_data = data\<rparr>))) } } })"

section \<open>Queries\<close>

record dns_repr =
  dns_transaction_id :: u16
  dns_opcode :: dns_opcode
  dns_flags :: u16
  dns_question :: dns_question

definition dns_buffer_len :: "dns_repr \<Rightarrow> nat" where "dns_buffer_len repr = 12 + dns_question_len (dns_question repr)"

definition dns_emit :: "dns_repr \<Rightarrow> u8 list \<Rightarrow> u8 list option" where
  "dns_emit repr packet =
     do { packet \<leftarrow> dnsp_set_transaction_id (dns_transaction_id repr) packet;
          packet \<leftarrow> dnsp_set_flags (dns_flags repr) packet;
          packet \<leftarrow> dnsp_set_opcode (dns_opcode repr) packet;
          packet \<leftarrow> dnsp_set_question_count 1 packet;
          packet \<leftarrow> dnsp_set_answer_record_count 0 packet;
          packet \<leftarrow> dnsp_set_authority_record_count 0 packet;
          packet \<leftarrow> dnsp_set_additional_record_count 0 packet;
          payload \<leftarrow> slice_range 12 (length packet) packet;
          payload \<leftarrow> dns_question_emit (dns_question repr) payload;
          Some (take 12 packet @ payload) }"

section \<open>The labels of a name\<close>

lemma name_next_shorter:
  "dns_name_next packet bytes = (Some (Inr label), packet', bytes') \<Longrightarrow>
   length label + 1 + length packet' + length bytes' \<le> length packet + length bytes \<and> 0 < length label \<and> length label \<le> 63"
proof (induction packet bytes rule: dns_name_next.induct)
  case (2 packet x rest)
  have "x AND 0x3F \<le> 0x3F" by (rule word_and_le1)
  then have len: "unat (x AND 0x3F) \<le> 63" by (simp add: word_le_nat_alt)
  have pos: "0 < unat (x AND 0x3F)" if "x \<noteq> 0" "x AND 0xC0 = 0"
  proof -
    have "x AND (0xC0 OR 0x3F) = (x AND 0xC0) OR (x AND 0x3F)" by (rule bit.conj_disj_distrib)
    moreover have "(0xC0 OR 0x3F :: u8) = - 1" by simp
    ultimately have "x = (x AND 0xC0) OR (x AND 0x3F)" by (metis and.right_neutral)
    also have "\<dots> = x AND 0x3F" unfolding that(2) by simp
    finally have "x AND 0x3F \<noteq> 0" using that(1) by simp
    then show ?thesis by (simp add: unat_gt_0)
  qed
  show ?case
  proof (cases "x \<noteq> 0 \<and> x AND 0xC0 \<noteq> 0")
    case True
    then obtain y ys where y: "rest = y # ys" "x AND 0xC0 = 0xC0" "\<not> length packet \<le> name_pointer x y"
      "dns_name_next (take (name_pointer x y) packet) (drop (name_pointer x y) packet) = (Some (Inr label), packet', bytes')"
      using 2(2) by (auto simp: Let_def split: if_splits list.splits)
    then have "length label + 1 + length packet' + length bytes' \<le> length packet \<and> 0 < length label \<and> length label \<le> 63"
      using 2(1) [OF _ _ _ y(1) refl] True by auto
    then show ?thesis using y(1) by auto
  next
    case False
    then show ?thesis using 2(2) len pos by (auto simp: Let_def split: if_splits)
  qed
qed simp

text \<open>
  What a loop over the iterator sees: the labels, and whether it ended without an error. The recursion is the loop; every
  label shortens the two slices together.
\<close>

function dns_label_loop :: "u8 list \<Rightarrow> u8 list \<Rightarrow> u8 list list \<times> bool" where
  "dns_label_loop packet bytes = (case dns_name_next packet bytes of
      (None, _) \<Rightarrow> ([], True)
    | (Some (Inl _), _) \<Rightarrow> ([], False)
    | (Some (Inr label), packet', bytes') \<Rightarrow> (case dns_label_loop packet' bytes' of (labels, ok) \<Rightarrow> (label # labels, ok)))"
  by pat_completeness auto
termination
  by (relation "measure (\<lambda>(packet, bytes). length packet + length bytes)") (auto dest!: name_next_shorter [OF sym])

declare dns_label_loop.simps [simp del]

definition dns_labels :: "u8 list \<Rightarrow> u8 list \<Rightarrow> u8 list list option" where
  "dns_labels packet bytes = (case dns_label_loop packet bytes of (labels, ok) \<Rightarrow> if ok then Some labels else None)"

lemma dns_labels_step:
  "dns_labels packet bytes = (case dns_name_next packet bytes of
      (None, _) \<Rightarrow> Some []
    | (Some (Inl _), _) \<Rightarrow> None
    | (Some (Inr label), packet', bytes') \<Rightarrow> map_option ((#) label) (dns_labels packet' bytes'))"
  by (simp add: dns_labels_def dns_label_loop.simps [of packet bytes] split: option.split sum.split prod.split)

definition label_octets :: "u8 list list \<Rightarrow> nat" where
  "label_octets labels = sum_list (map (\<lambda>l. 1 + length l) labels)"

lemma label_loop_bounds:
  assumes "dns_label_loop packet bytes = (labels, ok)"
  shows "(\<forall>l \<in> set labels. 0 < length l \<and> length l \<le> 63) \<and> label_octets labels \<le> length packet + length bytes"
  using assms
proof (induction "length packet + length bytes" arbitrary: packet bytes labels rule: less_induct)
  case (less packet bytes)
  show ?case
  proof (cases "\<exists>label packet' bytes'. dns_name_next packet bytes = (Some (Inr label), packet', bytes')")
    case True
    then obtain label packet' bytes' where n: "dns_name_next packet bytes = (Some (Inr label), packet', bytes')" by blast
    obtain labels' ok' where l: "dns_label_loop packet' bytes' = (labels', ok')" by (cases "dns_label_loop packet' bytes'")
    then have "labels = label # labels'" "ok' = ok" using less(2) n by (simp_all add: dns_label_loop.simps [of packet bytes])
    moreover have "(\<forall>l \<in> set labels'. 0 < length l \<and> length l \<le> 63) \<and> label_octets labels' \<le> length packet' + length bytes'"
      using less(1) [of packet' bytes' labels'] name_next_shorter [OF n] l \<open>ok' = ok\<close> by auto
    ultimately show ?thesis using name_next_shorter [OF n] by (auto simp: label_octets_def)
  next
    case False
    then have "labels = []"
      using less(2) by (auto simp: dns_label_loop.simps [of packet bytes] split: option.splits sum.splits prod.splits)
    then show ?thesis by (simp add: label_octets_def)
  qed
qed

text \<open>The name that consists of the given labels.\<close>

definition encode_labels :: "u8 list list \<Rightarrow> u8 list" where
  "encode_labels labels = concat (map (\<lambda>l. of_nat (length l) # l) labels)"

definition good_labels :: "u8 list list \<Rightarrow> bool" where
  "good_labels labels \<longleftrightarrow> (\<forall>l \<in> set labels. 0 < length l \<and> length l \<le> 63)"

lemma encode_labels_simps [simp]:
  "encode_labels [] = []" "encode_labels (l # ls) = of_nat (length l) # l @ encode_labels ls"
  "encode_labels (ls @ ls') = encode_labels ls @ encode_labels ls'"
  by (simp_all add: encode_labels_def)

lemma length_encode_labels [simp]: "length (encode_labels labels) = label_octets labels"
  by (induction labels) (simp_all add: label_octets_def)

lemma good_labels_simps [simp]:
  "good_labels []" "good_labels (l # ls) \<longleftrightarrow> l \<noteq> [] \<and> length l \<le> 63 \<and> good_labels ls"
  by (auto simp: good_labels_def)

lemma label_octet:
  assumes "0 < n" "n \<le> 63"
  shows "(of_nat n :: u8) \<noteq> 0" "(of_nat n :: u8) AND 0xC0 = 0" "unat ((of_nat n :: u8) AND 0x3F) = n"
proof -
  have n: "unat (of_nat n :: u8) = n" using assms by (subst unat_of_nat) simp
  then show "(of_nat n :: u8) \<noteq> 0" using assms(1) by (metis less_numeral_extra(3) unat_0)
  have "(of_nat n :: u8) = take_bit 6 (of_nat n)"
    unfolding word_unat_eq_iff unsigned_take_bit_eq n using assms(2) by (simp add: take_bit_nat_eq_self)
  then have t: "(of_nat n :: u8) = of_nat n AND 0x3F" by (simp add: take_bit_eq_mask mask_eq_exp_minus_1)
  then show "unat ((of_nat n :: u8) AND 0x3F) = n" using n by simp
  have "(of_nat n :: u8) AND 0xC0 = (of_nat n AND 0x3F) AND 0xC0" using t by simp
  also have "\<dots> = 0" by (simp add: and.assoc)
  finally show "(of_nat n :: u8) AND 0xC0 = 0" .
qed

lemma dns_labels_encode:
  "good_labels labels \<Longrightarrow> dns_labels packet (encode_labels labels @ 0 # rest) = Some labels"
proof (induction labels)
  case Nil
  then show ?case by (simp add: dns_labels_step [of packet "0 # rest"])
next
  case (Cons l ls)
  then have "dns_name_next packet (encode_labels (l # ls) @ 0 # rest) = (Some (Inr l), packet, encode_labels ls @ 0 # rest)"
    using label_octet [of "length l"] by (simp add: Let_def)
  then show ?case using Cons by (simp add: dns_labels_step [of packet "encode_labels (l # ls) @ 0 # rest"] del: encode_labels_simps)
qed

lemma dns_name_part_encode:
  "good_labels labels \<Longrightarrow> dns_name_part (encode_labels labels @ 0 # rest) = Inr (labels, rest, None)"
proof (induction labels)
  case (Cons l ls)
  then show ?case using label_octet [of "length l"] by (simp add: Let_def)
qed simp

lemma dns_name_part_suffix: "dns_name_part bytes = Inr (labels, rest, ptr) \<Longrightarrow> \<exists>name. bytes = name @ rest"
proof (induction bytes arbitrary: labels rule: dns_name_part.induct)
  case (2 x bytes)
  show ?case
  proof (cases "x \<noteq> 0 \<and> x AND 0xC0 = 0")
    case True
    let ?n = "unat (x AND 0x3F)"
    from True 2(2) obtain labels' where "dns_name_part (drop ?n bytes) = Inr (labels', rest, ptr)" "\<not> length bytes < ?n"
      by (auto simp: Let_def split: if_splits sum.splits)
    then obtain name where "drop ?n bytes = name @ rest" using 2(1) True by blast
    then have "x # bytes = (x # take ?n bytes @ name) @ rest" by (metis append.assoc append_Cons append_take_drop_id)
    then show ?thesis by blast
  next
    case False
    then show ?thesis using 2(2) by (auto split: if_splits list.splits)
  qed
qed simp

section \<open>Parsing is total\<close>

lemma dns_question_parse_total: "dns_question_parse buffer \<noteq> None"
proof (cases "dns_name_part buffer")
  case (Inr p)
  obtain labels rest ptr where p: "p = (labels, rest, ptr)" by (cases p)
  then have "length rest \<le> length buffer" using dns_name_part_suffix Inr by (metis length_append le_add2)
  then show ?thesis using Inr p by (simp add: dns_question_parse_def checked_sub_def)
qed (simp add: dns_question_parse_def)

lemma dns_record_parse_total: "dns_record_parse buffer \<noteq> None"
proof (cases "dns_name_part buffer")
  case (Inr p)
  obtain labels rest ptr where p: "p = (labels, rest, ptr)" by (cases p)
  then have "length rest \<le> length buffer" using dns_name_part_suffix Inr by (metis length_append le_add2)
  moreover have "dns_record_data_parse t data = Inl e \<or> (\<exists>d. dns_record_data_parse t data = Inr d)" for t data e
    by (cases "dns_record_data_parse t data"; cases e) (auto intro: wire_error.exhaust)
  ultimately show ?thesis
    using Inr p by (auto simp: dns_record_parse_def checked_sub_def try_then_def not_less split: sum.splits)
qed (simp add: dns_record_parse_def)

section \<open>A query that is emitted\<close>

lemma header_flags:
  assumes "flags AND FLAGS_ALL = flags" "opcode \<in> {Opcode_Query, Opcode_Status}"
  defines "w \<equiv> (((0 AND NOT FLAGS_ALL) OR flags) AND NOT 0x3800) OR push_bit 11 (ucast (opcode_into opcode)) :: u16"
  shows "w AND FLAGS_ALL = flags" "opcode_from (ucast (drop_bit 11 w AND 0xF)) = opcode"
proof -
  have f: "flags AND NOT 0x3800 = flags"
  proof -
    have "(0x87b0 AND NOT 0x3800 :: u16) = 0x87b0" by simp
    then show ?thesis using assms(1) unfolding FLAGS_ALL_def by (metis and.assoc)
  qed
  have w: "w = flags OR push_bit 11 (ucast (opcode_into opcode))" using f by (simp add: w_def)
  have o: "push_bit 11 (ucast (opcode_into opcode)) AND FLAGS_ALL = (0 :: u16)"
    using assms(2) by (auto simp: FLAGS_ALL_def)
  show "w AND FLAGS_ALL = flags" unfolding w bit.conj_disj_distrib2 o using assms(1) by simp
  have "drop_bit 11 flags AND 0xF = drop_bit 11 (flags AND FLAGS_ALL) AND 0xF" using assms(1) by simp
  also have "\<dots> = drop_bit 11 flags AND (drop_bit 11 FLAGS_ALL AND 0xF)" by (simp only: drop_bit_and and.assoc)
  also have "drop_bit 11 FLAGS_ALL AND 0xF = (0 :: u16)" by (simp add: FLAGS_ALL_def)
  finally have "drop_bit 11 flags AND 0xF = 0" by simp
  then have "drop_bit 11 w AND 0xF = drop_bit 11 (push_bit 11 (ucast (opcode_into opcode))) AND 0xF"
    unfolding w by (simp add: drop_bit_or bit.conj_disj_distrib2)
  then show "opcode_from (ucast (drop_bit 11 w AND 0xF)) = opcode"
    using assms(2) by (auto simp: opcode_from_def)
qed

lemma dns_question_emit_parse:
  assumes name: "dq_name q = encode_labels labels @ [0]" "good_labels labels"
    and type: "dns_type_from (dns_type_into (dq_type q)) = dq_type q" and len: "length packet = dns_question_len q"
  obtains out where "dns_question_emit q packet = Some out" "length out = length packet"
    "dns_question_parse out = Some (Inr ([], q))"
proof -
  let ?n = "length (dq_name q)"
  let ?out = "dq_name q @ be_bytes 2 (unat (dns_type_into (dq_type q))) @ be_bytes 2 (unat CLASS_IN)"
  have "dns_question_emit q packet = Some (poke (?n + 2) (be_bytes 2 (unat CLASS_IN))
      (poke ?n (be_bytes 2 (unat (dns_type_into (dq_type q)))) (poke 0 (dq_name q) packet)))"
    using len by (simp add: dns_question_emit_def dns_question_len_def)
  also have "poke (?n + 2) (be_bytes 2 (unat CLASS_IN))
      (poke ?n (be_bytes 2 (unat (dns_type_into (dq_type q)))) (poke 0 (dq_name q) packet)) = ?out"
    using len by (simp add: poke_decompose dns_question_len_def)
  finally have e: "dns_question_emit q packet = Some ?out" .
  let ?rest = "be_bytes 2 (unat (dns_type_into (dq_type q))) @ be_bytes 2 (unat CLASS_IN)"
  have "dns_name_part ?out = Inr (labels, ?rest, None)"
    using dns_name_part_encode [OF name(2), of ?rest] name(1) by simp
  moreover have "sub_slice 0 ?n ?out = dq_name q" "sub_slice 0 2 ?rest = be_bytes 2 (unat (dns_type_into (dq_type q)))"
    "sub_slice 2 2 ?rest = be_bytes 2 (unat CLASS_IN)"
    by (simp_all add: sub_slice_def)
  ultimately have "dns_question_parse ?out = Some (Inr ([], q))"
    using type by (cases q) (simp add: dns_question_parse_def checked_sub_def sub_slice_def)
  then show thesis using that [OF e] len by (simp add: dns_question_len_def)
qed

lemma dns_emit_parse:
  assumes name: "dq_name (dns_question repr) = encode_labels labels @ [0]" "good_labels labels"
    and type: "dns_type_from (dns_type_into (dq_type (dns_question repr))) = dq_type (dns_question repr)"
    and flags: "dns_flags repr AND FLAGS_ALL = dns_flags repr" "dns_opcode repr \<in> {Opcode_Query, Opcode_Status}"
  obtains out payload where "dns_emit repr (replicate (dns_buffer_len repr) 0) = Some out" "length out = dns_buffer_len repr"
    "dnsp_check_len out = Inr ()" "dnsp_transaction_id out = Some (dns_transaction_id repr)"
    "dnsp_flags out = Some (dns_flags repr)" "dnsp_opcode out = Some (dns_opcode repr)"
    "dnsp_question_count out = Some 1" "dnsp_answer_record_count out = Some 0"
    "dnsp_payload out = Some payload" "dns_question_parse payload = Some (Inr ([], dns_question repr))"
proof -
  let ?q = "dns_question repr" and ?n = "dns_buffer_len repr"
  define w where "w = (((0 AND NOT FLAGS_ALL) OR dns_flags repr) AND NOT 0x3800) OR push_bit 11 (ucast (opcode_into (dns_opcode repr)) :: u16)"
  note w = header_flags [OF flags, folded w_def]
  let ?h = "be_bytes 2 (unat (dns_transaction_id repr)) @ be_bytes 2 (unat w) @ be_bytes 2 1 @ be_bytes 2 0 @ be_bytes 2 0 @ be_bytes 2 0"
  have n: "?n = 12 + dns_question_len ?q" by (simp add: dns_buffer_len_def)
  have lp: "length (replicate (dns_question_len ?q) 0 :: u8 list) = dns_question_len ?q" by simp
  obtain payload where p: "dns_question_emit ?q (replicate (dns_question_len ?q) 0) = Some payload" "length payload = dns_question_len ?q"
    "dns_question_parse payload = Some (Inr ([], ?q))"
    using dns_question_emit_parse [OF name type lp] by auto
  define b where "b = poke 10 (be_bytes 2 0) (poke 8 (be_bytes 2 0) (poke 6 (be_bytes 2 0) (poke 4 (be_bytes 2 1)
      (poke 2 (be_bytes 2 (unat w)) (poke 2 (be_bytes 2 (unat ((0 AND NOT FLAGS_ALL) OR dns_flags repr)))
        (poke 0 (be_bytes 2 (unat (dns_transaction_id repr))) (replicate ?n 0)))))))"
  have z: "sub_slice 2 2 (replicate ?n 0 :: u8 list) = be_bytes 2 0" using n by (simp add: sub_slice_def be_bytes_pair numeral_2_eq_2)
  have zero: "be_u16 (be_bytes 2 0) = 0" by (simp add: be_u16_def)
  have b: "b = ?h @ replicate (dns_question_len ?q) 0"
    unfolding b_def n by (simp add: poke_decompose)
  have "take 12 b = ?h" "sub_slice 12 (dns_question_len ?q) b = replicate (dns_question_len ?q) 0" "length b = ?n"
    by (simp_all add: b n sub_slice_def)
  then have e: "dns_emit repr (replicate ?n 0) = Some (?h @ payload)"
    using p(1) n z zero
    by (simp add: dns_emit_def dnsp_set_transaction_id_def dnsp_set_flags_def dnsp_set_opcode_def dnsp_set_question_count_def
        dnsp_set_answer_record_count_def dnsp_set_authority_record_count_def dnsp_set_additional_record_count_def
        w_def b_def Let_def)
  let ?out = "?h @ payload"
  have "sub_slice 0 2 ?out = be_bytes 2 (unat (dns_transaction_id repr))" "sub_slice 2 2 ?out = be_bytes 2 (unat w)"
    "sub_slice 4 2 ?out = be_bytes 2 1" "sub_slice 6 2 ?out = be_bytes 2 0" "length ?out = 12 + length payload"
    "sub_slice 12 (length payload) ?out = payload"
    by (simp_all add: sub_slice_def)
  moreover have "be_u16 (be_bytes 2 1) = 1" by (simp add: be_u16_def)
  ultimately show thesis
    using that [OF e, of payload] p(2,3) w n zero
    by (simp add: dnsp_check_len_def dnsp_transaction_id_def dnsp_flags_def dnsp_opcode_def dnsp_question_count_def
        dnsp_answer_record_count_def dnsp_payload_def)
qed

section \<open>Properties\<close>

text \<open>C40. Reading a name always ends, whatever the octets and wherever the pointers lead: a loop over \<open>parse_name\<close> sees labels
  of 1 to 63 octets, and with their length octets they take no more than the packet and the name together, so that pointers
  cannot make a name endless or longer than what there is to read.\<close>

theorem dns_names_end:
  "list_all (\<lambda>label. 0 < length label \<and> length label \<le> 63) (fst (dns_label_loop packet bytes))
   \<and> label_octets (fst (dns_label_loop packet bytes)) \<le> length packet + length bytes"
  using label_loop_bounds [of packet bytes "fst (dns_label_loop packet bytes)" "snd (dns_label_loop packet bytes)"]
  by (simp add: list_all_iff)

end
