(* ===== verification/Dns_Socket.thy ===== *)
theory Dns_Socket
  imports Dns_Wire Smol_Rand Tcp_Timers Udp_Wire
begin

text \<open>
  The DNS resolver, \<^verbatim>\<open>src/socket/dns.rs\<close>, with the feature \<open>socket-mdns\<close>. The limits that the build configures are
  arguments. A slot of \<open>queries\<close> holds the state of a query; the wakers are not modelled. The slice of slots may be owned, and
  then grows, or borrowed. The random numbers and the source address come from the context.
\<close>

section \<open>State\<close>

record dns_limits =
  DNS_MAX_NAME_SIZE :: nat
  DNS_MAX_RESULT_COUNT :: nat
  DNS_MAX_SERVER_COUNT :: nat

definition DNS_PORT :: u16 where "DNS_PORT = 53"
definition MDNS_DNS_PORT :: u16 where "MDNS_DNS_PORT = 5353"
definition RETRANSMIT_DELAY :: duration where "RETRANSMIT_DELAY = duration_from_millis 1000"
definition MAX_RETRANSMIT_DELAY :: duration where "MAX_RETRANSMIT_DELAY = duration_from_millis 10000"
definition RETRANSMIT_TIMEOUT :: duration where "RETRANSMIT_TIMEOUT = duration_from_millis 10000"

definition MDNS_IPV6_ADDR :: ip_address where "MDNS_IPV6_ADDR = Ipv6 [0xff, 2, 0, 0, 0, 0, 0, 0, 0, 0, 0, 0, 0, 0, 0, 0xfb]"
definition MDNS_IPV4_ADDR :: ip_address where "MDNS_IPV4_ADDR = Ipv4 [224, 0, 0, 251]"

datatype start_query_error = Query_NoFreeSlot | Query_InvalidName | Query_NameTooLong
datatype get_query_result_error = Query_Pending | Query_Failed
datatype multicast_dns = Mdns_Disabled | Mdns_Enabled

record dns_pending =
  pq_name :: "u8 list"
  pq_type :: dns_type
  pq_port :: u16
  pq_txid :: u16
  pq_timeout_at :: "instant option"
  pq_retransmit_at :: instant
  pq_delay :: duration
  pq_server_idx :: nat
  pq_mdns :: multicast_dns

datatype dns_state = Dns_Pending dns_pending | Dns_Completed "ip_address list" | Dns_Failure

record dns_socket =
  ds_servers :: "ip_address list"
  ds_queries :: "dns_state option list"
  ds_owned :: bool
  ds_hop_limit :: "u8 option"

section \<open>heapless vectors\<close>

definition vec_push :: "nat \<Rightarrow> 'a \<Rightarrow> 'a list \<Rightarrow> 'a list option" where
  "vec_push cap x v = (if length v < cap then Some (v @ [x]) else None)"

definition vec_extend :: "nat \<Rightarrow> 'a list \<Rightarrow> 'a list \<Rightarrow> 'a list option" where
  "vec_extend cap xs v = (if length v + length xs \<le> cap then Some (v @ xs) else None)"

section \<open>The application\<close>

definition dns_new :: "dns_limits \<Rightarrow> ip_address list \<Rightarrow> dns_state option list \<Rightarrow> bool \<Rightarrow> dns_socket option" where
  "dns_new lim servers queries owned =
     do { servers \<leftarrow> vec_extend (DNS_MAX_SERVER_COUNT lim) servers [];
          Some \<lparr>ds_servers = servers, ds_queries = queries, ds_owned = owned, ds_hop_limit = None\<rparr> }"

definition dns_update_servers :: "dns_limits \<Rightarrow> ip_address list \<Rightarrow> dns_socket \<Rightarrow> dns_socket option" where
  "dns_update_servers lim servers s =
     do { servers \<leftarrow> vec_extend (DNS_MAX_SERVER_COUNT lim) servers []; Some (s\<lparr>ds_servers := servers\<rparr>) }"

definition dns_set_hop_limit :: "u8 option \<Rightarrow> dns_socket \<Rightarrow> dns_socket option" where
  "dns_set_hop_limit hop_limit s = (if hop_limit = Some 0 then None else Some (s\<lparr>ds_hop_limit := hop_limit\<rparr>))"

fun free_slot :: "nat \<Rightarrow> dns_state option list \<Rightarrow> nat option" where
  "free_slot i [] = None"
| "free_slot i (q # qs) = (if q = None then Some i else free_slot (i + 1) qs)"

definition find_free_query :: "dns_socket \<Rightarrow> nat option \<times> dns_socket" where
  "find_free_query s = (case free_slot 0 (ds_queries s) of
      Some i \<Rightarrow> (Some i, s)
    | None \<Rightarrow> if ds_owned s then let queries = ds_queries s @ [None] in (Some (length queries - 1), s\<lparr>ds_queries := queries\<rparr>)
              else (None, s))"

text \<open>\<open>slice::split\<close> at the dots.\<close>

fun split_dots :: "u8 list \<Rightarrow> u8 list list" where
  "split_dots [] = [[]]"
| "split_dots (c # cs) = (if c = 46 then [] # split_dots cs else case split_dots cs of l # ls \<Rightarrow> (c # l) # ls | [] \<Rightarrow> [[c]])"

fun push_labels :: "nat \<Rightarrow> u8 list list \<Rightarrow> u8 list \<Rightarrow> start_query_error + u8 list" where
  "push_labels cap [] raw_name = (case vec_push cap 0 raw_name of None \<Rightarrow> Inl Query_NameTooLong | Some raw_name \<Rightarrow> Inr raw_name)"
| "push_labels cap (s # ss) raw_name =
     (if length s > 63 then Inl Query_InvalidName
      else if s = [] then Inl Query_InvalidName
      else case vec_push cap (of_nat (length s)) raw_name of
             None \<Rightarrow> Inl Query_NameTooLong
           | Some raw_name \<Rightarrow> (case vec_extend cap s raw_name of
                 None \<Rightarrow> Inl Query_NameTooLong
               | Some raw_name \<Rightarrow> push_labels cap ss raw_name))"

definition strip_dot :: "u8 list \<Rightarrow> u8 list" where
  "strip_dot name = (if last name = 46 then butlast name else name)"

text \<open>
  \<open>start_query_raw\<close>: the result, the socket and the generator. A slot that has been appended stays when the name is too
  long. \<open>None\<close>: the generator never draws a port above 1024.
\<close>

definition start_query_raw ::
  "dns_limits \<Rightarrow> u8 list \<Rightarrow> dns_type \<Rightarrow> multicast_dns \<Rightarrow> rand \<Rightarrow> dns_socket \<Rightarrow>
   ((start_query_error + nat) \<times> rand \<times> dns_socket) option" where
  "start_query_raw lim raw_name query_type mdns rand s = (case find_free_query s of
      (None, s) \<Rightarrow> Some (Inl Query_NoFreeSlot, rand, s)
    | (Some handle, s) \<Rightarrow> (case vec_extend (DNS_MAX_NAME_SIZE lim) raw_name [] of
          None \<Rightarrow> Some (Inl Query_NameTooLong, rand, s)
        | Some name \<Rightarrow>
            do { let (txid, rand) = rand_u16 rand;
                 (port, rand) \<leftarrow> rand_source_port rand;
                 let pq = \<lparr>pq_name = name, pq_type = query_type, pq_port = port, pq_txid = txid, pq_timeout_at = None,
                           pq_retransmit_at = 0, pq_delay = RETRANSMIT_DELAY, pq_server_idx = 0, pq_mdns = mdns\<rparr>;
                 Some (Inr handle, rand, s\<lparr>ds_queries := (ds_queries s)[handle := Some (Dns_Pending pq)]\<rparr>) }))"

definition start_query ::
  "dns_limits \<Rightarrow> u8 list \<Rightarrow> dns_type \<Rightarrow> rand \<Rightarrow> dns_socket \<Rightarrow> ((start_query_error + nat) \<times> rand \<times> dns_socket) option" where
  "start_query lim name query_type rand s =
     (if name = [] then Some (Inl Query_InvalidName, rand, s)
      else let name = strip_dot name;
               mdns = (if last (split_dots name) = [108, 111, 99, 97, 108] then Mdns_Enabled else Mdns_Disabled)
           in case push_labels (DNS_MAX_NAME_SIZE lim) (split_dots name) [] of
                Inl e \<Rightarrow> Some (Inl e, rand, s)
              | Inr raw_name \<Rightarrow> start_query_raw lim raw_name query_type mdns rand s)"

definition get_query_result ::
  "nat \<Rightarrow> dns_socket \<Rightarrow> ((get_query_result_error + ip_address list) \<times> dns_socket) option" where
  "get_query_result handle s =
     do { rust_assert (handle < length (ds_queries s));
          q \<leftarrow> ds_queries s ! handle;
          case q of
            Dns_Pending _ \<Rightarrow> Some (Inl Query_Pending, s)
          | Dns_Completed addresses \<Rightarrow> Some (Inr addresses, s\<lparr>ds_queries := (ds_queries s)[handle := None]\<rparr>)
          | Dns_Failure \<Rightarrow> Some (Inl Query_Failed, s\<lparr>ds_queries := (ds_queries s)[handle := None]\<rparr>) }"

definition cancel_query :: "nat \<Rightarrow> dns_socket \<Rightarrow> dns_socket option" where
  "cancel_query handle s =
     do { rust_assert (handle < length (ds_queries s));
          rust_assert (ds_queries s ! handle \<noteq> None);
          Some (s\<lparr>ds_queries := (ds_queries s)[handle := None]\<rparr>) }"

section \<open>Responses\<close>

definition dns_accepts :: "ip_repr \<Rightarrow> udp_repr \<Rightarrow> dns_socket \<Rightarrow> bool" where
  "dns_accepts ip udp s \<longleftrightarrow> u_src_port udp = DNS_PORT \<and> list_ex (\<lambda>server. server = ip_src_addr ip) (ds_servers s)
     \<or> u_src_port udp = MDNS_DNS_PORT"

function eq_names :: "u8 list \<times> u8 list \<Rightarrow> u8 list \<times> u8 list \<Rightarrow> wire_error + bool" where
  "eq_names (p, a) (r, b) = (case (dns_name_next p a, dns_name_next r b) of
      ((Some (Inl e), _), _) \<Rightarrow> Inl e
    | (_, (Some (Inl e), _)) \<Rightarrow> Inl e
    | ((None, _), (None, _)) \<Rightarrow> Inr True
    | ((None, _), _) \<Rightarrow> Inr False
    | (_, (None, _)) \<Rightarrow> Inr False
    | ((Some (Inr la), p', a'), (Some (Inr lb), r', b')) \<Rightarrow> if la \<noteq> lb then Inr False else eq_names (p', a') (r', b'))"
  by pat_completeness auto
termination
  by (relation "measure (\<lambda>((p, a), _). length p + length a)") (auto dest!: name_next_shorter [OF sym])

text \<open>\<open>copy_name\<close>: the result and the vector, which is overwritten even when the copy fails.\<close>

function copy_labels :: "nat \<Rightarrow> u8 list \<Rightarrow> u8 list \<times> u8 list \<Rightarrow> (wire_error + unit) \<times> u8 list" where
  "copy_labels cap dest (p, a) = (case dns_name_next p a of
      (None, _) \<Rightarrow> (case vec_push cap 0 dest of None \<Rightarrow> (Inl Wire_Error, dest) | Some dest \<Rightarrow> (Inr (), dest))
    | (Some (Inl e), _) \<Rightarrow> (Inl e, dest)
    | (Some (Inr label), p', a') \<Rightarrow> (case vec_push cap (of_nat (length label)) dest of
          None \<Rightarrow> (Inl Wire_Error, dest)
        | Some dest \<Rightarrow> (case vec_extend cap label dest of
              None \<Rightarrow> (Inl Wire_Error, dest)
            | Some dest \<Rightarrow> copy_labels cap dest (p', a'))))"
  by pat_completeness auto
termination
  by (relation "measure (\<lambda>(_, _, p, a). length p + length a)") (auto dest!: name_next_shorter [OF sym])

definition copy_name :: "nat \<Rightarrow> u8 list \<times> u8 list \<Rightarrow> (wire_error + unit) \<times> u8 list" where
  "copy_name cap name = copy_labels cap [] name"

text \<open>\<open>addresses.push\<close>; what does not fit is ignored.\<close>

definition push_address :: "nat \<Rightarrow> ip_address \<Rightarrow> ip_address list \<Rightarrow> ip_address list" where
  "push_address cap a addresses = (case vec_push cap a addresses of None \<Rightarrow> addresses | Some v \<Rightarrow> v)"

text \<open>The loop over the answers: the name of the query, and the addresses unless it returned early.\<close>

fun dns_answers ::
  "dns_limits \<Rightarrow> u8 list \<Rightarrow> nat \<Rightarrow> u8 list \<Rightarrow> u8 list \<Rightarrow> ip_address list \<Rightarrow> (u8 list \<times> ip_address list option) option" where
  "dns_answers lim p 0 payload name addresses = Some (name, Some addresses)"
| "dns_answers lim p (Suc n) payload name addresses =
     do { parsed \<leftarrow> dns_record_parse payload;
          case parsed of
            Inl _ \<Rightarrow> Some (name, None)
          | Inr (payload, r) \<Rightarrow> (case eq_names (p, dr_name r) (p, name) of
                Inl _ \<Rightarrow> Some (name, None)
              | Inr False \<Rightarrow> dns_answers lim p n payload name addresses
              | Inr True \<Rightarrow> (case dr_data r of
                    Record_A addr \<Rightarrow> dns_answers lim p n payload name (push_address (DNS_MAX_RESULT_COUNT lim) (Ipv4 addr) addresses)
                  | Record_Aaaa addr \<Rightarrow> dns_answers lim p n payload name (push_address (DNS_MAX_RESULT_COUNT lim) (Ipv6 addr) addresses)
                  | Record_Cname cname \<Rightarrow> (case copy_name (DNS_MAX_NAME_SIZE lim) (p, cname) of
                        (Inl _, name) \<Rightarrow> Some (name, None)
                      | (Inr _, name) \<Rightarrow> dns_answers lim p n payload name addresses)
                  | Record_Other _ _ \<Rightarrow> dns_answers lim p n payload name addresses)) }"

definition dns_response :: "dns_limits \<Rightarrow> u8 list \<Rightarrow> dns_pending \<Rightarrow> dns_state option" where
  "dns_response lim p pq =
     do { payload \<leftarrow> dnsp_payload p;
          parsed \<leftarrow> dns_question_parse payload;
          case parsed of
            Inl _ \<Rightarrow> Some (Dns_Pending pq)
          | Inr (payload, question) \<Rightarrow>
              if dq_type question \<noteq> pq_type pq then Some (Dns_Pending pq)
              else if eq_names (p, dq_name question) (p, pq_name pq) \<noteq> Inr True then Some (Dns_Pending pq)
              else do { count \<leftarrow> dnsp_answer_record_count p;
                        (name, res) \<leftarrow> dns_answers lim p (unat count) payload (pq_name pq) [];
                        Some (case res of
                          None \<Rightarrow> Dns_Pending (pq\<lparr>pq_name := name\<rparr>)
                        | Some addresses \<Rightarrow> if addresses = [] then Dns_Failure else Dns_Completed addresses) } }"

fun dns_process_queries ::
  "dns_limits \<Rightarrow> u8 list \<Rightarrow> udp_repr \<Rightarrow> dns_state option list \<Rightarrow> dns_state option list option" where
  "dns_process_queries lim p udp [] = Some []"
| "dns_process_queries lim p udp (Some (Dns_Pending pq) # qs) =
     do { txid \<leftarrow> dnsp_transaction_id p;
          if u_dst_port udp \<noteq> pq_port pq \<or> txid \<noteq> pq_txid pq
          then do { qs \<leftarrow> dns_process_queries lim p udp qs; Some (Some (Dns_Pending pq) # qs) }
          else do { rcode \<leftarrow> dnsp_rcode p;
                    if rcode = Rcode_NXDomain
                    then do { qs \<leftarrow> dns_process_queries lim p udp qs; Some (Some Dns_Failure # qs) }
                    else do { state \<leftarrow> dns_response lim p pq; Some (Some state # qs) } } }"
| "dns_process_queries lim p udp (q # qs) = do { qs \<leftarrow> dns_process_queries lim p udp qs; Some (q # qs) }"

definition dns_process :: "dns_limits \<Rightarrow> ip_repr \<Rightarrow> udp_repr \<Rightarrow> u8 list \<Rightarrow> dns_socket \<Rightarrow> dns_socket option" where
  "dns_process lim ip udp payload s =
     do { rust_assert (dns_accepts ip udp s);
          case dnsp_check_len payload of
            Inl _ \<Rightarrow> Some s
          | Inr _ \<Rightarrow>
              do { opcode \<leftarrow> dnsp_opcode payload;
                   flags \<leftarrow> dnsp_flags payload;
                   count \<leftarrow> dnsp_question_count payload;
                   if opcode \<noteq> Opcode_Query then Some s
                   else if flags AND FLAG_RESPONSE \<noteq> FLAG_RESPONSE then Some s
                   else if count \<noteq> 1 then Some s
                   else do { queries \<leftarrow> dns_process_queries lim payload udp (ds_queries s);
                             Some (s\<lparr>ds_queries := queries\<rparr>) } } }"

section \<open>Queries\<close>

definition pq_servers :: "dns_pending \<Rightarrow> dns_socket \<Rightarrow> ip_address list" where
  "pq_servers pq s = (case pq_mdns pq of Mdns_Enabled \<Rightarrow> [MDNS_IPV6_ADDR, MDNS_IPV4_ADDR] | Mdns_Disabled \<Rightarrow> ds_servers s)"

text \<open>The timeout, and the next server.\<close>

definition pq_check_timeout :: "instant \<Rightarrow> dns_pending \<Rightarrow> dns_pending" where
  "pq_check_timeout now pq =
     (let timeout = (case pq_timeout_at pq of Some timeout \<Rightarrow> timeout | None \<Rightarrow> instant_add now RETRANSMIT_TIMEOUT);
          pq = pq\<lparr>pq_timeout_at := Some timeout\<rparr>
      in if timeout < now
         then pq\<lparr>pq_timeout_at := Some (instant_add now RETRANSMIT_TIMEOUT), pq_retransmit_at := 0,
                 pq_delay := RETRANSMIT_DELAY, pq_server_idx := pq_server_idx pq + 1\<rparr>
         else pq)"

definition pq_packet ::
  "(ip_address \<Rightarrow> ip_address option) \<Rightarrow> u8 \<Rightarrow> ip_address \<Rightarrow> dns_pending \<Rightarrow> (ip_repr \<times> udp_repr \<times> u8 list) option" where
  "pq_packet get_source_address hop_limit dst_addr pq =
     do { let repr = \<lparr>dns_transaction_id = pq_txid pq, dns_opcode = Opcode_Query, dns_flags = FLAG_RECURSION_DESIRED,
                      dns_question = \<lparr>dq_name = pq_name pq, dq_type = pq_type pq\<rparr>\<rparr>;
          payload \<leftarrow> slice_range 0 (dns_buffer_len repr) (replicate 512 0);
          payload \<leftarrow> dns_emit repr payload;
          let udp = \<lparr>u_src_port = pq_port pq,
                     u_dst_port = (case pq_mdns pq of Mdns_Enabled \<Rightarrow> MDNS_DNS_PORT | Mdns_Disabled \<Rightarrow> DNS_PORT)\<rparr>;
          src_addr \<leftarrow> get_source_address dst_addr;
          ip \<leftarrow> ip_repr_new src_addr dst_addr Udp (udp_header_len udp + length payload) hop_limit;
          Some (ip, udp, payload) }"

fun dns_dispatch_queries ::
  "instant \<Rightarrow> (ip_address \<Rightarrow> ip_address option) \<Rightarrow> ('cx \<Rightarrow> ip_repr \<times> udp_repr \<times> u8 list \<Rightarrow> (('e + unit) \<times> 'cx) option) \<Rightarrow>
   dns_socket \<Rightarrow> 'cx \<Rightarrow> dns_state option list \<Rightarrow> (('e + unit) \<times> 'cx \<times> dns_state option list) option" where
  "dns_dispatch_queries now src emit s cx [] = Some (Inr (), cx, [])"
| "dns_dispatch_queries now src emit s cx (Some (Dns_Pending pq) # qs) =
     (let pq = pq_check_timeout now pq; servers = pq_servers pq s
      in if pq_server_idx pq \<ge> length servers \<or> addr_is_unspecified (servers ! pq_server_idx pq)
         then do { (r, cx, qs) \<leftarrow> dns_dispatch_queries now src emit s cx qs; Some (r, cx, Some Dns_Failure # qs) }
         else if pq_retransmit_at pq > now
         then do { (r, cx, qs) \<leftarrow> dns_dispatch_queries now src emit s cx qs; Some (r, cx, Some (Dns_Pending pq) # qs) }
         else do { packet \<leftarrow> pq_packet src (case ds_hop_limit s of Some h \<Rightarrow> h | None \<Rightarrow> 64) (servers ! pq_server_idx pq) pq;
                   (r, cx) \<leftarrow> emit cx packet;
                   Some (case r of
                     Inl e \<Rightarrow> (Inl e, cx, Some (Dns_Pending pq) # qs)
                   | Inr _ \<Rightarrow> (Inr (), cx, Some (Dns_Pending (pq\<lparr>pq_retransmit_at := instant_add now (pq_delay pq),
                        pq_delay := min MAX_RETRANSMIT_DELAY (duration_mul (pq_delay pq) 2)\<rparr>)) # qs)) })"
| "dns_dispatch_queries now src emit s cx (q # qs) =
     do { (r, cx, qs) \<leftarrow> dns_dispatch_queries now src emit s cx qs; Some (r, cx, q # qs) }"

definition dns_dispatch ::
  "instant \<Rightarrow> (ip_address \<Rightarrow> ip_address option) \<Rightarrow> ('cx \<Rightarrow> ip_repr \<times> udp_repr \<times> u8 list \<Rightarrow> (('e + unit) \<times> 'cx) option) \<Rightarrow>
   'cx \<Rightarrow> dns_socket \<Rightarrow> (('e + unit) \<times> 'cx \<times> dns_socket) option" where
  "dns_dispatch now src emit cx s =
     do { (r, cx, queries) \<leftarrow> dns_dispatch_queries now src emit s cx (ds_queries s); Some (r, cx, s\<lparr>ds_queries := queries\<rparr>) }"

definition dns_poll_at :: "dns_socket \<Rightarrow> poll_at" where
  "dns_poll_at s =
     (case List.map_filter (\<lambda>q. case q of Some (Dns_Pending pq) \<Rightarrow> Some (PollTime (pq_retransmit_at pq)) | _ \<Rightarrow> None) (ds_queries s) of
        [] \<Rightarrow> PollIngress | t # ts \<Rightarrow> fold min ts t)"

section \<open>Names\<close>

declare eq_names.simps [simp del] copy_labels.simps [simp del]

lemma eq_names_iff:
  "eq_names (p, a) (r, b) = Inr True \<longleftrightarrow> (\<exists>labels. dns_labels p a = Some labels \<and> dns_labels r b = Some labels)"
proof (induction "length p + length a" arbitrary: p a r b rule: less_induct)
  case less
  obtain x p' a' y r' b' where n: "dns_name_next p a = (x, p', a')" "dns_name_next r b = (y, r', b')"
    by (cases "dns_name_next p a"; cases "dns_name_next r b") auto
  show ?case
  proof (cases "\<exists>la lb. x = Some (Inr la) \<and> y = Some (Inr lb)")
    case True
    then obtain la lb where l: "x = Some (Inr la)" "y = Some (Inr lb)" by blast
    then have "length p' + length a' < length p + length a" using name_next_shorter n(1) by fastforce
    with less n l show ?thesis
      by (auto simp: eq_names.simps [of p a] dns_labels_step [of p a] dns_labels_step [of r b])
  next
    case False
    then show ?thesis
      using n by (auto simp: eq_names.simps [of p a] dns_labels_step [of p a] dns_labels_step [of r b] split: option.splits sum.splits)
  qed
qed

lemma copy_labels_done:
  "copy_labels cap dest (p, a) = (Inr (), dest') \<Longrightarrow>
   \<exists>labels. dns_labels p a = Some labels \<and> good_labels labels \<and> dest' = dest @ encode_labels labels @ [0]"
proof (induction "length p + length a" arbitrary: p a dest rule: less_induct)
  case less
  obtain x p' a' where n: "dns_name_next p a = (x, p', a')" by (cases "dns_name_next p a") auto
  consider (done') "x = None" | (err) e where "x = Some (Inl e)" | (label) l where "x = Some (Inr l)"
    by (cases x) (auto split: sum.splits, metis sum.exhaust)
  then show ?case
  proof cases
    case done'
    then show ?thesis
      using less(2) n by (intro exI [of _ "[]"]) (auto simp: copy_labels.simps [of cap dest p a] dns_labels_step [of p a]
          vec_push_def split: if_splits)
  next
    case err
    then show ?thesis using less(2) n by (simp add: copy_labels.simps [of cap dest p a])
  next
    case label
    note s = name_next_shorter [OF n [unfolded label]]
    have "copy_labels cap (dest @ of_nat (length l) # l) (p', a') = (Inr (), dest')"
      using less(2) n label by (auto simp: copy_labels.simps [of cap dest p a] vec_push_def vec_extend_def split: if_splits)
    then obtain ls where "dns_labels p' a' = Some ls" "good_labels ls" "dest' = (dest @ of_nat (length l) # l) @ encode_labels ls @ [0]"
      using less(1) [of p' a' "dest @ of_nat (length l) # l"] s by auto
    then show ?thesis
      using n label s by (intro exI [of _ "l # ls"]) (auto simp: dns_labels_step [of p a])
  qed
qed

lemma copy_name_labels:
  "copy_name cap (p, a) = (Inr u, name) \<Longrightarrow> \<exists>labels. dns_labels p a = Some labels \<and> dns_labels q name = Some labels"
  using copy_labels_done [of cap "[]" p a name] dns_labels_encode [of _ q "[]"] by (auto simp: copy_name_def)

lemma push_labels_encode:
  "push_labels cap labels raw = Inr raw' \<Longrightarrow> length raw \<le> cap \<Longrightarrow>
   good_labels labels \<and> raw' = raw @ encode_labels labels @ [0] \<and> length raw' \<le> cap"
proof (induction labels arbitrary: raw)
  case Nil
  then show ?case by (auto simp: vec_push_def split: if_splits)
next
  case (Cons l ls)
  then have "push_labels cap ls (raw @ of_nat (length l) # l) = Inr raw'" "length l \<le> 63" "l \<noteq> []"
    "length (raw @ of_nat (length l) # l) \<le> cap"
    by (auto simp: vec_push_def vec_extend_def split: if_splits)
  then show ?case using Cons.IH by fastforce
qed

section \<open>What a response may do\<close>

text \<open>
  The answer section, decoded as far as it is well-formed, and what it says about a name: an address follows from a record of
  the name itself, or from records of a name that is its alias.
\<close>

fun dns_records :: "u8 list \<Rightarrow> nat \<Rightarrow> u8 list \<Rightarrow> (u8 list list option \<times> dns_record_data) list" where
  "dns_records p 0 payload = []"
| "dns_records p (Suc n) payload = (case dns_record_parse payload of
      Some (Inr (rest, r)) \<Rightarrow> (dns_labels p (dr_name r), dr_data r) # dns_records p n rest
    | _ \<Rightarrow> [])"

inductive dns_resolves :: "u8 list \<Rightarrow> (u8 list list option \<times> dns_record_data) list \<Rightarrow> u8 list list \<Rightarrow> ip_address \<Rightarrow> bool"
  for p rs where
  a: "(Some name, Record_A addr) \<in> set rs \<Longrightarrow> dns_resolves p rs name (Ipv4 addr)"
| aaaa: "(Some name, Record_Aaaa addr) \<in> set rs \<Longrightarrow> dns_resolves p rs name (Ipv6 addr)"
| cname: "(Some name, Record_Cname c) \<in> set rs \<Longrightarrow> dns_labels p c = Some target \<Longrightarrow> dns_resolves p rs target addr \<Longrightarrow>
    dns_resolves p rs name addr"

lemma dns_resolves_mono: "dns_resolves p rs name addr \<Longrightarrow> set rs \<subseteq> set rs' \<Longrightarrow> dns_resolves p rs' name addr"
  by (induction rule: dns_resolves.induct) (auto intro: dns_resolves.intros)

lemma dns_resolves_later: "dns_resolves p rs name addr \<Longrightarrow> dns_resolves p (r # rs) name addr"
  by (rule dns_resolves_mono) auto

lemma push_address_bound: "length addresses \<le> cap \<Longrightarrow> length (push_address cap a addresses) \<le> cap"
  by (simp add: push_address_def vec_push_def)

lemma set_push_address: "set (push_address cap a addresses) \<subseteq> insert a (set addresses)"
  by (auto simp: push_address_def vec_push_def)

lemma dns_answers_total: "dns_answers lim p n payload name addresses \<noteq> None"
proof (induction n arbitrary: payload name addresses)
  case (Suc n)
  then show ?case
    using dns_record_parse_total [of payload] by (auto split: sum.splits bool.splits dns_record_data.splits prod.splits)
qed simp

lemma dns_answers_sound:
  "dns_answers lim p n payload name addresses = Some (name', Some addresses') \<Longrightarrow> dns_labels p name = Some labels \<Longrightarrow>
   length addresses \<le> DNS_MAX_RESULT_COUNT lim \<Longrightarrow>
   length addresses' \<le> DNS_MAX_RESULT_COUNT lim
     \<and> (\<forall>a \<in> set addresses'. a \<in> set addresses \<or> dns_resolves p (dns_records p n payload) labels a)"
proof (induction n arbitrary: payload name addresses labels)
  case (Suc n)
  let ?max = "DNS_MAX_RESULT_COUNT lim"
  obtain parsed where parsed: "dns_record_parse payload = Some parsed" using dns_record_parse_total [of payload] by auto
  then obtain rest r where r: "dns_record_parse payload = Some (Inr (rest, r))"
    using Suc.prems(1) by (cases parsed) auto
  let ?r = "(dns_labels p (dr_name r), dr_data r)"
  have rs: "dns_records p (Suc n) payload = ?r # dns_records p n rest" using r by simp
  have skip: ?case if "dns_answers lim p n rest name addresses = Some (name', Some addresses')"
    using Suc.IH [OF that Suc.prems(2,3)] unfolding rs by (auto intro: dns_resolves_later)
  show ?case
  proof (cases "eq_names (p, dr_name r) (p, name) = Inr True")
    case True
    then have owner: "dns_labels p (dr_name r) = Some labels" using Suc.prems(2) by (auto simp: eq_names_iff)
    have address: ?thesis if "dns_answers lim p n rest name (push_address ?max a addresses) = Some (name', Some addresses')"
      "dns_resolves p (dns_records p (Suc n) payload) labels a" for a
      using Suc.IH [OF that(1) Suc.prems(2) push_address_bound [OF Suc.prems(3)]] that(2) set_push_address [of ?max a addresses]
      unfolding rs by (auto intro: dns_resolves_later)
    show ?thesis
    proof (cases "dr_data r")
      case (Record_A addr)
      show ?thesis by (rule address [of "Ipv4 addr"]) (use Suc.prems(1) r True Record_A owner in \<open>auto intro: dns_resolves.a\<close>)
    next
      case (Record_Aaaa addr)
      show ?thesis by (rule address [of "Ipv6 addr"]) (use Suc.prems(1) r True Record_Aaaa owner in \<open>auto intro: dns_resolves.aaaa\<close>)
    next
      case (Record_Cname c)
      then obtain name2 u where c: "copy_name (DNS_MAX_NAME_SIZE lim) (p, c) = (Inr u, name2)"
        "dns_answers lim p n rest name2 addresses = Some (name', Some addresses')"
        using Suc.prems(1) r True by (auto split: prod.splits sum.splits)
      obtain target where target: "dns_labels p c = Some target" "dns_labels p name2 = Some target"
        using copy_name_labels [OF c(1), of p] by blast
      have "dns_resolves p (dns_records p (Suc n) payload) labels a" if "dns_resolves p (dns_records p n rest) target a" for a
        unfolding rs using owner Record_Cname
        by (intro dns_resolves.cname [OF _ target(1) dns_resolves_later [OF that]]) simp
      then show ?thesis using Suc.IH [OF c(2) target(2) Suc.prems(3)] by blast
    next
      case (Record_Other t d)
      show ?thesis by (rule skip) (use Suc.prems(1) r True Record_Other in simp)
    qed
  next
    case False
    show ?thesis by (rule skip) (use Suc.prems(1) r False in \<open>auto split: sum.splits bool.splits\<close>)
  qed
qed simp

text \<open>What a response must have to touch a query, and what may become of the query.\<close>

definition dns_matches :: "udp_repr \<Rightarrow> u8 list \<Rightarrow> dns_pending \<Rightarrow> bool" where
  "dns_matches udp p pq \<longleftrightarrow> dnsp_opcode p = Some Opcode_Query \<and> (\<exists>flags. dnsp_flags p = Some flags \<and> flags AND FLAG_RESPONSE = FLAG_RESPONSE)
     \<and> dnsp_question_count p = Some 1 \<and> u_dst_port udp = pq_port pq \<and> dnsp_transaction_id p = Some (pq_txid pq)"

definition dns_answers_query :: "u8 list \<Rightarrow> dns_pending \<Rightarrow> ip_address list \<Rightarrow> bool" where
  "dns_answers_query p pq addresses \<longleftrightarrow> (\<exists>question rest labels count.
     dns_question_parse (drop 12 p) = Some (Inr (rest, question)) \<and> dq_type question = pq_type pq
     \<and> dns_labels p (dq_name question) = Some labels \<and> dns_labels p (pq_name pq) = Some labels
     \<and> dnsp_answer_record_count p = Some count
     \<and> (\<forall>a \<in> set addresses. dns_resolves p (dns_records p (unat count) rest) labels a))"

definition dns_slot_ok :: "dns_limits \<Rightarrow> udp_repr \<Rightarrow> u8 list \<Rightarrow> dns_state option \<Rightarrow> dns_state option \<Rightarrow> bool" where
  "dns_slot_ok lim udp p before after \<longleftrightarrow> after = before \<or> (\<exists>pq. before = Some (Dns_Pending pq) \<and> dns_matches udp p pq \<and>
     (case after of
        Some (Dns_Completed addresses) \<Rightarrow> addresses \<noteq> [] \<and> length addresses \<le> DNS_MAX_RESULT_COUNT lim \<and> dns_answers_query p pq addresses
      | Some (Dns_Pending pq') \<Rightarrow> \<exists>name. pq' = pq\<lparr>pq_name := name\<rparr>
      | Some Dns_Failure \<Rightarrow> True
      | None \<Rightarrow> False))"

lemma dns_slot_same [simp]: "dns_slot_ok lim udp p q q"
  by (simp add: dns_slot_ok_def)

lemma dns_response_ok:
  assumes m: "dns_matches udp p pq" and len: "12 \<le> length p"
  shows "\<exists>state. dns_response lim p pq = Some state \<and> dns_slot_ok lim udp p (Some (Dns_Pending pq)) (Some state)"
proof -
  have pl: "dnsp_payload p = Some (drop 12 p)" using len by (simp add: dnsp_payload_def sub_slice_def)
  obtain count where count: "dnsp_answer_record_count p = Some count" using len by (simp add: dnsp_answer_record_count_def)
  have stay: ?thesis if "dns_response lim p pq = Some (Dns_Pending pq)" using that by simp
  show ?thesis
  proof (cases "\<exists>rest question. dns_question_parse (drop 12 p) = Some (Inr (rest, question)) \<and> dq_type question = pq_type pq
      \<and> eq_names (p, dq_name question) (p, pq_name pq) = Inr True")
    case True
    then obtain rest question where q: "dns_question_parse (drop 12 p) = Some (Inr (rest, question))" "dq_type question = pq_type pq"
      "eq_names (p, dq_name question) (p, pq_name pq) = Inr True" by blast
    then obtain labels where labels: "dns_labels p (dq_name question) = Some labels" "dns_labels p (pq_name pq) = Some labels"
      by (auto simp: eq_names_iff)
    obtain name res where a: "dns_answers lim p (unat count) rest (pq_name pq) [] = Some (name, res)"
      using dns_answers_total [of lim p "unat count" rest "pq_name pq" "[]"] by auto
    have ok: "length addresses \<le> DNS_MAX_RESULT_COUNT lim \<and> dns_answers_query p pq addresses" if "res = Some addresses" for addresses
      using dns_answers_sound [OF a [unfolded that] labels(2)] q labels count by (auto simp: dns_answers_query_def)
    have "dns_response lim p pq = Some (case res of None \<Rightarrow> Dns_Pending (pq\<lparr>pq_name := name\<rparr>)
        | Some addresses \<Rightarrow> if addresses = [] then Dns_Failure else Dns_Completed addresses)"
      using pl count q a by (simp add: dns_response_def)
    then show ?thesis using ok m by (auto simp: dns_slot_ok_def split: option.split)
  next
    case False
    then show ?thesis
      using pl dns_question_parse_total [of "drop 12 p"] by (intro stay) (auto simp: dns_response_def split: sum.splits)
  qed
qed

lemma dns_process_queries_ok:
  assumes len: "12 \<le> length p"
    and m: "dnsp_opcode p = Some Opcode_Query" "\<exists>flags. dnsp_flags p = Some flags \<and> flags AND FLAG_RESPONSE = FLAG_RESPONSE"
      "dnsp_question_count p = Some 1"
  shows "\<exists>qs'. dns_process_queries lim p udp qs = Some qs' \<and> list_all2 (dns_slot_ok lim udp p) qs qs'"
proof (induction qs)
  case (Cons q qs)
  then obtain qs' where qs': "dns_process_queries lim p udp qs = Some qs'" "list_all2 (dns_slot_ok lim udp p) qs qs'" by blast
  have same: "list_all2 (dns_slot_ok lim udp p) xs xs" for xs by (rule list_all2_refl) simp
  show ?case
  proof (cases "\<exists>pq. q = Some (Dns_Pending pq)")
    case True
    then obtain pq where q: "q = Some (Dns_Pending pq)" by blast
    obtain txid where txid: "dnsp_transaction_id p = Some txid" using len by (simp add: dnsp_transaction_id_def)
    obtain rcode where rcode: "dnsp_rcode p = Some rcode" using len by (simp add: dnsp_rcode_def)
    show ?thesis
    proof (cases "u_dst_port udp \<noteq> pq_port pq \<or> txid \<noteq> pq_txid pq")
      case True
      then show ?thesis using q qs' txid by auto
    next
      case False
      then have mt: "dns_matches udp p pq" using m txid by (simp add: dns_matches_def)
      then have "dns_slot_ok lim udp p q (Some Dns_Failure)" using q by (simp add: dns_slot_ok_def)
      moreover obtain state where "dns_response lim p pq = Some state" "dns_slot_ok lim udp p q (Some state)"
        using dns_response_ok [OF mt len] q by blast
      ultimately show ?thesis using q qs' txid rcode False same by auto
    qed
  next
    case False
    then have "dns_process_queries lim p udp (q # qs) = Some (q # qs')"
      using qs'(1) by (cases q; cases "the q") auto
    then show ?thesis using qs'(2) by simp
  qed
qed simp

section \<open>A query that is not answered\<close>

definition no_pending :: "dns_state option list \<Rightarrow> bool" where
  "no_pending qs \<longleftrightarrow> (\<forall>pq. Some (Dns_Pending pq) \<notin> set qs)"

lemma dispatch_skip:
  "no_pending pre \<Longrightarrow> dns_dispatch_queries now src emit s cx (pre @ qs)
     = do { (r, cx, qs) \<leftarrow> dns_dispatch_queries now src emit s cx qs; Some (r, cx, pre @ qs) }"
proof (induction pre)
  case (Cons q pre)
  then have "no_pending pre" "\<forall>pq. q \<noteq> Some (Dns_Pending pq)" by (auto simp: no_pending_def)
  then show ?case using Cons.IH by (cases q; cases "the q") (auto split: Option.bind_splits)
qed simp

lemma dispatch_nothing: "no_pending qs \<Longrightarrow> dns_dispatch_queries now src emit s cx qs = Some (Inr (), cx, qs)"
  using dispatch_skip [of qs now src emit s cx "[]"] by simp

text \<open>The socket is polled at the given times, and \<open>dispatch\<close> is called once each time.\<close>

fun dns_poll ::
  "instant list \<Rightarrow> (ip_address \<Rightarrow> ip_address option) \<Rightarrow> ('cx \<Rightarrow> ip_repr \<times> udp_repr \<times> u8 list \<Rightarrow> (('e + unit) \<times> 'cx) option) \<Rightarrow>
   'cx \<Rightarrow> dns_socket \<Rightarrow> ('cx \<times> dns_socket) option" where
  "dns_poll [] src emit cx s = Some (cx, s)"
| "dns_poll (t # ts) src emit cx s = do { (_, cx, s) \<leftarrow> dns_dispatch t src emit cx s; dns_poll ts src emit cx s }"

lemma dns_poll_idle: "no_pending (ds_queries s) \<Longrightarrow> dns_poll ts src emit cx s = Some (cx, s)"
  by (induction ts) (simp_all add: dns_dispatch_def dispatch_nothing)

definition reachable_servers :: "(ip_address \<Rightarrow> ip_address option) \<Rightarrow> ip_address list \<Rightarrow> bool" where
  "reachable_servers src servers \<longleftrightarrow> (\<forall>d \<in> set servers. \<exists>a. src d = Some a \<and> addr_version a = addr_version d)"

lemma dns_emit_total: "length packet = dns_buffer_len repr \<Longrightarrow> dns_emit repr packet \<noteq> None"
  by (simp add: dns_emit_def dnsp_set_transaction_id_def dnsp_set_flags_def dnsp_set_opcode_def dnsp_set_question_count_def
      dnsp_set_answer_record_count_def dnsp_set_authority_record_count_def dnsp_set_additional_record_count_def
      dns_buffer_len_def dns_question_len_def dns_question_emit_def)

lemma pq_packet_total:
  assumes "length (pq_name pq) \<le> 496" "src d = Some a" "addr_version a = addr_version d"
  shows "\<exists>packet. pq_packet src hop_limit d pq = Some packet"
proof -
  let ?repr = "\<lparr>dns_transaction_id = pq_txid pq, dns_opcode = Opcode_Query, dns_flags = FLAG_RECURSION_DESIRED,
      dns_question = \<lparr>dq_name = pq_name pq, dq_type = pq_type pq\<rparr>\<rparr>"
  have n: "dns_buffer_len ?repr \<le> 512" using assms(1) by (simp add: dns_buffer_len_def dns_question_len_def)
  obtain payload where "dns_emit ?repr (replicate (dns_buffer_len ?repr) 0) = Some payload"
    using dns_emit_total [of "replicate (dns_buffer_len ?repr) 0" ?repr] by auto
  moreover obtain ip where "ip_repr_new a d Udp (udp_header_len u + length payload) hop_limit = Some ip" for u
    using ip_repr_new_eq [OF assms(3), of Udp "UDP_HEADER_LEN + length payload" hop_limit] by (auto simp: udp_header_len_def)
  ultimately show ?thesis using n assms(2) by (simp add: pq_packet_def sub_slice_def Let_def)
qed

text \<open>The polls that a query still needs until it is given up.\<close>

definition polls_needed :: "nat \<Rightarrow> dns_pending \<Rightarrow> nat" where
  "polls_needed servers pq = (case pq_timeout_at pq of
      None \<Rightarrow> 1 + (servers - pq_server_idx pq) | Some _ \<Rightarrow> max 1 (servers - pq_server_idx pq))"

definition poll_due :: "instant list \<Rightarrow> dns_pending \<Rightarrow> bool" where
  "poll_due ts pq \<longleftrightarrow> (case (ts, pq_timeout_at pq) of (t # _, Some timeout) \<Rightarrow> timeout < t | _ \<Rightarrow> True)"

lemma dns_poll_once:
  assumes qs: "ds_queries s = pre @ Some (Dns_Pending pq) # post" "no_pending pre" "no_pending post"
    and emit: "length (pq_name pq) \<le> 496" "reachable_servers src (pq_servers pq s)" "\<And>cx p. emit cx p \<noteq> None"
    and due: "poll_due [t] pq" and spaced: "successively (\<lambda>t u. instant_add t RETRANSMIT_TIMEOUT < u) (t # ts)"
    and need: "polls_needed (length (pq_servers pq s)) pq \<le> Suc (length ts)"
  obtains (failed) r cx' where "dns_dispatch t src emit cx s = Some (r, cx', s\<lparr>ds_queries := pre @ Some Dns_Failure # post\<rparr>)"
  | (waiting) r cx' pq' where "dns_dispatch t src emit cx s = Some (r, cx', s\<lparr>ds_queries := pre @ Some (Dns_Pending pq') # post\<rparr>)"
    "pq_name pq' = pq_name pq" "pq_mdns pq' = pq_mdns pq" "poll_due ts pq'"
    "polls_needed (length (pq_servers pq s)) pq' \<le> length ts"
proof -
  let ?pq = "pq_check_timeout t pq" and ?n = "length (pq_servers pq s)"
  have fields: "pq_name ?pq = pq_name pq" "pq_mdns ?pq = pq_mdns pq" by (simp_all add: pq_check_timeout_def Let_def)
  then have servers: "pq_servers ?pq s = pq_servers pq s" by (simp add: pq_servers_def)
  have timeout: "pq_timeout_at ?pq = Some (instant_add t RETRANSMIT_TIMEOUT)"
    "pq_server_idx ?pq = (if pq_timeout_at pq = None then pq_server_idx pq else pq_server_idx pq + 1)"
    using due by (auto simp: pq_check_timeout_def poll_due_def Let_def instant_add_def instant_from_micros_def split: option.splits)
  have next': "poll_due ts pq'" "polls_needed ?n pq' \<le> length ts"
    if "pq_timeout_at pq' = pq_timeout_at ?pq" "pq_server_idx pq' = pq_server_idx ?pq" "pq_server_idx ?pq < ?n" for pq'
    using that timeout spaced need by (auto simp: poll_due_def polls_needed_def split: list.splits option.splits if_splits)
  define result where "result = dns_dispatch_queries t src emit s cx (Some (Dns_Pending pq) # post)"
  have dispatch: "dns_dispatch t src emit cx s = Some (r, cx', s\<lparr>ds_queries := pre @ qs\<rparr>)" if "result = Some (r, cx', qs)" for r cx' qs
    using that unfolding dns_dispatch_def qs(1) dispatch_skip [OF qs(2)] result_def [symmetric] by simp
  note r = result_def [unfolded dns_dispatch_queries.simps(2) Let_def servers dispatch_nothing [OF qs(3)]]
  show thesis
  proof (cases "pq_server_idx ?pq \<ge> ?n \<or> addr_is_unspecified (pq_servers pq s ! pq_server_idx ?pq)")
    case True
    then have "result = Some (Inr (), cx, Some Dns_Failure # post)" by (simp add: r)
    then show thesis by (rule failed [OF dispatch])
  next
    case False
    then have idx: "pq_server_idx ?pq < ?n" by simp
    show thesis
    proof (cases "pq_retransmit_at ?pq > t")
      case True
      then have "result = Some (Inr (), cx, Some (Dns_Pending ?pq) # post)" using False by (simp add: r)
      then show thesis by (rule waiting [OF dispatch fields next' [OF refl refl idx]])
    next
      case early: False
      let ?d = "pq_servers pq s ! pq_server_idx ?pq"
      obtain a where "src ?d = Some a" "addr_version a = addr_version ?d"
        using emit(2) nth_mem [OF idx] unfolding reachable_servers_def by blast
      then obtain packet where packet: "pq_packet src (case ds_hop_limit s of Some h \<Rightarrow> h | None \<Rightarrow> 64) ?d ?pq = Some packet"
        using pq_packet_total [of ?pq src ?d a] emit(1) unfolding fields(1) by blast
      obtain res cx' where e: "emit cx packet = Some (res, cx')" using emit(3) [of cx packet] by auto
      let ?sent = "?pq\<lparr>pq_retransmit_at := instant_add t (pq_delay ?pq), pq_delay := min MAX_RETRANSMIT_DELAY (duration_mul (pq_delay ?pq) 2)\<rparr>"
      show thesis
      proof (cases res)
        case (Inl err)
        then have "result = Some (Inl err, cx', Some (Dns_Pending ?pq) # post)" using False early packet e by (simp add: r)
        then show thesis by (rule waiting [OF dispatch fields next' [OF refl refl idx]])
      next
        case (Inr u)
        then have "result = Some (Inr (), cx', Some (Dns_Pending ?sent) # post)" using False early packet e by (simp add: r)
        then show thesis by (rule waiting [OF dispatch _ _ next' [OF _ _ idx]]) (simp_all add: fields)
      qed
    qed
  qed
qed

lemma dns_poll_gives_up:
  "ds_queries s = pre @ Some (Dns_Pending pq) # post \<Longrightarrow> no_pending pre \<Longrightarrow> no_pending post \<Longrightarrow> length (pq_name pq) \<le> 496 \<Longrightarrow>
   reachable_servers src (pq_servers pq s) \<Longrightarrow> (\<And>cx p. emit cx p \<noteq> None) \<Longrightarrow> poll_due ts pq \<Longrightarrow>
   successively (\<lambda>t u. instant_add t RETRANSMIT_TIMEOUT < u) ts \<Longrightarrow> polls_needed (length (pq_servers pq s)) pq \<le> length ts \<Longrightarrow>
   \<exists>cx'. dns_poll ts src emit cx s = Some (cx', s\<lparr>ds_queries := pre @ Some Dns_Failure # post\<rparr>)"
proof (induction ts arbitrary: s pq cx)
  case Nil
  then show ?case by (simp add: polls_needed_def split: option.splits)
next
  case (Cons t ts)
  have due: "poll_due [t] pq" using Cons.prems(7) by (simp add: poll_due_def split: option.splits)
  have need: "polls_needed (length (pq_servers pq s)) pq \<le> Suc (length ts)" using Cons.prems(9) by simp
  show ?case
  proof (rule dns_poll_once [where cx = cx, OF Cons.prems(1-6) due Cons.prems(8) need])
    fix r cx'
    let ?s = "s\<lparr>ds_queries := pre @ Some Dns_Failure # post\<rparr>"
    assume "dns_dispatch t src emit cx s = Some (r, cx', ?s)"
    moreover have "no_pending (ds_queries ?s)" using Cons.prems(2,3) by (auto simp: no_pending_def)
    ultimately show ?thesis by (simp add: dns_poll_idle)
  next
    fix r cx' pq'
    let ?s = "s\<lparr>ds_queries := pre @ Some (Dns_Pending pq') # post\<rparr>"
    assume d: "dns_dispatch t src emit cx s = Some (r, cx', ?s)"
      and pq': "pq_name pq' = pq_name pq" "pq_mdns pq' = pq_mdns pq" "poll_due ts pq'"
        "polls_needed (length (pq_servers pq s)) pq' \<le> length ts"
    have servers: "pq_servers pq' ?s = pq_servers pq s" using pq'(2) by (simp add: pq_servers_def split: multicast_dns.split)
    have "successively (\<lambda>t u. instant_add t RETRANSMIT_TIMEOUT < u) ts" using Cons.prems(8) by (cases ts) auto
    then have "\<exists>cx2. dns_poll ts src emit cx' ?s = Some (cx2, ?s\<lparr>ds_queries := pre @ Some Dns_Failure # post\<rparr>)"
      using Cons.prems(2-6) pq' servers by (intro Cons.IH [of ?s pq']) simp_all
    then show ?thesis using d by simp
  qed
qed

section \<open>A query that is started\<close>

lemma free_slot_bound: "free_slot i qs = Some k \<Longrightarrow> i \<le> k \<and> k < i + length qs"
  by (induction qs arbitrary: i) (fastforce split: if_splits)+

lemma start_query_pending:
  assumes "start_query lim name query_type rand s = Some (Inr handle, rand', s')"
  obtains pq raw where "ds_queries s' ! handle = Some (Dns_Pending pq)" "pq_name pq = raw" "pq_type pq = query_type"
    "push_labels (DNS_MAX_NAME_SIZE lim) (split_dots (strip_dot name)) [] = Inr raw" "pq_timeout_at pq = None" "pq_server_idx pq = 0"
proof -
  obtain raw where raw: "push_labels (DNS_MAX_NAME_SIZE lim) (split_dots (strip_dot name)) [] = Inr raw"
    using assms by (auto simp: start_query_def Let_def split: if_splits sum.splits)
  then obtain mdns where "start_query_raw lim raw query_type mdns rand s = Some (Inr handle, rand', s')"
    using assms by (auto simp: start_query_def Let_def split: if_splits)
  then obtain s1 name' txid port where q: "find_free_query s = (Some handle, s1)" "vec_extend (DNS_MAX_NAME_SIZE lim) raw [] = Some name'"
    "s' = s1\<lparr>ds_queries := (ds_queries s1)[handle := Some (Dns_Pending \<lparr>pq_name = name', pq_type = query_type, pq_port = port, pq_txid = txid,
        pq_timeout_at = None, pq_retransmit_at = 0, pq_delay = RETRANSMIT_DELAY, pq_server_idx = 0, pq_mdns = mdns\<rparr>)]\<rparr>"
    by (auto simp: start_query_raw_def Let_def bind_eq_Some_conv split: prod.splits option.splits)
  have "handle < length (ds_queries s1)"
    using q(1) free_slot_bound [of 0 "ds_queries s"] by (auto simp: find_free_query_def Let_def split: option.splits if_splits)
  moreover have "name' = raw" using q(2) by (simp add: vec_extend_def split: if_splits)
  ultimately show thesis using that raw q(3) by simp
qed

lemma pq_packet_query:
  assumes name: "pq_name pq = encode_labels labels @ [0]" "good_labels labels" "length (pq_name pq) \<le> 496"
    and type: "dns_type_from (dns_type_into (pq_type pq)) = pq_type pq"
    and addr: "src d = Some a" "addr_version a = addr_version d"
  obtains ip udp out payload where "pq_packet src hop_limit d pq = Some (ip, udp, out)" "ip_dst_addr ip = d" "ip_src_addr ip = a"
    "u_src_port udp = pq_port pq" "dnsp_check_len out = Inr ()" "dnsp_transaction_id out = Some (pq_txid pq)"
    "dnsp_opcode out = Some Opcode_Query" "dnsp_flags out = Some FLAG_RECURSION_DESIRED" "dnsp_question_count out = Some 1"
    "dnsp_payload out = Some payload"
    "dns_question_parse payload = Some (Inr ([], \<lparr>dq_name = pq_name pq, dq_type = pq_type pq\<rparr>))"
    "dns_labels out (pq_name pq) = Some labels"
proof -
  let ?repr = "\<lparr>dns_transaction_id = pq_txid pq, dns_opcode = Opcode_Query, dns_flags = FLAG_RECURSION_DESIRED,
      dns_question = \<lparr>dq_name = pq_name pq, dq_type = pq_type pq\<rparr>\<rparr>"
  have flags: "dns_flags ?repr AND FLAGS_ALL = dns_flags ?repr" "dns_opcode ?repr \<in> {Opcode_Query, Opcode_Status}"
    by (simp_all add: FLAG_RECURSION_DESIRED_def FLAGS_ALL_def)
  have n: "dns_buffer_len ?repr \<le> 512" using name(3) by (simp add: dns_buffer_len_def dns_question_len_def)
  have q: "dq_name (dns_question ?repr) = encode_labels labels @ [0]"
    "dns_type_from (dns_type_into (dq_type (dns_question ?repr))) = dq_type (dns_question ?repr)"
    using name(1) type by simp_all
  obtain out payload where o: "dns_emit ?repr (replicate (dns_buffer_len ?repr) 0) = Some out" "dnsp_check_len out = Inr ()"
    "dnsp_transaction_id out = Some (pq_txid pq)" "dnsp_flags out = Some FLAG_RECURSION_DESIRED" "dnsp_opcode out = Some Opcode_Query"
    "dnsp_question_count out = Some 1" "dnsp_payload out = Some payload" "dns_question_parse payload = Some (Inr ([], dns_question ?repr))"
    by (rule dns_emit_parse [OF q(1) name(2) q(2) flags]) simp
  obtain ip where ip: "ip_repr_new a d Udp (UDP_HEADER_LEN + length out) hop_limit = Some ip" "ip_dst_addr ip = d" "ip_src_addr ip = a"
    using ip_repr_new_eq [OF addr(2), of Udp "UDP_HEADER_LEN + length out" hop_limit] by blast
  have "dns_labels out (pq_name pq) = Some labels" using dns_labels_encode [OF name(2), of out "[]"] name(1) by simp
  moreover have "pq_packet src hop_limit d pq = Some (ip, \<lparr>u_src_port = pq_port pq,
      u_dst_port = (case pq_mdns pq of Mdns_Enabled \<Rightarrow> MDNS_DNS_PORT | Mdns_Disabled \<Rightarrow> DNS_PORT)\<rparr>, out)"
    using n o(1) addr(1) ip(1) by (simp add: pq_packet_def sub_slice_def udp_header_len_def Let_def)
  ultimately show thesis using that o ip by simp
qed

section \<open>Properties\<close>

text \<open>C39. What the resolver asks is what the application named: when \<open>start_query\<close> accepts a name, the packet that \<open>dispatch\<close>
  builds for the query goes to the chosen server from the port of the query, is a query with its transaction number and exactly one
  question, and the question, parsed back, has the requested type and a name whose labels are the parts of the name between dots.\<close>

theorem dns_query_roundtrip:
  assumes "start_query lim name query_type rand s = Some (Inr handle, rand', s')" and "DNS_MAX_NAME_SIZE lim \<le> 496"
    and "dns_type_from (dns_type_into query_type) = query_type" and "src d = Some a" and "addr_version a = addr_version d"
  shows "\<exists>pq ip udp out payload. ds_queries s' ! handle = Some (Dns_Pending pq)
    \<and> pq_packet src hop_limit d pq = Some (ip, udp, out) \<and> ip_dst_addr ip = d \<and> u_src_port udp = pq_port pq
    \<and> dnsp_transaction_id out = Some (pq_txid pq) \<and> dnsp_opcode out = Some Opcode_Query
    \<and> dnsp_flags out = Some FLAG_RECURSION_DESIRED \<and> dnsp_question_count out = Some 1 \<and> dnsp_payload out = Some payload
    \<and> dns_question_parse payload = Some (Inr ([], \<lparr>dq_name = pq_name pq, dq_type = query_type\<rparr>))
    \<and> dns_labels out (pq_name pq) = Some (split_dots (strip_dot name))"
proof -
  obtain pq raw where pq: "ds_queries s' ! handle = Some (Dns_Pending pq)" "pq_name pq = raw" "pq_type pq = query_type"
    "push_labels (DNS_MAX_NAME_SIZE lim) (split_dots (strip_dot name)) [] = Inr raw"
    by (rule start_query_pending [OF assms(1)])
  then have name: "pq_name pq = encode_labels (split_dots (strip_dot name)) @ [0]" "good_labels (split_dots (strip_dot name))"
    "length (pq_name pq) \<le> 496"
    using push_labels_encode [OF pq(4)] assms(2) by auto
  have type: "dns_type_from (dns_type_into (pq_type pq)) = pq_type pq" using assms(3) pq(3) by simp
  show ?thesis
    by (rule pq_packet_query [where hop_limit = hop_limit and src = src and d = d, OF name type assms(4,5)]) (use pq(1,3) in auto)
qed

text \<open>C13. A response never panics, whatever its octets, and touches no query that it does not match: a slot stays as it is unless it
  holds a pending query whose port and transaction number are those of the response, which has the response bit set and one question.
  If it completes the query, then its question has the type and the name of the query, it gives at least one address and no more
  than fit, and every address follows from its answers: from a record of the name itself, or of a name reached by a chain of
  aliases.\<close>

theorem dns_response_answers_query:
  assumes "dns_accepts ip udp s"
  shows "\<exists>s'. dns_process lim ip udp payload s = Some s' \<and> ds_servers s' = ds_servers s
    \<and> list_all2 (dns_slot_ok lim udp payload) (ds_queries s) (ds_queries s')"
proof -
  have stay: "dns_process lim ip udp payload s = Some s \<Longrightarrow> ?thesis" by (auto intro: list_all2_refl)
  show ?thesis
  proof (cases "length payload < 12")
    case True
    then show ?thesis using assms by (intro stay) (simp add: dns_process_def dnsp_check_len_def)
  next
    case False
    then obtain opcode flags count where h: "dnsp_opcode payload = Some opcode" "dnsp_flags payload = Some flags"
      "dnsp_question_count payload = Some count"
      by (simp add: dnsp_opcode_def dnsp_flags_def dnsp_question_count_def)
    show ?thesis
    proof (cases "opcode = Opcode_Query \<and> flags AND FLAG_RESPONSE = FLAG_RESPONSE \<and> count = 1")
      case True
      obtain qs where "dns_process_queries lim payload udp (ds_queries s) = Some qs" "list_all2 (dns_slot_ok lim udp payload) (ds_queries s) qs"
        using dns_process_queries_ok [of payload lim udp "ds_queries s"] False h True by auto
      then show ?thesis using assms h True False by (simp add: dns_process_def dnsp_check_len_def)
    next
      case bad: False
      then show ?thesis using assms h False by (intro stay) (auto simp: dns_process_def dnsp_check_len_def)
    qed
  qed
qed


section \<open>Examples\<close>

definition sample_limits :: dns_limits where
  "sample_limits = \<lparr>DNS_MAX_NAME_SIZE = 255, DNS_MAX_RESULT_COUNT = 1, DNS_MAX_SERVER_COUNT = 1\<rparr>"

definition sample_query :: dns_pending where
  "sample_query = \<lparr>pq_name = [1, 97, 0], pq_type = Type_A, pq_port = 4000, pq_txid = 0x1234, pq_timeout_at = None, pq_retransmit_at = 0,
     pq_delay = 1000000, pq_server_idx = 0, pq_mdns = Mdns_Disabled\<rparr>"

definition sample_resolver :: dns_socket where
  "sample_resolver = \<lparr>ds_servers = [Ipv4 [8, 8, 8, 8]], ds_queries = [None, Some (Dns_Pending sample_query)], ds_owned = False, ds_hop_limit = None\<rparr>"

definition sample_source :: ip_repr where
  "sample_source = Ipv4_Repr \<lparr>v4_src_addr = [8, 8, 8, 8], v4_dst_addr = [10, 0, 0, 1], v4_next_header = Udp, v4_payload_len = 0, v4_hop_limit = 64\<rparr>"

definition sample_response :: "u8 list" where
  "sample_response = [0x12, 0x34, 0x81, 0x80, 0, 1, 0, 1, 0, 0, 0, 0, 1, 97, 0, 0, 1, 0, 1,
     0xC0, 0x0C, 0, 1, 0, 1, 0, 0, 0, 60, 0, 4, 10, 0, 0, 7]"


lemma sample_pointer: "name_pointer 0xC0 0x0C = 12"
  by (simp add: name_pointer_def)

lemma sample_answer_name: "eq_names (sample_response, [0xC0, 0x0C]) (sample_response, [1, 97, 0]) = Inr True"
  by (simp add: eq_names.simps sample_response_def sample_pointer)

lemma sample_question: "dns_question_parse (drop 12 sample_response) = Some (Inr (drop 19 sample_response, \<lparr>dq_name = [1, 97, 0], dq_type = Type_A\<rparr>))"
  by (simp add: dns_question_parse_def sample_response_def checked_sub_def sub_slice_def be_u16_def be_nat_def CLASS_IN_def dns_type_from_def)

lemma sample_record: "dns_record_parse (drop 19 sample_response) = Some (Inr ([], \<lparr>dr_name = [0xC0, 0x0C], dr_ttl = 60, dr_data = Record_A [10, 0, 0, 7]\<rparr>))"
  by (simp add: dns_record_parse_def sample_response_def checked_sub_def sub_slice_def be_u16_def be_u32_def be_nat_def CLASS_IN_def
      dns_type_from_def dns_record_data_parse_def sample_pointer)

lemma sample_completes: "dns_response sample_limits sample_response sample_query = Some (Dns_Completed [Ipv4 [10, 0, 0, 7]])"
proof -
  have "dnsp_payload sample_response = Some (drop 12 sample_response)" by (simp add: dnsp_payload_def sample_response_def sub_slice_def)
  moreover have "dnsp_answer_record_count sample_response = Some 1" 
    by (simp add: dnsp_answer_record_count_def sample_response_def sub_slice_def be_u16_def be_nat_def)
  moreover have "eq_names (sample_response, [1, 97, 0]) (sample_response, [1, 97, 0]) = Inr True"
    by (simp add: eq_names.simps)
  ultimately show ?thesis using sample_answer_name sample_question sample_record
    by (simp add: dns_response_def sample_query_def push_address_def vec_push_def sample_limits_def)
qed

theorem dns_response_answers_query_witness:
  "(\<exists>s'. dns_process sample_limits sample_source \<lparr>u_src_port = 53, u_dst_port = 4000\<rparr> sample_response sample_resolver = Some s'
      \<and> ds_servers s' = ds_servers sample_resolver
      \<and> list_all2 (dns_slot_ok sample_limits \<lparr>u_src_port = 53, u_dst_port = 4000\<rparr> sample_response) (ds_queries sample_resolver) (ds_queries s'))
   \<and> dns_process sample_limits sample_source \<lparr>u_src_port = 53, u_dst_port = 4000\<rparr> sample_response sample_resolver
      = Some (sample_resolver\<lparr>ds_queries := [None, Some (Dns_Completed [Ipv4 [10, 0, 0, 7]])]\<rparr>)"
proof
  let ?udp = "\<lparr>u_src_port = 53, u_dst_port = 4000\<rparr>"
  have acc: "dns_accepts sample_source ?udp sample_resolver"
    by (simp add: dns_accepts_def sample_source_def sample_resolver_def DNS_PORT_def)
  then show "\<exists>s'. dns_process sample_limits sample_source ?udp sample_response sample_resolver = Some s'
      \<and> ds_servers s' = ds_servers sample_resolver
      \<and> list_all2 (dns_slot_ok sample_limits ?udp sample_response) (ds_queries sample_resolver) (ds_queries s')"
    by (rule dns_response_answers_query)
  have "dnsp_check_len sample_response = Inr ()" "dnsp_opcode sample_response = Some Opcode_Query"
    "dnsp_flags sample_response = Some 0x8180" "dnsp_question_count sample_response = Some 1"
    "dnsp_transaction_id sample_response = Some 0x1234" "dnsp_rcode sample_response = Some Rcode_NoError"
    by (simp_all add: sample_response_def dnsp_check_len_def dnsp_opcode_def dnsp_flags_def dnsp_question_count_def dnsp_transaction_id_def
        dnsp_rcode_def sub_slice_def be_u16_def be_nat_def opcode_from_def rcode_from_def FLAGS_ALL_def)
  then show "dns_process sample_limits sample_source ?udp sample_response sample_resolver
      = Some (sample_resolver\<lparr>ds_queries := [None, Some (Dns_Completed [Ipv4 [10, 0, 0, 7]])]\<rparr>)"
    using acc sample_completes by (simp add: dns_process_def FLAG_RESPONSE_def sample_resolver_def)
      (simp add: sample_query_def)
qed

lemma sample_start:
  "\<exists>rand' s'. start_query sample_limits [97, 46, 98] Type_A (rand_new 1) (sample_resolver\<lparr>ds_queries := [None]\<rparr>) = Some (Inr 0, rand', s')"
  by (simp add: start_query_def start_query_raw_def strip_dot_def sample_limits_def vec_push_def vec_extend_def find_free_query_def
      sample_resolver_def Let_def rand_source_port.simps rand_u16_def rand_u32_def rand_new_def)

theorem dns_query_roundtrip_witness:
  "\<exists>rand' s' pq ip udp out payload.
     start_query sample_limits [97, 46, 98] Type_A (rand_new 1) (sample_resolver\<lparr>ds_queries := [None]\<rparr>) = Some (Inr 0, rand', s')
     \<and> ds_queries s' ! 0 = Some (Dns_Pending pq)
     \<and> pq_packet (\<lambda>_. Some (Ipv4 [10, 0, 0, 1])) 64 (Ipv4 [8, 8, 8, 8]) pq = Some (ip, udp, out)
     \<and> dns_question_parse payload = Some (Inr ([], \<lparr>dq_name = pq_name pq, dq_type = Type_A\<rparr>))
     \<and> dnsp_payload out = Some payload \<and> dns_labels out (pq_name pq) = Some [[97], [98]]"
proof -
  obtain rand' s' where s: "start_query sample_limits [97, 46, 98] Type_A (rand_new 1) (sample_resolver\<lparr>ds_queries := [None]\<rparr>)
      = Some (Inr 0, rand', s')"
    using sample_start by blast
  have "DNS_MAX_NAME_SIZE sample_limits \<le> 496" "dns_type_from (dns_type_into Type_A) = Type_A"
    "addr_version (Ipv4 [10, 0, 0, 1]) = addr_version (Ipv4 [8, 8, 8, 8])" "split_dots (strip_dot [97, 46, 98]) = [[97], [98]]"
    by (simp_all add: sample_limits_def dns_type_from_def strip_dot_def)
  with dns_query_roundtrip [OF s, of "\<lambda>_. Some (Ipv4 [10, 0, 0, 1])" "Ipv4 [8, 8, 8, 8]" "Ipv4 [10, 0, 0, 1]" 64] s
  show ?thesis by auto
qed

text \<open>
  A response that is discarded because an answer is malformed may still have changed the query: here the first answer is an alias
  and the second one is missing, the query stays pending, and from then on it asks for the alias.
\<close>

definition truncated_response :: "u8 list" where
  "truncated_response = [0x12, 0x34, 0x81, 0x80, 0, 1, 0, 2, 0, 0, 0, 0, 1, 97, 0, 0, 1, 0, 1,
     0xC0, 0x0C, 0, 5, 0, 1, 0, 0, 0, 60, 0, 3, 1, 98, 0]"

lemma discarded_response_renames_query:
  "dns_response sample_limits truncated_response sample_query = Some (Dns_Pending (sample_query\<lparr>pq_name := [1, 98, 0]\<rparr>))"
proof -
  let ?p = truncated_response
  have "dnsp_payload ?p = Some (drop 12 ?p)" "dnsp_answer_record_count ?p = Some 2"
    by (simp_all add: dnsp_payload_def dnsp_answer_record_count_def truncated_response_def sub_slice_def be_u16_def be_nat_def)
  moreover have "eq_names (?p, [1, 97, 0]) (?p, [1, 97, 0]) = Inr True" by (simp add: eq_names.simps)
  moreover have "eq_names (?p, [0xC0, 0x0C]) (?p, [1, 97, 0]) = Inr True"
    by (simp add: eq_names.simps truncated_response_def sample_pointer)
  moreover have "dns_question_parse (drop 12 ?p) = Some (Inr (drop 19 ?p, \<lparr>dq_name = [1, 97, 0], dq_type = Type_A\<rparr>))"
    by (simp add: dns_question_parse_def truncated_response_def checked_sub_def sub_slice_def be_u16_def be_nat_def CLASS_IN_def dns_type_from_def)
  moreover have "dns_record_parse (drop 19 ?p) = Some (Inr ([], \<lparr>dr_name = [0xC0, 0x0C], dr_ttl = 60, dr_data = Record_Cname [1, 98, 0]\<rparr>))"
    by (simp add: dns_record_parse_def truncated_response_def checked_sub_def sub_slice_def be_u16_def be_u32_def be_nat_def CLASS_IN_def
        dns_type_from_def dns_record_data_parse_def sample_pointer)
  moreover have "dns_record_parse [] = Some (Inl Wire_Error)" by (simp add: dns_record_parse_def)
  moreover have "copy_name (DNS_MAX_NAME_SIZE sample_limits) (?p, [1, 98, 0]) = (Inr (), [1, 98, 0])"
    by (simp add: copy_name_def copy_labels.simps vec_push_def vec_extend_def sample_limits_def)
  moreover from calculation have "dns_answers sample_limits ?p 2 (drop 19 ?p) [1, 97, 0] [] = Some ([1, 98, 0], None)"
    by (simp add: numeral_2_eq_2)
  ultimately show ?thesis by (simp add: dns_response_def sample_query_def)
qed

end
