(* ===== verification/Spec2Isabelle.thy ===== *)
theory Spec2Isabelle
  imports Tcp_End_To_End Tcp_Delivery Reassembly Tcp_States Tcp_Codec Ipv4_Wire Udp_Wire Link_Wire Packet_Buffer Neighbor_Cache Routes Ipv4_Fragments Udp_End_To_End Dns_Socket
begin

text \<open>
  A verification development of smoltcp, a TCP/IP stack for systems without an operating system. Paths are relative to the
  crate, so that \<^verbatim>\<open>src/socket/tcp.rs\<close> is the TCP socket.

  \<^bold>\<open>The program.\<close> A device hands frames to the interface (\<^verbatim>\<open>src/iface\<close>), which parses them with the formats of
  \<^verbatim>\<open>src/wire\<close>, reassembles IPv4 fragments, and hands the payload to the sockets that accept it (\<open>accepts\<close>, \<open>process\<close>). On
  the way out the interface asks each socket for a packet (\<open>dispatch\<close>), looks up a route and the hardware address of the next
  hop, and emits one frame or several fragments. The sockets keep octets in ring buffers and datagrams in packet buffers
  (\<^verbatim>\<open>src/storage\<close>); the application calls \<open>send\<close>, \<open>recv\<close>, \<open>connect\<close>, \<open>listen\<close>, \<open>close\<close>. The stack is polled: \<open>poll_at\<close> says
  when a socket has something to do.

  \<^bold>\<open>Conventions.\<close> A function of the code is a function of the model with the same name, with a prefix where names clash
  (\<open>rb_\<close> ring buffer, \<open>asm_\<close> assembler, \<open>pb_\<close> packet buffer, \<open>tcpp_\<close>, \<open>ipv4p_\<close>, \<open>udpp_\<close>, \<open>ethf_\<close> packet accessors). State is
  passed explicitly: an operation on \<open>&mut self\<close> returns the record after it. A panic (failed assertion, slice out of range,
  subtraction below zero, \<open>unwrap\<close> of \<open>None\<close>) is the value \<open>None\<close> of an \<open>option\<close>; a \<open>Result\<close> is a sum with the error on the left.
  Integers that wrap are words (\<open>SeqNumber\<close> is a 32-bit word, ports, windows, checksums and fields keep their width); \<open>usize\<close> is
  \<open>nat\<close>, with every subtraction that could go below zero checked. \<open>Instant\<close> is an integer and \<open>Duration\<close> a natural number of
  microseconds. A buffer is its list of octets. Debug assertions and overflow checks are on. Logging and wakers, which change
  nothing that is computed, are left out.

  \<^bold>\<open>The theories.\<close>

  \<^item> \<open>Smoltcp_Prelude\<close>: the fact collections, the panic and result combinators, slices and copies of lists.
    \<open>Storage_Interfaces\<close>: the contracts, as locales: a byte queue, a store that is written out of order, an offset tracker, the
    reassembly of a stream from the two, and a queue of datagrams. Every locale is interpreted on the model of the component that
    provides it, and the clients' lemmas are proved once, from the contract.

  \<^item> \<open>Ring_Buffer\<close> (\<^verbatim>\<open>src/storage/ring_buffer.rs\<close>), \<open>Assembler\<close> (\<^verbatim>\<open>src/storage/assembler.rs\<close>), \<open>Packet_Buffer\<close>
    (\<^verbatim>\<open>src/storage/packet_buffer.rs\<close>): the ring refines a FIFO stream and its unallocated area survives until it is
    enqueued; the assembler represents a set of offsets, \<open>add\<close> is union and fails exactly when there are too many holes, and the
    front run that is removed is the longest one; the packet buffer refines a FIFO of whole datagrams, accepts whatever fits when it
    is idle, and has one operation that does not keep datagrams whole. \<open>Reassembly\<close> composes ring and assembler as \<open>process\<close> does:
    the contents are always a prefix of the stream.

  \<^item> \<open>Smol_Time\<close>, \<open>Smol_Rand\<close>, \<open>Seq_Number\<close>, \<open>Ip_Types\<close>, \<open>Tcp_Repr\<close>: \<^verbatim>\<open>src/time.rs\<close>, \<^verbatim>\<open>src/rand.rs\<close>, sequence
    numbers, addresses and endpoints, segments.

  \<^item> \<open>Tcp_Timers\<close>, \<open>Congestion\<close> (\<^verbatim>\<open>src/socket/tcp/congestion\<close>: none and Reno), \<open>Tcp_Socket\<close> (state and the operations of the
    application), \<open>Tcp_Process\<close> (\<open>process\<close>), \<open>Tcp_Dispatch\<close> (\<open>dispatch\<close>, \<open>poll_at\<close>): the whole TCP socket except the
    Cubic controller. \<open>process\<close> and \<open>dispatch\<close> are split into the steps of the code, in its order.

  \<^item> \<open>Tcp_Invariant\<close>, \<open>Tcp_Receive\<close>, \<open>Tcp_Receive_Main\<close>, \<open>Tcp_Transmit\<close>: the invariant of a socket and that every operation keeps
    it. \<open>Tcp_Reachable\<close>: the step relation over all operations, by rule induction the invariant of every reachable socket, and that
    no reachable operation panics. \<open>Tcp_Properties\<close>: what arrives is the stream of the peer, what is sent is the stream of the
    application, segments fit the MTU, and \<open>poll_at\<close> agrees with \<open>dispatch\<close>. \<open>Tcp_States\<close>: the state diagram. \<open>Tcp_Delivery\<close>: data
    in order is delivered.

  \<^item> \<open>Wire_Bytes\<close>, \<open>Ip_Checksum\<close>, \<open>Tcp_Wire\<close>, \<open>Tcp_Codec\<close>, \<open>Ipv4_Wire\<close>, \<open>Udp_Wire\<close>, \<open>Link_Wire\<close>
    (\<^verbatim>\<open>src/wire/{ip,tcp,ipv4,udp,ethernet,arp}.rs\<close>): parsing is total, what is emitted is parsed back, the checksum is
    that of RFC 1071 and detects every change of one octet. The locale \<open>wire_format\<close> is the contract of a format.
    \<open>Tcp_End_To_End\<close> composes the socket with the format: arbitrary octets never panic, and a dispatched segment, put on the wire,
    parsed and processed, appends the next octets of the stream.

  \<^item> \<open>Ip_Cidr\<close>, \<open>Routes\<close> (\<^verbatim>\<open>src/iface/route.rs\<close>), \<open>Neighbor_Cache\<close> (\<^verbatim>\<open>src/iface/neighbor.rs\<close>): prefixes, longest-prefix
    routing among the routes that have not expired, and lookup after fill.

  \<^item> \<open>Fragmentation\<close> (\<^verbatim>\<open>src/iface/fragmentation.rs\<close>), \<open>Ipv4_Fragments\<close> (the IPv4 half of \<open>dispatch_ip\<close>, \<open>dispatch_ipv4_frag\<close>,
    \<open>ipv4_egress\<close> and \<open>process_ipv4\<close>): fragments of different packets are never mixed, and a packet that is fragmented is
    reassembled octet for octet. \<open>Udp_Socket\<close> (\<^verbatim>\<open>src/socket/udp.rs\<close> and \<open>process_udp\<close>): the socket refines an endpoint with
    two queues. \<open>Udp_End_To_End\<close>: from \<open>send_slice\<close> on one host to \<open>recv\<close> on the other.

  \<^item> \<open>Dns_Wire\<close> (\<^verbatim>\<open>src/wire/dns.rs\<close>), \<open>Dns_Socket\<close> (\<^verbatim>\<open>src/socket/dns.rs\<close>): names with pointers are read in bounded time,
    a query is parsed back as the name that was asked for, a response changes only a query that it matches, the addresses it gives
    follow from its records, and a query that nobody answers is given up.

  \<^bold>\<open>Bounds and hypotheses.\<close> The transmit buffer of a TCP socket is smaller than \<open>i32::MAX\<close>, so that sequence numbers compare, and
  the receive buffer at most \<open>2^30\<close>, which \<open>new\<close> enforces. The MTU for IP packets is at least 60 octets, an IPv6 and a TCP header, and
  72 where a segment with options has to fit. A segment is well-formed when its fields fit their width; \<open>parse\<close> only
  returns such segments. The checksum is that of RFC 1071 for up to 128 KiB, beyond which the 32-bit accumulator could wrap. The buffer
  that \<open>TxToken::consume\<close> hands out is a parameter of the requested length with arbitrary contents. heapless' \<open>LinearMap\<close> is a
  parameter with its documented laws, byteorder's \<open>NetworkEndian\<close> is big-endian, and a \<open>Vec\<close> is a list. \<open>egress_frames\<close> bounds the
  calls of \<open>ipv4_egress\<close> by the length of the datagram, and the theorems show that the fragmenter is then empty. Fragmentation is right
  when a full fragment holds a multiple of 8 octets; the code does not round down (\<open>fragment_offset_rounds_down\<close>). Loops over
  options, names and contigs are total functions; \<open>rand_source_port\<close>, which need not end, is a partial one.

  \<^bold>\<open>Not modelled.\<close> The Cubic controller, which computes with floating point. The event loop of the interface and its choice of a
  source address; the sockets for ICMP, raw IP and DHCP; the formats of ICMP, IGMP, IPv6 and its extension headers, IPsec,
  IEEE 802.15.4, 6LoWPAN, RPL and DHCP, and the RPL and multicast machinery above them: further protocols of the same kind as those
  modelled. The devices of \<^verbatim>\<open>src/phy\<close>, which do input and output, except their capabilities. Wakers, logging, pretty printing
  and the parsers of addresses from text.
\<close>

end
